(* ===== verification/Prelude.thy ===== *)
theory Prelude
  imports Main "HOL-Library.Word"
begin

text \<open>
  Shared vocabulary of the development: the machine integer types of the C++ sources, the result
  type that stands for "returns or fails", checked access to arrays, and the generic lemmas the
  component theories use.

  A computation that can fail returns a value of \<open>'e + 'a\<close>: \<open>Inl e\<close> is the failure, \<open>Inr x\<close> the
  value returned. \<open>bindE\<close> sequences two such computations, the first failure wins, as an exception
  or a call of \<open>std::terminate\<close> does.
\<close>

type_synonym u16 = "16 word"
type_synonym u32 = "32 word"
type_synonym u64 = "64 word"

named_theorems u32_simps \<open>reading 32-bit operations as operations on natural numbers\<close>
named_theorems step_simps \<open>unfolding rules of the operations of a component\<close>

section \<open>Results\<close>

fun bindE :: "'e + 'a \<Rightarrow> ('a \<Rightarrow> 'e + 'b) \<Rightarrow> 'e + 'b" where
  "bindE (Inl e) f = Inl e"
| "bindE (Inr x) f = f x"

lemma bindE_cong [fundef_cong]:
  assumes "m = m'" and "\<And>x. m' = Inr x \<Longrightarrow> f x = f' x"
  shows "bindE m f = bindE m' f'"
  using assms by (cases m') auto

lemma bindE_Inr_iff: "bindE m f = Inr y \<longleftrightarrow> (\<exists>x. m = Inr x \<and> f x = Inr y)"
  by (cases m) auto

lemma bindE_Inl_iff: "bindE m f = Inl e \<longleftrightarrow> m = Inl e \<or> (\<exists>x. m = Inr x \<and> f x = Inl e)"
  by (cases m) auto

lemma bindE_assoc: "bindE (bindE m f) g = bindE m (\<lambda>x. bindE (f x) g)"
  by (cases m) auto

lemma bindE_Inr_right [simp]: "bindE m Inr = m"
  by (cases m) auto

section \<open>Memory\<close>

text \<open>
  The ways a memory access of the C++ code leaves defined behaviour. An array of \<open>T\<close> made by
  \<open>new T[n]\<close> is a list of \<open>n\<close> cells; \<open>None\<close> is a cell nothing has been stored in yet.
\<close>

datatype mem_error = OutOfBounds | Uninitialised | NullDeref | DanglingDeref

type_synonym 'a cells = "'a option list"

definition new_array :: "u32 \<Rightarrow> 'a cells" where
  "new_array n = replicate (unat n) None"

definition cell :: "'a cells \<Rightarrow> u32 \<Rightarrow> mem_error + 'a option" where
  "cell a i = (if unat i < length a then Inr (a ! unat i) else Inl OutOfBounds)"

definition store :: "'a cells \<Rightarrow> u32 \<Rightarrow> 'a option \<Rightarrow> mem_error + 'a cells" where
  "store a i x = (if unat i < length a then Inr (a[unat i := x]) else Inl OutOfBounds)"

definition load :: "'a cells \<Rightarrow> u32 \<Rightarrow> mem_error + 'a" where
  "load a i = bindE (cell a i) (\<lambda>c. case c of None \<Rightarrow> Inl Uninitialised | Some x \<Rightarrow> Inr x)"

lemma length_new_array [simp]: "length (new_array n) = unat n"
  by (simp add: new_array_def)

lemma cell_in [simp]: "unat i < length a \<Longrightarrow> cell a i = Inr (a ! unat i)"
  by (simp add: cell_def)

lemma store_in [simp]: "unat i < length a \<Longrightarrow> store a i x = Inr (a[unat i := x])"
  by (simp add: store_def)

lemma load_in [simp]: "unat i < length a \<Longrightarrow> a ! unat i = Some x \<Longrightarrow> load a i = Inr x"
  by (simp add: load_def)

section \<open>32-bit arithmetic read on the natural numbers\<close>

lemma unat_u32_lt [simp]: "unat (x :: u32) < 4294967296"
  by (rule order_less_le_trans [OF unsigned_less]) simp

lemma u32_less_iff [u32_simps]: "(x :: u32) < y \<longleftrightarrow> unat x < unat y"
  by (simp add: word_less_nat_alt)

lemma u32_le_iff [u32_simps]: "(x :: u32) \<le> y \<longleftrightarrow> unat x \<le> unat y"
  by (simp add: word_le_nat_alt)

lemma u32_eq_iff: "(x :: u32) = y \<longleftrightarrow> unat x = unat y"
  by (simp add: word_unat_eq_iff)

lemma unat_u32_plus: "unat (x + y :: u32) = (unat x + unat y) mod 4294967296"
  by (simp add: unat_word_ariths)

lemma unat_u32_add:
  "unat x + unat y < 4294967296 \<Longrightarrow> unat (x + y :: u32) = unat x + unat y"
  by (simp add: unat_u32_plus)

lemma unat_u32_inc [simp]:
  "unat (x :: u32) < 4294967295 \<Longrightarrow> unat (x + 1) = unat x + 1"
  by (simp add: unat_u32_plus)

lemma unat_u32_inc_less: "(i :: u32) < n \<Longrightarrow> unat (i + 1) = Suc (unat i)"
proof -
  assume "i < n"
  then have "Suc (unat i) < 4294967296"
    using unat_u32_lt [of n] by (simp only: u32_less_iff)
  then show ?thesis by (simp add: unat_u32_plus)
qed

lemma unat_u32_sub:
  "unat y \<le> unat x \<Longrightarrow> unat (x - y :: u32) = unat x - unat y"
  by (metis unat_sub word_le_nat_alt)

lemma unat_u32_dec:
  "x \<noteq> 0 \<Longrightarrow> unat (x - 1 :: u32) = unat x - 1"
  using unat_u32_sub [of 1 x] by (simp add: word_unat_eq_iff Suc_le_eq)

lemma unat_minus_1_u32: "unat (- 1 :: u32) = 4294967295"
  by (simp add: unsigned_minus_1_eq_mask mask_eq_exp_minus_1)

lemma unat_u32_div [u32_simps]: "unat (x div y :: u32) = unat x div unat y"
  by (simp add: unat_div)

lemma unat_u32_mod [u32_simps]: "unat (x mod y :: u32) = unat x mod unat y"
  by (simp add: unat_mod)

lemma unat_u32_of_nat: "n < 4294967296 \<Longrightarrow> unat (of_nat n :: u32) = n"
  by (simp add: unat_of_nat take_bit_nat_eq_self)

section \<open>Mixed-radix numbers\<close>

lemma radix_eq_iff:
  assumes "r < k" and "r' < (k :: nat)"
  shows "a * k + r = a' * k + r' \<longleftrightarrow> a = a' \<and> r = r'"
proof
  assume eq: "a * k + r = a' * k + r'"
  have "a = (a * k + r) div k" and "r = (a * k + r) mod k" using assms by simp_all
  with eq assms show "a = a' \<and> r = r'" by simp
qed simp

lemma radix_less_iff:
  assumes "r < k" and "r' < (k :: nat)"
  shows "a * k + r < a' * k + r' \<longleftrightarrow> a < a' \<or> a = a' \<and> r < r'"
proof -
  have *: "b * k + s < c * k + s'" if "b < c" "s < k" for b c s s'
  proof -
    have "b * k + s < Suc b * k" using that by simp
    also have "\<dots> \<le> c * k" using that by (intro mult_le_mono1) simp
    finally show ?thesis by simp
  qed
  show ?thesis using *[of a a' r r'] *[of a' a r' r] assms
    by (cases a a' rule: linorder_cases) auto
qed

text \<open>Days, hours, minutes, seconds and milliseconds as one number of milliseconds.\<close>

definition ms_total :: "nat \<Rightarrow> nat \<Rightarrow> nat \<Rightarrow> nat \<Rightarrow> nat \<Rightarrow> nat" where
  "ms_total d h m s ms = (((d * 24 + h) * 60 + m) * 60 + s) * 1000 + ms"

lemma ms_total_eq_iff:
  assumes "h < 24" "m < 60" "s < 60" "ms < 1000" and "h' < 24" "m' < 60" "s' < 60" "ms' < 1000"
  shows "ms_total d h m s ms = ms_total d' h' m' s' ms' \<longleftrightarrow>
    d = d' \<and> h = h' \<and> m = m' \<and> s = s' \<and> ms = ms'"
  unfolding ms_total_def using assms by (simp only: radix_eq_iff conj_assoc)

lemma ms_total_less_iff:
  assumes "h < 24" "m < 60" "s < 60" "ms < 1000" and "h' < 24" "m' < 60" "s' < 60" "ms' < 1000"
  shows "ms_total d h m s ms < ms_total d' h' m' s' ms' \<longleftrightarrow>
    d < d' \<or> d = d' \<and> (h < h' \<or> h = h' \<and> (m < m' \<or> m = m' \<and> (s < s' \<or> s = s' \<and> ms < ms')))"
  unfolding ms_total_def using assms by (simp only: radix_eq_iff radix_less_iff) blast

lemma ms_total_less:
  assumes "h < 24" "m < 60" "s < 60" "ms < 1000" and "d < n"
  shows "ms_total d h m s ms < n * 86400000"
proof -
  have "ms_total d h m s ms < ms_total n 0 0 0 0" using assms by (simp add: ms_total_less_iff)
  then show ?thesis by (simp add: ms_total_def)
qed

lemma u32_dec_below: "(s :: u32) < c \<Longrightarrow> unat (c - 1) = unat c - 1 \<and> unat (c - 1) < unat c"
  using unat_u32_dec [of c] by (cases "c = 0") (auto simp: u32_less_iff)

section \<open>Lists as arrays\<close>

text \<open>
  \<open>blit src i n dst j\<close> is \<open>dst\<close> with its \<open>n\<close> cells from \<open>j\<close> on replaced by the \<open>n\<close> cells of \<open>src\<close>
  from \<open>i\<close> on: what an element-wise copying loop leaves behind.
\<close>

definition blit :: "'a list \<Rightarrow> nat \<Rightarrow> nat \<Rightarrow> 'a list \<Rightarrow> nat \<Rightarrow> 'a list" where
  "blit src i n dst j = take j dst @ take n (drop i src) @ drop (j + n) dst"

lemma blit_0 [simp]: "blit src i 0 dst j = dst"
  by (simp add: blit_def)

lemma blit_Suc:
  assumes "i < length src" and "j < length dst"
  shows "blit src (Suc i) n (dst[j := src ! i]) (Suc j) = blit src i (Suc n) dst j"
proof -
  have "take (Suc j) (dst[j := src ! i]) = take j dst @ [src ! i]"
    using assms by (simp add: take_Suc_conv_app_nth)
  moreover have "take (Suc n) (drop i src) = src ! i # take n (drop (Suc i) src)"
    using assms by (metis Cons_nth_drop_Suc take_Suc_Cons)
  ultimately show ?thesis by (simp add: blit_def)
qed

lemma length_blit:
  "i + n \<le> length src \<Longrightarrow> j + n \<le> length dst \<Longrightarrow> length (blit src i n dst j) = length dst"
  by (simp add: blit_def)

lemma map_Some_the: "None \<notin> set xs \<Longrightarrow> map Some (map the xs) = xs"
  by (induction xs) auto

lemma take_Suc_update:
  "k < length xs \<Longrightarrow> take (Suc k) (xs[k := x]) = take k xs @ [x]"
  by (simp add: take_Suc_conv_app_nth)

lemma rotate_update:
  assumes "k < length xs"
  shows "rotate h (xs[(h + k) mod length xs := x]) = (rotate h xs)[k := x]"
proof (rule nth_equalityI)
  fix i
  assume "i < length (rotate h (xs[(h + k) mod length xs := x]))"
  then have i: "i < length xs" by simp
  then have m: "(h + k) mod length xs < length xs" by (intro mod_less_divisor) auto
  have "(h + i) mod length xs = (h + k) mod length xs \<longleftrightarrow> i = k"
  proof
    assume "(h + i) mod length xs = (h + k) mod length xs"
    then have "i mod length xs = k mod length xs"
      by (simp add: nat_mod_eq_iff add.assoc)
    then show "i = k" using i assms by simp
  qed simp
  then show "rotate h (xs[(h + k) mod length xs := x]) ! i = (rotate h xs)[k := x] ! i"
    using i assms m by (auto simp: nth_rotate)
qed simp

lemma take_rotate_Suc:
  assumes "0 < c" and "c \<le> length xs"
  shows "take (c - 1) (rotate (Suc h) xs) = tl (take c (rotate h xs))"
proof -
  obtain y ys where ys: "rotate h xs = y # ys"
    using assms by (cases "rotate h xs") (auto simp: rotate_is_Nil_conv)
  then have "length xs = Suc (length ys)" by (metis length_Cons length_rotate)
  with assms ys show ?thesis by (cases c) (auto simp: rotate_Suc)
qed

section \<open>Printing numbers\<close>

text \<open>
  \<open>operator<<\<close> of an unsigned integer, and \<open>std::to_string\<close>: decimal digits without leading zeros.
  \<open>pad n c s\<close> is a field of width \<open>n\<close> filled on the left with \<open>c\<close> (\<open>std::setw\<close>, \<open>std::setfill\<close>).
\<close>

definition digit :: "nat \<Rightarrow> char" where
  "digit n = char_of (48 + n)"

fun show_nat :: "nat \<Rightarrow> string" where
  "show_nat n = (if n < 10 then [digit n] else show_nat (n div 10) @ [digit (n mod 10)])"

declare show_nat.simps [simp del]

definition show_u32 :: "u32 \<Rightarrow> string" where
  "show_u32 w = show_nat (unat w)"

definition show_int :: "int \<Rightarrow> string" where
  "show_int i = (if i < 0 then CHR ''-'' # show_nat (nat (- i)) else show_nat (nat i))"

definition pad :: "nat \<Rightarrow> char \<Rightarrow> string \<Rightarrow> string" where
  "pad n c s = replicate (n - length s) c @ s"

lemma digit_simps [simp]:
  "digit 0 = CHR ''0''" "digit (Suc 0) = CHR ''1''" "digit 2 = CHR ''2''" "digit 3 = CHR ''3''" "digit 4 = CHR ''4''"
  "digit 5 = CHR ''5''" "digit 6 = CHR ''6''" "digit 7 = CHR ''7''" "digit 8 = CHR ''8''" "digit 9 = CHR ''9''"
  by code_simp+

definition is_digit :: "char \<Rightarrow> bool" where
  "is_digit c \<longleftrightarrow> 48 \<le> (of_char c :: nat) \<and> (of_char c :: nat) \<le> 57"

definition digit_val :: "char \<Rightarrow> nat" where
  "digit_val c = of_char c - 48"

definition read_nat :: "string \<Rightarrow> nat" where
  "read_nat s = foldl (\<lambda>a c. a * 10 + digit_val c) 0 s"

lemma digit_is_digit [simp]: "n < 10 \<Longrightarrow> is_digit (digit n)" and digit_val_digit [simp]: "n < 10 \<Longrightarrow> digit_val (digit n) = n"
  by (simp_all add: is_digit_def digit_val_def digit_def)

lemma read_nat_Nil [simp]: "read_nat [] = 0"
  and read_nat_snoc [simp]: "read_nat (s @ [c]) = read_nat s * 10 + digit_val c"
  by (simp_all add: read_nat_def)

lemma read_nat_zeros: "read_nat (replicate k CHR ''0'' @ s) = read_nat s"
  by (induction k) (simp_all add: read_nat_def digit_val_def)

lemma show_nat_simps:
  "n < 10 \<Longrightarrow> show_nat n = [digit n]"
  "\<not> n < 10 \<Longrightarrow> show_nat n = show_nat (n div 10) @ [digit (n mod 10)]"
  by (simp_all add: show_nat.simps [of n])

lemma pad_simps:
  "pad 2 c [x] = [c, x]" "pad 2 c [x, y] = [x, y]"
  "pad 3 c [x] = [c, c, x]" "pad 3 c [x, y] = [c, x, y]" "pad 3 c [x, y, z] = [x, y, z]"
  "pad 6 c [x, y, z, u, v] = [c, x, y, z, u, v]"
  by (simp_all add: pad_def numeral_eq_Suc)

lemma show_nat_digits: "c \<in> set (show_nat n) \<Longrightarrow> is_digit c"
proof (induction n rule: show_nat.induct)
  case (1 n)
  then show ?case by (simp add: show_nat.simps [of n] split: if_splits) auto
qed

lemma show_nat_not_Nil [simp]: "show_nat n \<noteq> []"
  by (simp add: show_nat.simps [of n])

lemma read_show_nat [simp]: "read_nat (show_nat n) = n"
proof (induction n rule: show_nat.induct)
  case (1 n)
  show ?case
  proof (cases "n < 10")
    case True
    then show ?thesis using read_nat_snoc [of "[]" "digit n"] by (simp add: show_nat.simps [of n] del: read_nat_snoc)
  next
    case False
    with 1 show ?thesis by (simp add: show_nat.simps [of n])
  qed
qed

lemma show_nat_inject [simp]: "show_nat m = show_nat n \<longleftrightarrow> m = n"
  by (metis read_show_nat)

lemma length_show_nat: "0 < k \<Longrightarrow> length (show_nat n) \<le> k \<longleftrightarrow> n < 10 ^ k"
proof (induction k arbitrary: n)
  case (Suc k)
  show ?case
  proof (cases "n < 10")
    case True
    then have "n < 10 ^ Suc k" by (rule less_le_trans) simp
    with True show ?thesis by (simp add: show_nat.simps [of n])
  next
    case ge: False
    show ?thesis
    proof (cases "k = 0")
      case False
      with Suc ge show ?thesis by (simp add: show_nat.simps [of n] div_less_iff_less_mult mult.commute)
    qed (use ge in \<open>simp add: show_nat.simps [of n] Suc_le_eq\<close>)
  qed
qed simp

lemma length_pad [simp]: "length (pad n c s) = max n (length s)"
  by (simp add: pad_def max_def)

lemma read_pad [simp]: "read_nat (pad k CHR ''0'' (show_nat n)) = n"
  by (simp add: pad_def read_nat_zeros)

lemma pad_digits: "x \<in> set (pad k CHR ''0'' (show_nat n)) \<Longrightarrow> is_digit x"
  by (auto simp: pad_def is_digit_def dest: show_nat_digits)

lemma digits_split:
  assumes "\<And>c. c \<in> set x \<Longrightarrow> is_digit c" and "\<And>c. c \<in> set y \<Longrightarrow> is_digit c" and "\<not> is_digit d"
  shows "x @ d # r = y @ d # s \<longleftrightarrow> x = y \<and> r = s"
proof
  assume eq: "x @ d # r = y @ d # s"
  have tw: "takeWhile is_digit (z @ d # t) = z" "dropWhile is_digit (z @ d # t) = d # t"
    if "\<And>c. c \<in> set z \<Longrightarrow> is_digit c" for z t
    using that assms(3) by (induction z) auto
  show "x = y \<and> r = s"
    using tw [where z = x and t = r] tw [where z = y and t = s] assms(1,2) eq by simp
qed simp

end
