(* ===== verification/Fifo_Interface.thy ===== *)
theory Fifo_Interface
  imports Prelude
begin

text \<open>
  The interface between the message queues and their users. \<open>ThreadHive\<close> only ever pushes, pops
  and asks for the size of its queue; \<open>fifo\<close> states what it may rely on, for a queue that holds up
  to \<open>cap\<close> messages, and \<open>bounded_fifo\<close> adds that a full queue refuses a message and stays as it
  is. Clients are proved against the interface: a whole sequence of operations behaves on any
  implementation as it does on a plain list.
\<close>

datatype 'a qop = Push 'a | Pop | Size
datatype 'a qout = Pushed bool | Popped "'a option" | Sized u32

fun run_ops ::
  "('a \<Rightarrow> 'q \<Rightarrow> 'e + bool \<times> 'q) \<Rightarrow> ('q \<Rightarrow> 'e + 'a option \<times> 'q) \<Rightarrow> ('q \<Rightarrow> u32) \<Rightarrow>
   'a qop list \<Rightarrow> 'q \<Rightarrow> 'e + 'a qout list \<times> 'q" where
  "run_ops push pop sz [] q = Inr ([], q)"
| "run_ops push pop sz (Push x # ops) q =
     bindE (push x q) (\<lambda>(b, q'). bindE (run_ops push pop sz ops q') (\<lambda>(outs, q''). Inr (Pushed b # outs, q'')))"
| "run_ops push pop sz (Pop # ops) q =
     bindE (pop q) (\<lambda>(r, q'). bindE (run_ops push pop sz ops q') (\<lambda>(outs, q''). Inr (Popped r # outs, q'')))"
| "run_ops push pop sz (Size # ops) q =
     bindE (run_ops push pop sz ops q) (\<lambda>(outs, q''). Inr (Sized (sz q) # outs, q''))"

text \<open>The same operations on a plain list that holds at most \<open>cap\<close> messages.\<close>

fun spec_ops :: "nat \<Rightarrow> 'a qop list \<Rightarrow> 'a list \<Rightarrow> 'a qout list \<times> 'a list" where
  "spec_ops cap [] xs = ([], xs)"
| "spec_ops cap (Push x # ops) xs =
     (let ok = length xs < cap;
          (outs, ys) = spec_ops cap ops (if ok then xs @ [x] else xs)
      in (Pushed ok # outs, ys))"
| "spec_ops cap (Pop # ops) [] =
     (let (outs, ys) = spec_ops cap ops [] in (Popped None # outs, ys))"
| "spec_ops cap (Pop # ops) (x # xs) =
     (let (outs, ys) = spec_ops cap ops xs in (Popped (Some x) # outs, ys))"
| "spec_ops cap (Size # ops) xs =
     (let (outs, ys) = spec_ops cap ops xs in (Sized (of_nat (length xs)) # outs, ys))"

fun pushes :: "'a qop list \<Rightarrow> 'a list" where
  "pushes [] = []"
| "pushes (Push x # ops) = x # pushes ops"
| "pushes (Pop # ops) = pushes ops"
| "pushes (Size # ops) = pushes ops"

fun popped :: "'a qout list \<Rightarrow> 'a list" where
  "popped [] = []"
| "popped (Popped (Some x) # outs) = x # popped outs"
| "popped (out # outs) = popped outs"

lemma spec_ops_fifo:
  assumes "spec_ops cap ops xs = (outs, ys)" and "length xs + length (pushes ops) \<le> cap"
  shows "popped outs @ ys = xs @ pushes ops"
  using assms
proof (induction cap ops xs arbitrary: outs ys rule: spec_ops.induct)
  case (2 cap x ops xs)
  obtain outs' where rec: "spec_ops cap ops (xs @ [x]) = (outs', ys)" and outs: "outs = Pushed True # outs'"
    using "2.prems" by (auto simp: Let_def split: prod.splits)
  have "popped outs' @ ys = (xs @ [x]) @ pushes ops"
    using "2.IH" [OF refl, of outs' ys] rec "2.prems"(2) by simp
  with outs show ?case by simp
qed (fastforce simp: Let_def split: prod.splits)+

locale fifo =
  fixes push :: "'a \<Rightarrow> 'q \<Rightarrow> 'e + bool \<times> 'q"
    and pop :: "'q \<Rightarrow> 'e + 'a option \<times> 'q"
    and sz :: "'q \<Rightarrow> u32"
    and contents :: "'q \<Rightarrow> 'a list"
    and wf :: "'q \<Rightarrow> bool"
    and cap :: nat
  assumes push_ok: "wf q \<Longrightarrow> length (contents q) < cap \<Longrightarrow>
      \<exists>q'. push x q = Inr (True, q') \<and> wf q' \<and> contents q' = contents q @ [x]"
    and pop_empty: "wf q \<Longrightarrow> contents q = [] \<Longrightarrow>
      \<exists>q'. pop q = Inr (None, q') \<and> wf q' \<and> contents q' = []"
    and pop_cons: "wf q \<Longrightarrow> contents q = x # xs \<Longrightarrow>
      \<exists>q'. pop q = Inr (Some x, q') \<and> wf q' \<and> contents q' = xs"
    and sz_eq: "wf q \<Longrightarrow> sz q = of_nat (length (contents q))"
    and contents_le: "wf q \<Longrightarrow> length (contents q) \<le> cap"
begin

lemma run_ops_within:
  assumes "wf q" and "length (contents q) + length (pushes ops) \<le> cap"
  shows "\<exists>q'. run_ops push pop sz ops q = Inr (fst (spec_ops cap ops (contents q)), q')
           \<and> wf q' \<and> contents q' = snd (spec_ops cap ops (contents q))"
  using assms
proof (induction ops arbitrary: q)
  case Nil
  then show ?case by simp
next
  case (Cons op ops)
  show ?case
  proof (cases op)
    case (Push x)
    with Cons.prems have room: "length (contents q) < cap" by simp
    from push_ok [OF Cons.prems(1) room, of x] obtain q1
      where q1: "push x q = Inr (True, q1)" "wf q1" "contents q1 = contents q @ [x]" by blast
    with Cons.IH [of q1] Cons.prems(2) Push
    obtain q2 where "run_ops push pop sz ops q1 = Inr (fst (spec_ops cap ops (contents q1)), q2)"
      "wf q2" "contents q2 = snd (spec_ops cap ops (contents q1))" by auto
    with q1 Push room show ?thesis by (simp add: Let_def split_beta)
  next
    case Pop
    show ?thesis
    proof (cases "contents q")
      case Nil
      from pop_empty [OF Cons.prems(1) Nil] obtain q1
        where q1: "pop q = Inr (None, q1)" "wf q1" "contents q1 = []" by blast
      with Cons.IH [of q1] Cons.prems(2) Pop Nil show ?thesis by (auto simp: Let_def split_beta)
    next
      case (Cons x xs)
      from pop_cons [OF Cons.prems(1) Cons] obtain q1
        where q1: "pop q = Inr (Some x, q1)" "wf q1" "contents q1 = xs" by blast
      with Cons.IH [of q1] Cons.prems(2) Pop Cons show ?thesis by (auto simp: Let_def split_beta)
    qed
  next
    case Size
    with Cons.IH [OF Cons.prems(1)] Cons.prems show ?thesis
      by (auto simp: Let_def split_beta sz_eq)
  qed
qed

text \<open>First in, first out: what was taken out and what is left are what went in, in order.\<close>

lemma run_ops_in_order:
  assumes "wf q" and "length (contents q) + length (pushes ops) \<le> cap"
    and "run_ops push pop sz ops q = Inr (outs, q')"
  shows "popped outs @ contents q' = contents q @ pushes ops"
  using run_ops_within [OF assms(1,2)] spec_ops_fifo [OF _ assms(2)] assms(3)
  by (metis Inr_inject Pair_inject prod.collapse)

lemma pop_decreases:
  assumes "wf q" and "pop q = Inr (Some x, q')"
  shows "contents q = x # contents q' \<and> wf q'"
  using pop_empty [OF assms(1)] pop_cons [OF assms(1)] assms(2)
  by (cases "contents q") fastforce+

end

locale bounded_fifo = fifo +
  assumes push_full: "wf q \<Longrightarrow> length (contents q) = cap \<Longrightarrow>
      push x q = Inr (False, q)"
begin

text \<open>With a refusing queue, any sequence of operations at all follows the bounded list.\<close>

lemma run_ops_refines:
  assumes "wf q"
  shows "\<exists>q'. run_ops push pop sz ops q = Inr (fst (spec_ops cap ops (contents q)), q')
           \<and> wf q' \<and> contents q' = snd (spec_ops cap ops (contents q))"
  using assms
proof (induction ops arbitrary: q)
  case Nil
  then show ?case by simp
next
  case (Cons op ops)
  show ?case
  proof (cases op)
    case (Push x)
    let ?c = "if length (contents q) < cap then contents q @ [x] else contents q"
    obtain q1 where q1: "push x q = Inr (length (contents q) < cap, q1)" "wf q1" "contents q1 = ?c"
      using push_ok [OF Cons.prems] push_full [OF Cons.prems] contents_le [OF Cons.prems] Cons.prems
      by (cases "length (contents q) < cap") auto
    with Cons.IH [of q1] Push show ?thesis by (auto simp: Let_def split_beta)
  next
    case Pop
    show ?thesis
    proof (cases "contents q")
      case Nil
      from pop_empty [OF Cons.prems Nil] Cons.IH Pop Nil show ?thesis
        by (fastforce simp: Let_def split_beta)
    next
      case (Cons x xs)
      from pop_cons [OF Cons.prems Cons] Cons.IH Pop Cons show ?thesis
        by (fastforce simp: Let_def split_beta)
    qed
  next
    case Size
    with Cons.IH [OF Cons.prems] Cons.prems show ?thesis
      by (auto simp: Let_def split_beta sz_eq)
  qed
qed

end

end
