(* ===== verification/Linked_Heap.thy ===== *)
theory Linked_Heap
  imports Prelude
begin

text \<open>
  The heap behind the singly linked lists of \<^verbatim>\<open>ThreadHive.h\<close>: the nodes of the message queue
  \<open>HiveQueue\<close> and the \<open>ThreadHandle\<close> objects of the registry. An address is an index, \<open>new\<close> takes
  the next unused index and \<open>delete\<close> empties the cell, so an access through a null or a dangling
  pointer is an error value. The locale \<open>linked\<close> is what the two node types have in common: a
  \<open>next\<close> pointer that can be read and set; the lemmas on list segments are proved in it once.
\<close>

type_synonym addr = nat
type_synonym 'n heap = "'n option list"

definition node_at :: "'n heap \<Rightarrow> addr \<Rightarrow> 'n option" where
  "node_at m a = (if a < length m then m ! a else None)"

definition alloc :: "'n \<Rightarrow> 'n heap \<Rightarrow> addr \<times> 'n heap" where
  "alloc n m = (length m, m @ [Some n])"

definition deref :: "addr option \<Rightarrow> 'n heap \<Rightarrow> mem_error + 'n" where
  "deref p m = (case p of None \<Rightarrow> Inl NullDeref
                | Some a \<Rightarrow> (case node_at m a of None \<Rightarrow> Inl DanglingDeref | Some n \<Rightarrow> Inr n))"

definition assign :: "addr option \<Rightarrow> ('n \<Rightarrow> 'n) \<Rightarrow> 'n heap \<Rightarrow> mem_error + 'n heap" where
  "assign p f m = bindE (deref p m) (\<lambda>n. Inr (m[the p := Some (f n)]))"

definition delete :: "addr option \<Rightarrow> 'n heap \<Rightarrow> mem_error + 'n heap" where
  "delete p m = (if p = None then Inr m else bindE (deref p m) (\<lambda>_. Inr (m[the p := None])))"

definition live :: "'n heap \<Rightarrow> nat" where
  "live m = length (filter (\<lambda>c. c \<noteq> None) m)"

lemma node_at_update [simp]:
  "node_at (m[a := c]) b = (if a = b \<and> a < length m then c else node_at m b)"
  by (simp add: node_at_def)

lemma node_at_append [simp]:
  "node_at (m @ [c]) b = (if b = length m then c else node_at m b)"
  by (simp add: node_at_def nth_append)

lemma node_at_less: "node_at m a = Some n \<Longrightarrow> a < length m"
  by (simp add: node_at_def split: if_splits)

lemma node_at_length [simp]: "node_at m (length m) = None"
  by (simp add: node_at_def)

lemma deref_None [simp]: "deref None m = Inl NullDeref"
  by (simp add: deref_def)

lemma deref_Some [simp]: "node_at m a = Some n \<Longrightarrow> deref (Some a) m = Inr n"
  by (simp add: deref_def)

lemma deref_Inr_iff: "deref p m = Inr n \<longleftrightarrow> (\<exists>a. p = Some a \<and> node_at m a = Some n)"
  by (auto simp: deref_def split: option.splits)

lemma assign_Some [simp]: "node_at m a = Some n \<Longrightarrow> assign (Some a) f m = Inr (m[a := Some (f n)])"
  by (simp add: assign_def)

lemma delete_Some [simp]: "node_at m a = Some n \<Longrightarrow> delete (Some a) m = Inr (m[a := None])"
  by (simp add: delete_def)

lemma live_simps [simp]: "live [] = 0" "live (Some n # m) = Suc (live m)" "live (None # m) = live m"
  by (simp_all add: live_def)

lemma live_append [simp]: "live (m @ m') = live m + live m'"
  by (simp add: live_def)

lemma live_delete: "node_at m a = Some n \<Longrightarrow> Suc (live (m[a := None])) = live m"
proof (induction m arbitrary: a)
  case (Cons c m)
  then show ?case by (cases a) (auto simp: live_def node_at_def split: if_splits)
qed (simp add: node_at_def)

lemma live_assign: "node_at m a = Some n \<Longrightarrow> live (m[a := Some n']) = live m"
proof (induction m arbitrary: a)
  case (Cons c m)
  then show ?case by (cases a) (auto simp: live_def node_at_def split: if_splits)
qed (simp add: node_at_def)

section \<open>List segments\<close>

text \<open>
  \<open>lseg nx m p as q\<close>: following \<open>nx\<close> from the pointer \<open>p\<close> visits the nodes at the addresses \<open>as\<close> and
  then holds the pointer \<open>q\<close>.
\<close>

fun lseg :: "('n \<Rightarrow> addr option) \<Rightarrow> 'n heap \<Rightarrow> addr option \<Rightarrow> addr list \<Rightarrow> addr option \<Rightarrow> bool" where
  "lseg nx m p [] q = (p = q)"
| "lseg nx m p (a # as) q =
     (p = Some a \<and> (case node_at m a of None \<Rightarrow> False | Some n \<Rightarrow> lseg nx m (nx n) as q))"

definition payload :: "'n heap \<Rightarrow> addr \<Rightarrow> 'n" where
  "payload m a = the (node_at m a)"

lemma lseg_append: "lseg nx m p (as @ bs) q \<longleftrightarrow> (\<exists>r. lseg nx m p as r \<and> lseg nx m r bs q)"
  by (induction as arbitrary: p) (auto split: option.splits)

lemma lseg_frame:
  "\<forall>a\<in>set as. node_at m' a = node_at m a \<Longrightarrow> lseg nx m' p as q = lseg nx m p as q"
  by (induction as arbitrary: p) (auto split: option.splits)

lemma lseg_update [simp]: "a \<notin> set as \<Longrightarrow> lseg nx (m[a := c]) p as q = lseg nx m p as q"
  by (rule lseg_frame) auto

lemma lseg_live: "lseg nx m p as q \<Longrightarrow> a \<in> set as \<Longrightarrow> \<exists>n. node_at m a = Some n"
  by (induction as arbitrary: p) (auto split: option.splits)

lemma lseg_alloc [simp]: "lseg nx m p as q \<Longrightarrow> lseg nx (m @ [c]) p as q"
  by (subst lseg_frame) (auto dest: lseg_live)

lemma lseg_same_next:
  "node_at m a = Some n \<Longrightarrow> nx n' = nx n \<Longrightarrow> lseg nx (m[a := Some n']) p as q = lseg nx m p as q"
proof (induction as arbitrary: p)
  case (Cons b as)
  then show ?case
    using node_at_less [of m a n] by (cases "b = a") (simp_all split: option.splits)
qed simp

lemma lseg_fresh: "lseg nx m p as q \<Longrightarrow> length m \<notin> set as"
  using lseg_live by fastforce

lemma payload_update [simp]:
  "payload (m[a := c]) b = (if a = b \<and> a < length m then the c else payload m b)"
  by (simp add: payload_def)

text \<open>The addresses along a list, at most \<open>k\<close> of them.\<close>

fun walk :: "nat \<Rightarrow> ('n \<Rightarrow> addr option) \<Rightarrow> 'n heap \<Rightarrow> addr option \<Rightarrow> addr list" where
  "walk (Suc k) nx m (Some a) = a # (case node_at m a of None \<Rightarrow> [] | Some n \<Rightarrow> walk k nx m (nx n))"
| "walk k nx m p = []"

lemma walk_lseg: "lseg nx m p as None \<Longrightarrow> length as \<le> k \<Longrightarrow> walk k nx m p = as"
proof (induction as arbitrary: p k)
  case Nil
  then show ?case by (cases k) auto
next
  case (Cons a as)
  then show ?case by (cases k) (auto split: option.splits)
qed

lemma lseg_length:
  assumes "lseg nx m p as q" and "distinct as"
  shows "length as \<le> length m"
proof -
  have "set as \<subseteq> {..<length m}" using lseg_live [OF assms(1)] node_at_less by fastforce
  then have "card (set as) \<le> length m" using card_mono [of "{..<length m}"] by fastforce
  with assms(2) show ?thesis by (simp add: distinct_card)
qed

locale linked =
  fixes nx :: "'n \<Rightarrow> addr option" and set_nx :: "addr option \<Rightarrow> 'n \<Rightarrow> 'n" and core :: "'n \<Rightarrow> 'c"
  assumes nx_set: "nx (set_nx p n) = p"
    and core_set: "core (set_nx p n) = core n"
begin

text \<open>Appending a node: the old last node is made to point to it.\<close>

lemma link_last:
  assumes seg: "lseg nx m p (as @ [t]) None" and "distinct (as @ [t])"
    and b: "node_at m b = Some n" and nb: "nx n = None" and "b \<notin> set (as @ [t])"
  shows "\<exists>nt. node_at m t = Some nt \<and> lseg nx (m[t := Some (set_nx (Some b) nt)]) p (as @ [t, b]) None"
proof -
  obtain r where r: "lseg nx m p as r" "lseg nx m r [t] None" using seg by (auto simp: lseg_append)
  then obtain nt where nt: "r = Some t" "node_at m t = Some nt" by (auto split: option.splits)
  let ?m = "m[t := Some (set_nx (Some b) nt)]"
  have "lseg nx ?m p as (Some t)" using r nt assms(2) by simp
  moreover have "lseg nx ?m (Some t) [t, b] None"
    using nt b nb assms(5) node_at_less [OF nt(2)] by (auto simp: nx_set)
  ultimately have "lseg nx ?m p (as @ [t, b]) None" using lseg_append by blast
  with nt show ?thesis by blast
qed

text \<open>Unlinking a node: its predecessor is made to point past it.\<close>

lemma unlink:
  assumes seg: "lseg nx m p (as @ a # b # bs) q" and "distinct (as @ a # b # bs)"
  shows "\<exists>na nb. node_at m a = Some na \<and> node_at m b = Some nb \<and> nx na = Some b \<and>
    lseg nx (m[a := Some (set_nx (nx nb) na)]) p (as @ a # bs) q"
proof -
  obtain na nb where n: "lseg nx m p as (Some a)" "node_at m a = Some na" "nx na = Some b" "node_at m b = Some nb"
    "lseg nx m (nx nb) bs q"
    using seg by (auto simp: lseg_append split: option.splits)
  let ?m = "m[a := Some (set_nx (nx nb) na)]"
  have "lseg nx ?m p as (Some a)" using n assms(2) by simp
  moreover have "lseg nx ?m (Some a) (a # bs) q"
    using n assms(2) node_at_less [OF n(2)] by (simp add: nx_set)
  ultimately have "lseg nx ?m p (as @ a # bs) q" using lseg_append by blast
  with n show ?thesis by blast
qed

text \<open>Neither changes what the nodes hold.\<close>

lemma core_assign:
  assumes "node_at m a = Some n"
  shows "core (payload (m[a := Some (set_nx p n)]) b) = core (payload m b)"
  using assms by (auto simp: core_set payload_def)

end

end
