(* ===== verification/Hive_Queue.thy ===== *)
theory Hive_Queue
  imports Fifo_Interface Linked_Heap
begin

text \<open>
  \<open>HiveQueue\<close> of \<^verbatim>\<open>OPFL/ThreadHive.h\<close>, the message queue as a singly linked list of heap nodes.
  \<open>hq_wf\<close> says that the list from \<open>head\<close> is a null-terminated segment that ends in \<open>tail\<close> and has
  \<open>count\<close> nodes, which are all the nodes on the heap; \<open>hq_contents\<close> is the messages along it. The queue implements the interface \<open>fifo\<close>
  up to 4294967295 messages.
\<close>

record 'a node =
  nd_msg :: 'a
  nd_next :: "addr option"

record 'a hq =
  hq_count :: u32
  hq_head :: "addr option"
  hq_tail :: "addr option"
  hq_mem :: "'a node heap"

section \<open>The code\<close>

definition hq_new :: "'a hq" where
  "hq_new = \<lparr>hq_count = 0, hq_head = None, hq_tail = None, hq_mem = []\<rparr>"

definition hq_push :: "'a \<Rightarrow> 'a hq \<Rightarrow> mem_error + bool \<times> 'a hq" where
  "hq_push msg q =
     (let (a, mem) = alloc \<lparr>nd_msg = msg, nd_next = None\<rparr> (hq_mem q);
          temp = Some a
      in if hq_head q = None
         then Inr (True, q\<lparr>hq_mem := mem, hq_head := temp, hq_tail := temp, hq_count := 1\<rparr>)
         else bindE (assign (hq_tail q) (\<lambda>n. n\<lparr>nd_next := temp\<rparr>) mem) (\<lambda>mem.
                Inr (True, q\<lparr>hq_mem := mem, hq_tail := temp, hq_count := hq_count q + 1\<rparr>)))"

definition hq_remove :: "'a hq \<Rightarrow> mem_error + bool \<times> 'a hq" where
  "hq_remove q =
     (if hq_head q = None then Inr (False, q)
      else let temp = hq_head q in
        bindE (deref (hq_head q) (hq_mem q)) (\<lambda>n.
        bindE (assign temp (\<lambda>n. n\<lparr>nd_next := None\<rparr>) (hq_mem q)) (\<lambda>mem.
        bindE (delete temp mem) (\<lambda>mem.
          Inr (True, q\<lparr>hq_head := nd_next n,
                       hq_tail := (if nd_next n = None then None else hq_tail q),
                       hq_mem := mem, hq_count := hq_count q - 1\<rparr>)))))"

definition hq_peek :: "'a hq \<Rightarrow> mem_error + 'a option" where
  "hq_peek q =
     (if hq_head q = None then Inr None
      else bindE (deref (hq_head q) (hq_mem q)) (\<lambda>n. Inr (Some (nd_msg n))))"

definition hq_pop :: "'a hq \<Rightarrow> mem_error + 'a option \<times> 'a hq" where
  "hq_pop q =
     bindE (hq_peek q) (\<lambda>r. case r of
       Some msg \<Rightarrow> bindE (hq_remove q) (\<lambda>(ok, q'). Inr (if ok then Some msg else None, q'))
     | None \<Rightarrow> Inr (None, q))"

definition hq_size :: "'a hq \<Rightarrow> u32" where
  "hq_size q = hq_count q"

text \<open>The loop of the destructor, which deletes the nodes one by one.\<close>

function hq_destroy_loop :: "addr option \<Rightarrow> 'a node heap \<Rightarrow> mem_error + 'a node heap" where
  "hq_destroy_loop head mem =
     (if head \<noteq> None
      then let temp = head in
        bindE (deref head mem) (\<lambda>n.
        bindE (assign temp (\<lambda>n. n\<lparr>nd_next := None\<rparr>) mem) (\<lambda>mem.
        bindE (delete temp mem) (\<lambda>mem.
          hq_destroy_loop (nd_next n) mem)))
      else Inr mem)"
  by pat_completeness auto
termination
proof (relation "measure (\<lambda>(head, mem). live mem)", goal_cases)
  case (2 head mem temp n mem1 mem2)
  then obtain a where a: "head = Some a" "node_at mem a = Some n" by (auto simp: deref_Inr_iff)
  then have "mem1 = mem[a := Some (n\<lparr>nd_next := None\<rparr>)]" using 2 by simp
  moreover from this a have "mem2 = mem1[a := None]" using 2 node_at_less [OF a(2)] by simp
  ultimately show ?case using a live_delete [OF a(2)] by simp
qed simp

declare hq_destroy_loop.simps [simp del]

definition hq_destroy :: "'a hq \<Rightarrow> mem_error + 'a hq" where
  "hq_destroy q =
     bindE (hq_destroy_loop (hq_head q) (hq_mem q)) (\<lambda>mem.
       Inr (q\<lparr>hq_tail := None, hq_head := None, hq_mem := mem\<rparr>))"

section \<open>Invariant and contents\<close>

definition hq_nodes :: "'a hq \<Rightarrow> addr list" where
  "hq_nodes q = walk (unat (hq_count q)) nd_next (hq_mem q) (hq_head q)"

definition hq_contents :: "'a hq \<Rightarrow> 'a list" where
  "hq_contents q = map (\<lambda>a. nd_msg (payload (hq_mem q) a)) (hq_nodes q)"

definition hq_rep :: "addr list \<Rightarrow> 'a hq \<Rightarrow> bool" where
  "hq_rep as q \<longleftrightarrow> lseg nd_next (hq_mem q) (hq_head q) as None \<and> distinct as \<and>
     unat (hq_count q) = length as \<and> live (hq_mem q) = length as \<and> hq_tail q = (if as = [] then None else Some (last as))"

definition hq_wf :: "'a hq \<Rightarrow> bool" where
  "hq_wf q \<longleftrightarrow> hq_rep (hq_nodes q) q"

definition hq_cap :: nat where
  "hq_cap = 4294967295"

lemma hq_rep_nodes: "hq_rep as q \<Longrightarrow> hq_nodes q = as"
  by (simp add: hq_rep_def hq_nodes_def walk_lseg)

lemma hq_rep_wf: "hq_rep as q \<Longrightarrow> hq_wf q \<and> hq_contents q = map (\<lambda>a. nd_msg (payload (hq_mem q) a)) as"
  using hq_rep_nodes by (auto simp: hq_wf_def hq_contents_def)

lemma hq_wfE:
  assumes "hq_wf q"
  obtains as where "hq_rep as q" "hq_contents q = map (\<lambda>a. nd_msg (payload (hq_mem q) a)) as"
  using assms by (auto simp: hq_wf_def hq_contents_def)

interpretation nd: linked nd_next "\<lambda>p n. n\<lparr>nd_next := p\<rparr>" nd_msg
  by unfold_locales simp_all

section \<open>The operations on the contents\<close>

lemma hq_new_wf: "hq_wf (hq_new :: 'a hq)" "hq_contents (hq_new :: 'a hq) = []"
proof -
  have "hq_rep [] (hq_new :: 'a hq)" by (simp add: hq_rep_def hq_new_def)
  then show "hq_wf (hq_new :: 'a hq)" "hq_contents (hq_new :: 'a hq) = []" using hq_rep_wf by fastforce+
qed

lemma hq_push_rep:
  assumes rep: "hq_rep as q" and room: "length as < hq_cap"
  shows "\<exists>q'. hq_push x q = Inr (True, q') \<and> hq_rep (as @ [length (hq_mem q)]) q' \<and>
    (\<forall>a. nd_msg (payload (hq_mem q') a) = (if a = length (hq_mem q) then x else nd_msg (payload (hq_mem q) a)))"
proof -
  let ?b = "length (hq_mem q)" and ?n = "\<lparr>nd_msg = x, nd_next = None\<rparr>"
  let ?mem = "hq_mem q @ [Some ?n]"
  from rep have seg: "lseg nd_next ?mem (hq_head q) as None" and fresh: "?b \<notin> set as" and d: "distinct as"
    by (auto simp: hq_rep_def dest: lseg_fresh)
  show ?thesis
  proof (cases as rule: rev_cases)
    case Nil
    let ?q = "q\<lparr>hq_mem := ?mem, hq_head := Some ?b, hq_tail := Some ?b, hq_count := 1\<rparr>"
    have "hq_push x q = Inr (True, ?q)" using rep Nil by (simp add: hq_push_def alloc_def hq_rep_def Let_def)
    then show ?thesis using Nil rep by (auto simp: hq_rep_def payload_def)
  next
    case (snoc bs t)
    obtain nt where nt: "node_at ?mem t = Some nt"
      "lseg nd_next (?mem[t := Some (nt\<lparr>nd_next := Some ?b\<rparr>)]) (hq_head q) (bs @ [t, ?b]) None"
      using nd.link_last [of ?mem "hq_head q" bs t ?b ?n] seg d fresh snoc by auto
    have tail: "hq_tail q = Some t" and head: "hq_head q \<noteq> None"
      using rep snoc by (cases bs; auto simp: hq_rep_def)+
    have "unat (hq_count q + 1) = Suc (unat (hq_count q))"
      using rep room by (simp add: hq_rep_def hq_cap_def unat_u32_plus)
    moreover have "hq_push x q = Inr (True, q\<lparr>hq_mem := ?mem[t := Some (nt\<lparr>nd_next := Some ?b\<rparr>)],
        hq_tail := Some ?b, hq_count := hq_count q + 1\<rparr>)"
      using nt(1) tail head by (auto simp: hq_push_def alloc_def Let_def)
    ultimately show ?thesis
      using nt(2) rep snoc fresh nd.core_assign [OF nt(1), of "Some ?b"] live_assign [OF nt(1)]
      by (auto simp: hq_rep_def payload_def)
  qed
qed

lemma hq_remove_rep:
  assumes rep: "hq_rep (a # as) q"
  shows "\<exists>q'. hq_remove q = Inr (True, q') \<and> hq_rep as q' \<and>
    (\<forall>b\<in>set as. payload (hq_mem q') b = payload (hq_mem q) b)"
proof -
  from rep obtain n where n: "hq_head q = Some a" "node_at (hq_mem q) a = Some n"
    "lseg nd_next (hq_mem q) (nd_next n) as None" and a: "a \<notin> set as" "distinct as"
    by (auto simp: hq_rep_def split: option.splits)
  let ?q = "q\<lparr>hq_head := nd_next n, hq_tail := (if nd_next n = None then None else hq_tail q),
    hq_mem := (hq_mem q)[a := None], hq_count := hq_count q - 1\<rparr>"
  have "hq_remove q = Inr (True, ?q)"
    using n node_at_less [OF n(2)] by (simp add: hq_remove_def)
  moreover have "unat (hq_count q - 1) = length as"
    using rep unat_u32_dec [of "hq_count q"] by (cases "hq_count q = 0") (auto simp: hq_rep_def)
  moreover have "nd_next n = None \<longleftrightarrow> as = []" using n(3) by (cases as) auto
  ultimately show ?thesis
    using n a rep live_delete [OF n(2)] by (auto simp: hq_rep_def)
qed

interpretation hq: fifo hq_push hq_pop hq_size hq_contents hq_wf hq_cap
proof
  fix q :: "'a hq" and x :: 'a and xs
  assume wf: "hq_wf q"
  then obtain as where as: "hq_rep as q" "hq_contents q = map (\<lambda>a. nd_msg (payload (hq_mem q) a)) as"
    by (rule hq_wfE)
  then have len: "length (hq_contents q) = unat (hq_count q)" by (simp add: hq_rep_def)
  show "hq_size q = of_nat (length (hq_contents q))" using len by (simp add: hq_size_def)
  have "unat (hq_count q) < 4294967296" by simp
  then show "length (hq_contents q) \<le> hq_cap" using len unfolding hq_cap_def by linarith
  show "\<exists>q'. hq_push x q = Inr (True, q') \<and> hq_wf q' \<and> hq_contents q' = hq_contents q @ [x]"
    if "length (hq_contents q) < hq_cap"
  proof -
    have "length (hq_mem q) \<notin> set as" using as(1) by (auto simp: hq_rep_def dest: lseg_fresh)
    with hq_push_rep [OF as(1), of x] that as(2) hq_rep_wf show ?thesis by fastforce
  qed
  show "\<exists>q'. hq_pop q = Inr (None, q') \<and> hq_wf q' \<and> hq_contents q' = []" if "hq_contents q = []"
    using that as wf by (simp add: hq_pop_def hq_peek_def hq_rep_def)
  show "\<exists>q'. hq_pop q = Inr (Some x, q') \<and> hq_wf q' \<and> hq_contents q' = xs" if contents: "hq_contents q = x # xs"
  proof -
    obtain a bs where bs: "as = a # bs" using contents as by (cases as) auto
    then have "hq_peek q = Inr (Some x)"
      using as contents by (auto simp: hq_peek_def hq_rep_def payload_def split: option.splits)
    with hq_remove_rep [of a bs q] as bs contents hq_rep_wf show ?thesis
      by (fastforce simp: hq_pop_def)
  qed
qed

lemma hq_destroy_loop_frees:
  "lseg nd_next mem p as None \<Longrightarrow> distinct as \<Longrightarrow>
   \<exists>mem'. hq_destroy_loop p mem = Inr mem' \<and> live mem' + length as = live mem"
proof (induction as arbitrary: p mem)
  case (Cons a as)
  then obtain n where n: "p = Some a" "node_at mem a = Some n" "lseg nd_next mem (nd_next n) as None"
    by (auto split: option.splits)
  let ?mem = "mem[a := None]"
  have "lseg nd_next ?mem (nd_next n) as None" using n Cons.prems by simp
  with Cons obtain mem' where "hq_destroy_loop (nd_next n) ?mem = Inr mem'" "live mem' + length as = live ?mem"
    by fastforce
  with n node_at_less [OF n(2)] live_delete [OF n(2)] show ?case
    by (simp add: hq_destroy_loop.simps [of "Some a"])
qed (simp add: hq_destroy_loop.simps)

section \<open>Properties\<close>

text \<open>
  C35: Any sequence of \<open>push\<close>, \<open>pop\<close> and \<open>size\<close> calls on a new \<open>HiveQueue\<close>, with at most 4294967295 pushes,
  runs without touching a null or deleted node and returns what the same calls return on a plain
  list, which is what the queue holds at the end.
\<close>

theorem hq_refines_list:
  assumes "length (pushes ops) \<le> 4294967295"
  shows "\<exists>q. run_ops hq_push hq_pop hq_size ops hq_new = Inr (fst (spec_ops 4294967295 ops []), q) \<and>
           hq_contents q = snd (spec_ops 4294967295 ops [])"
  using hq.run_ops_within [OF hq_new_wf(1), of ops] assms by (auto simp: hq_new_wf(2) hq_cap_def)

lemma hq_refines_list_witness:
  "\<exists>q. run_ops hq_push hq_pop hq_size [Push ''a'', Push ''b'', Pop, Size, Pop, Pop] hq_new
     = Inr ([Pushed True, Pushed True, Popped (Some ''a''), Sized 1, Popped (Some ''b''), Popped None], q)"
  using hq_refines_list [of "[Push ''a'', Push ''b'', Pop, Size, Pop, Pop]"] by (auto simp: Let_def)

text \<open>
  The destructor of a \<open>HiveQueue\<close>, after any sequence of calls on a new queue (with at most 4294967295
  pushes), deletes every node that is still in the queue exactly once and leaves none behind.
\<close>

lemma hq_destroy_no_leak:
  assumes "length (pushes ops) \<le> 4294967295"
    and "run_ops hq_push hq_pop hq_size ops hq_new = Inr (outs, q)"
  shows "\<exists>q'. hq_destroy q = Inr q' \<and> hq_head q' = None \<and> hq_tail q' = None \<and> live (hq_mem q') = 0"
proof -
  have "hq_wf q"
    using hq.run_ops_within [OF hq_new_wf(1), of ops] assms by (auto simp: hq_new_wf(2) hq_cap_def)
  then obtain as where "hq_rep as q" by (rule hq_wfE)
  with hq_destroy_loop_frees [of "hq_mem q" "hq_head q" as] show ?thesis
    by (auto simp: hq_rep_def hq_destroy_def)
qed

lemma hq_destroy_no_leak_witness:
  "\<exists>q q'. run_ops hq_push hq_pop hq_size [Push ''a'', Push ''b'', Pop] hq_new
      = Inr ([Pushed True, Pushed True, Popped (Some ''a'')], q) \<and>
    hq_destroy q = Inr q' \<and> live (hq_mem q') = 0"
proof -
  let ?ops = "[Push ''a'', Push ''b'', Pop]"
  obtain q where q: "run_ops hq_push hq_pop hq_size ?ops hq_new
      = Inr ([Pushed True, Pushed True, Popped (Some ''a'')], q)"
    using hq.run_ops_within [OF hq_new_wf(1), of ?ops] by (auto simp: hq_new_wf(2) hq_cap_def Let_def)
  with hq_destroy_no_leak [OF _ q] show ?thesis by auto
qed

end
