(* ===== verification/DT_Calendar.thy ===== *)
theory DT_Calendar
  imports Prelude
begin

text \<open>
  The calendar functions of class \<open>DateTime\<close> in \<^verbatim>\<open>DatabaseConnector/DateTime.cpp\<close>: leap years, month
  lengths, day-of-year and its inverse, over 32-bit unsigned arguments, and the calendar they are
  compared with: \<open>leap\<close>, \<open>month_len\<close>, \<open>year_len\<close>, \<open>before_month\<close> and \<open>days_before\<close> on natural numbers.

  A function that throws returns \<open>Inl (InvalidDateTime \<dots>)\<close> with the arguments of the exception; a
  read outside the table \<open>MONTH_LENGTHS\<close>, undefined behaviour in C++, is \<open>Inl TableBounds\<close>.
\<close>

datatype dt_error = InvalidDateTime u32 u32 u32 u32 u32 u32 u32 | TableBounds

text \<open>The text \<open>what()\<close> gives for the exception.\<close>

fun dt_what :: "dt_error \<Rightarrow> string" where
  "dt_what (InvalidDateTime y m d h mi s ms) =
     ''Invalid DateTime: year - '' @ show_u32 y @ '', month - '' @ show_u32 m @ '', day - '' @ show_u32 d @
     '', hour - '' @ show_u32 h @ '', minute - '' @ show_u32 mi @ '', second - '' @ show_u32 s @
     '', millisecond - '' @ show_u32 ms"
| "dt_what TableBounds = []"

section \<open>The code\<close>

definition MONTH_LENGTHS :: "u16 list" where
  "MONTH_LENGTHS = [31, 28, 31, 30, 31, 30, 31, 31, 30, 31, 30, 31]"

definition isLeapYear :: "u32 \<Rightarrow> bool" where
  "isLeapYear year \<longleftrightarrow> (year mod 4 = 0 \<and> year mod 100 \<noteq> 0) \<or> year mod 400 = 0"

definition daysInYear :: "u32 \<Rightarrow> u16" where
  "daysInYear year = (if isLeapYear year then 366 else 365)"

definition daysInMonth :: "u32 \<Rightarrow> u32 \<Rightarrow> dt_error + u16" where
  "daysInMonth year month =
     (if unat (month - 1) < length MONTH_LENGTHS
      then let days_in_month = MONTH_LENGTHS ! unat (month - 1)
           in Inr (if month = 2 \<and> isLeapYear year then days_in_month + 1 else days_in_month)
      else Inl TableBounds)"

definition validDate :: "u32 \<Rightarrow> u32 \<Rightarrow> u32 \<Rightarrow> dt_error + bool" where
  "validDate year month day =
     (if year = 0 \<or> month = 0 \<or> day = 0 then Inr False
      else if month > 12 then Inr False
      else bindE (daysInMonth year month) (\<lambda>days_in_month.
             if day > ucast days_in_month then Inr False else Inr True))"

function dayOfYear_loop :: "u32 \<Rightarrow> u32 \<Rightarrow> u32 \<Rightarrow> u32 \<Rightarrow> dt_error + u32" where
  "dayOfYear_loop year mon month day_of_year =
     (if mon < month
      then bindE (daysInMonth year mon) (\<lambda>num_days.
             dayOfYear_loop year (mon + 1) month (day_of_year + ucast num_days))
      else Inr day_of_year)"
  by pat_completeness auto
termination
  by (relation "measure (\<lambda>(year, mon, month, acc). unat month - unat mon)")
    (auto simp: unat_u32_inc_less u32_less_iff)

definition getDayOfYear :: "u32 \<Rightarrow> u32 \<Rightarrow> u32 \<Rightarrow> dt_error + u16" where
  "getDayOfYear year month day =
     bindE (dayOfYear_loop year 1 month 0) (\<lambda>day_of_year. Inr (ucast (day_of_year + day)))"

function reverse_loop :: "u32 \<Rightarrow> u32 \<Rightarrow> u32 \<Rightarrow> dt_error + u32 \<times> u32" where
  "reverse_loop year month dayOfYear =
     (if month < 12
      then bindE (daysInMonth year month) (\<lambda>num_days.
             if ucast num_days \<ge> dayOfYear then Inr (month, dayOfYear)
             else reverse_loop year (month + 1) (dayOfYear - ucast num_days))
      else Inr (month, dayOfYear))"
  by pat_completeness auto
termination
  by (relation "measure (\<lambda>(year, month, doy). 12 - unat month)")
    (auto simp: unat_u32_inc_less u32_less_iff)

declare dayOfYear_loop.simps [simp del] reverse_loop.simps [simp del]

section \<open>The calendar\<close>

definition leap :: "nat \<Rightarrow> bool" where
  "leap y \<longleftrightarrow> 4 dvd y \<and> \<not> 100 dvd y \<or> 400 dvd y"

definition month_len :: "bool \<Rightarrow> nat \<Rightarrow> nat" where
  "month_len l m = (if m \<in> {4, 6, 9, 11} then 30 else if m = 2 then (if l then 29 else 28) else 31)"

definition year_len :: "nat \<Rightarrow> nat" where
  "year_len y = (if leap y then 366 else 365)"

definition before_month :: "bool \<Rightarrow> nat \<Rightarrow> nat" where
  "before_month l m = (\<Sum>k = 1..<m. month_len l k)"

definition days_before :: "nat \<Rightarrow> nat" where
  "days_before y = (\<Sum>k = 1..<y. year_len k)"

definition valid_date :: "nat \<Rightarrow> nat \<Rightarrow> nat \<Rightarrow> bool" where
  "valid_date y m d \<longleftrightarrow> 1 \<le> y \<and> 1 \<le> m \<and> m \<le> 12 \<and> 1 \<le> d \<and> d \<le> month_len (leap y) m"

lemma month_cases:
  assumes "1 \<le> m" and "m \<le> (12 :: nat)"
  obtains "m = 1" | "m = 2" | "m = 3" | "m = 4" | "m = 5" | "m = 6" | "m = 7" | "m = 8" | "m = 9"
    | "m = 10" | "m = 11" | "m = 12"
  using assms by (auto simp: numeral_eq_Suc le_Suc_eq)

lemma month_len_bounds: "28 \<le> month_len l m" "month_len l m \<le> 31"
  by (simp_all add: month_len_def)

lemma before_month_1 [simp]: "before_month l (Suc 0) = 0"
  by (simp add: before_month_def)

lemma before_month_Suc: "1 \<le> m \<Longrightarrow> before_month l (Suc m) = before_month l m + month_len l m"
  by (simp add: before_month_def)

lemma before_month_mono: "m \<le> m' \<Longrightarrow> before_month l m \<le> before_month l m'"
  by (auto simp: before_month_def intro: sum_mono2)

lemma before_month_13: "before_month l 13 = (if l then 366 else 365)"
  by (simp add: before_month_def month_len_def eval_nat_numeral)

lemma month_day_unique:
  assumes "1 \<le> m" "1 \<le> d" "d \<le> month_len l m" and "1 \<le> m'" "1 \<le> d'" "d' \<le> month_len l m'"
  shows "before_month l m + d < before_month l m' + d' \<longleftrightarrow> m < m' \<or> m = m' \<and> d < d'"
    and "before_month l m + d = before_month l m' + d' \<longleftrightarrow> m = m' \<and> d = d'"
proof -
  have *: "before_month l a + b < before_month l a' + b'"
    if "a < a'" "1 \<le> a" "b \<le> month_len l a" "1 \<le> b'" for a b a' b'
  proof -
    have "before_month l a + b \<le> before_month l (Suc a)" using that by (simp add: before_month_Suc)
    also have "\<dots> \<le> before_month l a'" using that by (intro before_month_mono) simp
    finally show ?thesis using that by simp
  qed
  show "before_month l m + d < before_month l m' + d' \<longleftrightarrow> m < m' \<or> m = m' \<and> d < d'"
    "before_month l m + d = before_month l m' + d' \<longleftrightarrow> m = m' \<and> d = d'"
    using *[of m m' d d'] *[of m' m d' d] assms by (cases m m' rule: linorder_cases; fastforce)+
qed

lemma before_month_day_le:
  assumes "1 \<le> m" "m \<le> 12" "d \<le> month_len (leap y) m"
  shows "before_month (leap y) m + d \<le> year_len y"
proof -
  have "before_month (leap y) m + d \<le> before_month (leap y) (Suc m)"
    using assms by (simp add: before_month_Suc)
  also have "\<dots> \<le> before_month (leap y) 13" using assms by (intro before_month_mono) simp
  finally show ?thesis by (simp add: before_month_13 year_len_def)
qed

lemma days_before_1 [simp]: "days_before (Suc 0) = 0"
  by (simp add: days_before_def)

lemma days_before_Suc: "1 \<le> y \<Longrightarrow> days_before (Suc y) = days_before y + year_len y"
  by (simp add: days_before_def)

lemma days_before_mono: "y \<le> y' \<Longrightarrow> days_before y \<le> days_before y'"
  by (auto simp: days_before_def intro: sum_mono2)

lemma year_len_bounds: "365 \<le> year_len y" "year_len y \<le> 366"
  by (simp_all add: year_len_def)

text \<open>The usual closed form of the number of days before a year.\<close>

lemma days_before_closed:
  "days_before (Suc y) = 365 * y + y div 4 - y div 100 + y div 400"
proof (induction y)
  case (Suc y)
  define p q r where "p = y div 4" and "q = y div 100" and "r = y div 400"
  have q: "q \<le> 365 * y" unfolding q_def by (rule order_trans [OF div_le_dividend]) simp
  have div: "Suc y div 4 = p + (if 4 dvd Suc y then 1 else 0)"
    "Suc y div 100 = q + (if 100 dvd Suc y then 1 else 0)"
    "Suc y div 400 = r + (if 400 dvd Suc y then 1 else 0)"
    by (simp_all add: p_def q_def r_def div_Suc dvd_eq_mod_eq_0)
  have impl: "100 dvd Suc y \<Longrightarrow> 4 dvd Suc y" "400 dvd Suc y \<Longrightarrow> 100 dvd Suc y"
    by (rule dvd_trans [rotated], assumption, simp)+
  have "days_before (Suc (Suc y)) = 365 * y + p - q + r + year_len (Suc y)"
    using Suc by (simp add: days_before_Suc p_def q_def r_def)
  then show ?case
    unfolding div using q impl
    by (cases "400 dvd Suc y"; cases "100 dvd Suc y"; cases "4 dvd Suc y")
      (simp_all add: year_len_def leap_def)
qed simp

section \<open>The code computes the calendar\<close>

lemma u32_mod_eq_0: "unat (k :: u32) \<noteq> 0 \<Longrightarrow> (w :: u32) mod k = 0 \<longleftrightarrow> unat k dvd unat w"
  by (simp add: u32_eq_iff unat_u32_mod dvd_eq_mod_eq_0)

lemma isLeapYear_leap: "isLeapYear y = leap (unat y)"
  by (simp add: isLeapYear_def leap_def u32_mod_eq_0)

lemma unat_daysInYear [simp]: "unat (daysInYear y) = year_len (unat y)"
  "unat (ucast (daysInYear y) :: u32) = year_len (unat y)"
  by (simp_all add: daysInYear_def year_len_def isLeapYear_leap)

lemma unat_ucast_month_len [simp]:
  "unat (ucast (of_nat (month_len l m) :: u16) :: u32) = month_len l m"
  by (simp add: month_len_def)

lemma u32_month_cases:
  assumes "1 \<le> unat m" and "unat (m :: u32) \<le> 12"
  shows "m \<in> {1, 2, 3, 4, 5, 6, 7, 8, 9, 10, 11, 12}"
  by (rule month_cases [OF assms]) (simp_all add: u32_eq_iff)

lemma daysInMonth_eq:
  assumes "1 \<le> unat m" and "unat m \<le> 12"
  shows "daysInMonth y m = Inr (of_nat (month_len (leap (unat y)) (unat m)))"
  using u32_month_cases [OF assms]
  by (auto simp: daysInMonth_def MONTH_LENGTHS_def month_len_def isLeapYear_leap)

lemma daysInMonth_out:
  assumes "unat m = 0 \<or> 12 < unat m"
  shows "daysInMonth y m = Inl TableBounds"
proof (cases "m = 0")
  case True
  then show ?thesis by (simp add: daysInMonth_def MONTH_LENGTHS_def unat_minus_1_u32)
next
  case False
  then have "unat (m - 1) = unat m - 1" by (rule unat_u32_dec)
  with assms False show ?thesis by (simp add: daysInMonth_def MONTH_LENGTHS_def unat_eq_zero)
qed

lemma validDate_eq: "validDate y m d = Inr (valid_date (unat y) (unat m) (unat d))"
proof (cases "y = 0 \<or> m = 0 \<or> d = 0 \<or> 12 < unat m")
  case True
  then show ?thesis by (auto simp: validDate_def valid_date_def u32_less_iff)
next
  case False
  then have "1 \<le> unat y" "1 \<le> unat m" "unat m \<le> 12" "1 \<le> unat d"
    by (auto simp: Suc_le_eq unat_gt_0)
  with False show ?thesis
    by (simp add: validDate_def valid_date_def daysInMonth_eq u32_less_iff not_less)
qed

lemma dayOfYear_loop_eq:
  assumes "1 \<le> unat mon" and "unat mon \<le> unat m" and "unat m \<le> 13"
    and "before_month (leap (unat y)) (unat mon) = unat acc"
  shows "\<exists>r. dayOfYear_loop y mon m acc = Inr r \<and> unat r = before_month (leap (unat y)) (unat m)"
  using assms
proof (induction y mon m acc rule: dayOfYear_loop.induct)
  case (1 y mon m acc)
  let ?l = "leap (unat y)"
  show ?case
  proof (cases "mon < m")
    case True
    then have less: "unat mon < unat m" and inc: "unat (mon + 1) = Suc (unat mon)"
      by (simp_all add: u32_less_iff unat_u32_inc_less)
    let ?n = "of_nat (month_len ?l (unat mon)) :: u16"
    have dim: "daysInMonth y mon = Inr ?n" using less "1.prems" by (intro daysInMonth_eq) simp_all
    have "unat acc + month_len ?l (unat mon) = before_month ?l (Suc (unat mon))"
      using "1.prems"(1,4) by (simp add: before_month_Suc)
    moreover have "before_month ?l (Suc (unat mon)) \<le> 366"
      using before_month_mono [of "Suc (unat mon)" 13 ?l] less "1.prems"(3)
      by (simp add: before_month_13 split: if_splits)
    ultimately have acc: "unat (acc + ucast ?n) = before_month ?l (Suc (unat mon))"
      by (simp add: unat_u32_plus)
    from "1.IH" [OF True dim] obtain r where "dayOfYear_loop y (mon + 1) m (acc + ucast ?n) = Inr r"
        "unat r = before_month ?l (unat m)"
      using acc inc less "1.prems" by auto
    with True dim show ?thesis by (simp add: dayOfYear_loop.simps [of y mon])
  next
    case False
    with "1.prems"(2) have "mon = m" by (simp add: u32_less_iff u32_eq_iff)
    with "1.prems"(4) show ?thesis by (simp add: dayOfYear_loop.simps)
  qed
qed

lemma getDayOfYear_eq:
  assumes "valid_date (unat y) (unat m) (unat d)"
  shows "\<exists>r. getDayOfYear y m d = Inr r \<and>
    unat (ucast r :: u32) = before_month (leap (unat y)) (unat m) + unat d"
proof -
  from assms have m: "1 \<le> unat m" "unat m \<le> 12" by (simp_all add: valid_date_def)
  then obtain r where r: "dayOfYear_loop y 1 m 0 = Inr r" "unat r = before_month (leap (unat y)) (unat m)"
    using dayOfYear_loop_eq [of 1 m y 0] by auto
  have "before_month (leap (unat y)) (unat m) + unat d \<le> 366"
    using before_month_day_le [of "unat m" "unat d" "unat y"] year_len_bounds(2) [of "unat y"] assms
    by (simp add: valid_date_def)
  then have "unat (r + d) = before_month (leap (unat y)) (unat m) + unat d" "unat (r + d) < 65536"
    using r(2) by (simp_all add: unat_u32_plus)
  then have "unat (ucast (ucast (r + d) :: u16) :: u32) = before_month (leap (unat y)) (unat m) + unat d"
    by (simp add: unsigned_ucast_eq unsigned_take_bit_eq take_bit_nat_eq_self)
  with r(1) show ?thesis by (simp add: getDayOfYear_def)
qed

lemma reverse_loop_eq:
  assumes "1 \<le> unat month" and "unat month \<le> 12" and "1 \<le> unat doy"
    and "before_month (leap (unat y)) (unat month) + unat doy \<le> year_len (unat y)"
  shows "\<exists>m d. reverse_loop y month doy = Inr (m, d) \<and>
    1 \<le> unat m \<and> unat m \<le> 12 \<and> 1 \<le> unat d \<and> unat d \<le> month_len (leap (unat y)) (unat m) \<and>
    before_month (leap (unat y)) (unat m) + unat d = before_month (leap (unat y)) (unat month) + unat doy"
  using assms
proof (induction y month doy rule: reverse_loop.induct)
  case (1 y month doy)
  let ?l = "leap (unat y)"
  show ?case
  proof (cases "month < 12")
    case True
    then have less: "unat month < 12" and inc: "unat (month + 1) = Suc (unat month)"
      using unat_u32_inc_less by (simp_all add: u32_less_iff)
    let ?n = "of_nat (month_len ?l (unat month)) :: u16"
    have dim: "daysInMonth y month = Inr ?n" using less "1.prems" by (intro daysInMonth_eq) simp_all
    show ?thesis
    proof (cases "doy \<le> ucast ?n")
      case True
      then have "reverse_loop y month doy = Inr (month, doy)"
        using dim \<open>month < 12\<close> by (simp add: reverse_loop.simps)
      with True "1.prems" show ?thesis by (simp add: u32_le_iff)
    next
      case False
      then have gt: "month_len ?l (unat month) < unat doy" by (simp add: u32_le_iff)
      then have sub: "unat (doy - ucast ?n) = unat doy - month_len ?l (unat month)"
        by (simp add: unat_u32_sub)
      have "before_month ?l (unat (month + 1)) + unat (doy - ucast ?n)
        = before_month ?l (unat month) + unat doy"
        using gt sub inc "1.prems"(1) by (simp add: before_month_Suc)
      with "1.IH" [OF True dim False] gt sub inc less "1.prems" True dim False show ?thesis
        by (simp add: reverse_loop.simps [of y month])
    qed
  next
    case False
    with "1.prems"(2) have m: "month = 12" by (simp add: u32_less_iff u32_eq_iff)
    then have "before_month ?l 12 + month_len ?l 12 = year_len (unat y)"
      using before_month_Suc [of 12 ?l] by (simp add: before_month_13 year_len_def)
    with m "1.prems" show ?thesis by (simp add: reverse_loop.simps)
  qed
qed

end
