(* ===== verification/DT_DateTime.thy ===== *)
theory DT_DateTime
  imports DT_Calendar
begin

text \<open>
  Class \<open>DateTime\<close> of \<^verbatim>\<open>DatabaseConnector/DateTime.cpp\<close>: its members, constructors, setters and
  comparison. A setter returns the changed object or the exception it throws; a constructor is
  \<open>setDateTime\<close> on members that hold no value yet, all of which it overwrites. \<open>dt_valid\<close> is the
  class invariant and \<open>dt_total\<close> the instant an object stands for, in milliseconds since the start
  of year 1.
\<close>

record datetime =
  dt_year :: u32
  dt_month :: u32
  dt_day :: u32
  dt_hour :: u32
  dt_minute :: u32
  dt_second :: u32
  dt_millisecond :: u32

section \<open>Constructors and assignment\<close>

definition DEFAULT_MONTH :: u32 where "DEFAULT_MONTH = 1"
definition DEFAULT_DAY :: u32 where "DEFAULT_DAY = 1"

definition setDateTime ::
  "u32 \<Rightarrow> u32 \<Rightarrow> u32 \<Rightarrow> u32 \<Rightarrow> u32 \<Rightarrow> u32 \<Rightarrow> u32 \<Rightarrow> datetime \<Rightarrow> dt_error + datetime" where
  "setDateTime y m d h mi s ms dt =
     bindE (validDate y m d) (\<lambda>ok.
       if \<not> ok \<or> h \<ge> 24 \<or> mi \<ge> 60 \<or> s \<ge> 60 \<or> ms \<ge> 1000
       then Inl (InvalidDateTime y m d h mi s ms)
       else Inr (dt\<lparr>dt_year := y, dt_month := m, dt_day := d, dt_hour := h, dt_minute := mi,
                    dt_second := s, dt_millisecond := ms\<rparr>))"

definition mkDateTime ::
  "u32 \<Rightarrow> u32 \<Rightarrow> u32 \<Rightarrow> u32 \<Rightarrow> u32 \<Rightarrow> u32 \<Rightarrow> u32 \<Rightarrow> dt_error + datetime" where
  "mkDateTime y m d h mi s ms =
     setDateTime y m d h mi s ms
       \<lparr>dt_year = 0, dt_month = 0, dt_day = 0, dt_hour = 0, dt_minute = 0, dt_second = 0,
        dt_millisecond = 0\<rparr>"

definition mkDateTime_default :: "dt_error + datetime" where
  "mkDateTime_default = mkDateTime 1970 1 1 0 0 0 0"

definition dt_assign :: "datetime \<Rightarrow> datetime \<Rightarrow> dt_error + datetime" where
  "dt_assign rhs dt =
     setDateTime (dt_year rhs) (dt_month rhs) (dt_day rhs) (dt_hour rhs) (dt_minute rhs)
       (dt_second rhs) (dt_millisecond rhs) dt"

definition dt_copy :: "datetime \<Rightarrow> dt_error + datetime" where
  "dt_copy dt =
     mkDateTime (dt_year dt) (dt_month dt) (dt_day dt) (dt_hour dt) (dt_minute dt)
       (dt_second dt) (dt_millisecond dt)"

section \<open>Setters\<close>

definition setDate :: "u32 \<Rightarrow> u32 \<Rightarrow> u32 \<Rightarrow> datetime \<Rightarrow> dt_error + datetime" where
  "setDate y m d dt =
     bindE (validDate y m d) (\<lambda>ok.
       if \<not> ok then Inl (InvalidDateTime y m d (dt_hour dt) (dt_minute dt) (dt_second dt) (dt_millisecond dt))
       else Inr (dt\<lparr>dt_year := y, dt_month := m, dt_day := d\<rparr>))"

definition setTime :: "u32 \<Rightarrow> u32 \<Rightarrow> u32 \<Rightarrow> u32 \<Rightarrow> datetime \<Rightarrow> dt_error + datetime" where
  "setTime h mi s ms dt =
     (if h \<ge> 24 \<or> mi \<ge> 60 \<or> s \<ge> 60 \<or> ms \<ge> 1000
      then Inl (InvalidDateTime (dt_year dt) (dt_month dt) (dt_day dt) h mi s ms)
      else Inr (dt\<lparr>dt_hour := h, dt_minute := mi, dt_second := s, dt_millisecond := ms\<rparr>))"

definition dt_set_year :: "u32 \<Rightarrow> datetime \<Rightarrow> dt_error + datetime" where
  "dt_set_year y dt =
     (if y = 0
      then Inl (InvalidDateTime y (dt_month dt) (dt_day dt) (dt_hour dt) (dt_minute dt) (dt_second dt)
                  (dt_millisecond dt))
      else bindE (validDate y (dt_month dt) (dt_day dt)) (\<lambda>ok.
             Inr (if \<not> ok then dt\<lparr>dt_year := y, dt_month := DEFAULT_MONTH, dt_day := DEFAULT_DAY\<rparr>
                  else dt\<lparr>dt_year := y\<rparr>)))"

definition dt_set_month :: "u32 \<Rightarrow> datetime \<Rightarrow> dt_error + datetime" where
  "dt_set_month m dt =
     (if m = 0 \<or> m > 12
      then Inl (InvalidDateTime (dt_year dt) m (dt_day dt) (dt_hour dt) (dt_minute dt) (dt_second dt)
                  (dt_millisecond dt))
      else bindE (daysInMonth (dt_year dt) m) (\<lambda>days_in_month.
             Inr (if dt_day dt > ucast days_in_month then dt\<lparr>dt_month := m, dt_day := DEFAULT_DAY\<rparr>
                  else dt\<lparr>dt_month := m\<rparr>)))"

definition dt_set_day :: "u32 \<Rightarrow> datetime \<Rightarrow> dt_error + datetime" where
  "dt_set_day d dt =
     bindE (daysInMonth (dt_year dt) (dt_month dt)) (\<lambda>days_in_month.
       if d = 0 \<or> d > ucast days_in_month
       then Inl (InvalidDateTime (dt_year dt) (dt_month dt) d (dt_hour dt) (dt_minute dt) (dt_second dt)
                   (dt_millisecond dt))
       else Inr (dt\<lparr>dt_day := d\<rparr>))"

definition dt_dayOfYear :: "datetime \<Rightarrow> dt_error + u32" where
  "dt_dayOfYear dt =
     bindE (getDayOfYear (dt_year dt) (dt_month dt) (dt_day dt)) (\<lambda>r. Inr (ucast r))"

definition getReverseDayOfYear :: "u32 \<Rightarrow> u32 \<Rightarrow> dt_error + datetime" where
  "getReverseDayOfYear year dayOfYear =
     bindE (reverse_loop year 1 dayOfYear) (\<lambda>(month, day). mkDateTime year month day 0 0 0 0)"

definition dt_set_dayOfYear :: "u32 \<Rightarrow> datetime \<Rightarrow> dt_error + datetime" where
  "dt_set_dayOfYear dayOfYear dt =
     bindE (getReverseDayOfYear (dt_year dt) dayOfYear) (\<lambda>newDate.
     bindE (dt_set_month (dt_month newDate) dt) (\<lambda>dt.
     dt_set_day (dt_day newDate) dt))"

definition dt_set_hour :: "u32 \<Rightarrow> datetime \<Rightarrow> dt_error + datetime" where
  "dt_set_hour h dt =
     (if h \<ge> 24
      then Inl (InvalidDateTime (dt_year dt) (dt_month dt) (dt_day dt) h (dt_minute dt) (dt_second dt)
                  (dt_millisecond dt))
      else Inr (dt\<lparr>dt_hour := h\<rparr>))"

definition dt_set_minute :: "u32 \<Rightarrow> datetime \<Rightarrow> dt_error + datetime" where
  "dt_set_minute mi dt =
     (if mi \<ge> 60
      then Inl (InvalidDateTime (dt_year dt) (dt_month dt) (dt_day dt) (dt_hour dt) mi (dt_second dt)
                  (dt_millisecond dt))
      else Inr (dt\<lparr>dt_minute := mi\<rparr>))"

definition dt_set_second :: "u32 \<Rightarrow> datetime \<Rightarrow> dt_error + datetime" where
  "dt_set_second s dt =
     (if s \<ge> 60
      then Inl (InvalidDateTime (dt_year dt) (dt_month dt) (dt_day dt) (dt_hour dt) (dt_minute dt) s
                  (dt_millisecond dt))
      else Inr (dt\<lparr>dt_second := s\<rparr>))"

definition dt_set_millisecond :: "u32 \<Rightarrow> datetime \<Rightarrow> dt_error + datetime" where
  "dt_set_millisecond ms dt =
     (if ms \<ge> 1000
      then Inl (InvalidDateTime (dt_year dt) (dt_month dt) (dt_day dt) (dt_hour dt) (dt_minute dt)
                  (dt_second dt) ms)
      else Inr (dt\<lparr>dt_millisecond := ms\<rparr>))"

section \<open>Comparison\<close>

definition dt_compare :: "datetime \<Rightarrow> datetime \<Rightarrow> int" where
  "dt_compare dt rhs =
     (if dt_year dt = dt_year rhs then
        if dt_month dt = dt_month rhs then
          if dt_day dt = dt_day rhs then
            if dt_hour dt = dt_hour rhs then
              if dt_minute dt = dt_minute rhs then
                if dt_second dt = dt_second rhs then
                  if dt_millisecond dt = dt_millisecond rhs then 0
                  else if dt_millisecond dt < dt_millisecond rhs then -1 else 1
                else if dt_second dt < dt_second rhs then -1 else 1
              else if dt_minute dt < dt_minute rhs then -1 else 1
            else if dt_hour dt < dt_hour rhs then -1 else 1
          else if dt_day dt < dt_day rhs then -1 else 1
        else if dt_month dt < dt_month rhs then -1 else 1
      else if dt_year dt < dt_year rhs then -1 else 1)"

definition dt_eq :: "datetime \<Rightarrow> datetime \<Rightarrow> bool" where
  "dt_eq dt rhs = (dt_compare dt rhs = 0)"

definition dt_neq :: "datetime \<Rightarrow> datetime \<Rightarrow> bool" where
  "dt_neq dt rhs = (dt_compare dt rhs \<noteq> 0)"

definition dt_less :: "datetime \<Rightarrow> datetime \<Rightarrow> bool" where
  "dt_less dt rhs = (dt_compare dt rhs < 0)"

definition dt_less_eq :: "datetime \<Rightarrow> datetime \<Rightarrow> bool" where
  "dt_less_eq dt rhs = (dt_compare dt rhs \<le> 0)"

definition dt_greater :: "datetime \<Rightarrow> datetime \<Rightarrow> bool" where
  "dt_greater dt rhs = (dt_compare dt rhs > 0)"

definition dt_greater_eq :: "datetime \<Rightarrow> datetime \<Rightarrow> bool" where
  "dt_greater_eq dt rhs = (dt_compare dt rhs \<ge> 0)"

section \<open>Invariant and meaning\<close>

definition dt_date_valid :: "datetime \<Rightarrow> bool" where
  "dt_date_valid dt \<longleftrightarrow> valid_date (unat (dt_year dt)) (unat (dt_month dt)) (unat (dt_day dt))"

definition dt_time_valid :: "datetime \<Rightarrow> bool" where
  "dt_time_valid dt \<longleftrightarrow> unat (dt_hour dt) < 24 \<and> unat (dt_minute dt) < 60 \<and>
     unat (dt_second dt) < 60 \<and> unat (dt_millisecond dt) < 1000"

definition dt_valid :: "datetime \<Rightarrow> bool" where
  "dt_valid dt \<longleftrightarrow> dt_date_valid dt \<and> dt_time_valid dt"

lemmas dt_valid_defs = dt_valid_def dt_date_valid_def dt_time_valid_def

definition dt_doy :: "datetime \<Rightarrow> nat" where
  "dt_doy dt = before_month (leap (unat (dt_year dt))) (unat (dt_month dt)) + unat (dt_day dt)"

definition dt_days :: "datetime \<Rightarrow> nat" where
  "dt_days dt = days_before (unat (dt_year dt)) + dt_doy dt - 1"

definition dt_total :: "datetime \<Rightarrow> nat" where
  "dt_total dt = ms_total (dt_days dt) (unat (dt_hour dt)) (unat (dt_minute dt)) (unat (dt_second dt))
     (unat (dt_millisecond dt))"

lemma u32_le_not_less: "(k :: u32) \<le> w \<longleftrightarrow> \<not> unat w < unat k"
  by (simp add: u32_le_iff not_less)

lemma setDateTime_eq:
  "setDateTime y m d h mi s ms dt =
     (let dt' = dt\<lparr>dt_year := y, dt_month := m, dt_day := d, dt_hour := h, dt_minute := mi,
                    dt_second := s, dt_millisecond := ms\<rparr>
      in if dt_valid dt' then Inr dt' else Inl (InvalidDateTime y m d h mi s ms))"
  by (auto simp: setDateTime_def validDate_eq dt_valid_defs u32_le_not_less)

lemma dt_copy_valid [simp]: "dt_valid dt \<Longrightarrow> dt_copy dt = Inr dt"
  by (simp add: dt_copy_def mkDateTime_def setDateTime_eq dt_valid_defs)

lemma dt_assign_valid [simp]: "dt_valid rhs \<Longrightarrow> dt_assign rhs dt = Inr rhs"
  by (simp add: dt_assign_def setDateTime_eq dt_valid_defs)

lemma dt_date_cong:
  "dt_year a = dt_year b \<Longrightarrow> dt_month a = dt_month b \<Longrightarrow> dt_day a = dt_day b \<Longrightarrow>
   dt_date_valid a = dt_date_valid b \<and> dt_doy a = dt_doy b \<and> dt_days a = dt_days b"
  by (simp add: dt_date_valid_def dt_doy_def dt_days_def)

lemma dt_doy_bounds:
  assumes "dt_date_valid dt"
  shows "1 \<le> dt_doy dt" and "dt_doy dt \<le> year_len (unat (dt_year dt))" and "dt_doy dt \<le> 366"
proof -
  show "dt_doy dt \<le> year_len (unat (dt_year dt))"
    using assms before_month_day_le by (simp add: dt_date_valid_def valid_date_def dt_doy_def)
  then show "dt_doy dt \<le> 366" using year_len_bounds(2) le_trans by blast
qed (use assms in \<open>simp add: dt_date_valid_def valid_date_def dt_doy_def\<close>)

lemma dt_dayOfYear_valid:
  "dt_date_valid dt \<Longrightarrow> \<exists>r. dt_dayOfYear dt = Inr r \<and> unat r = dt_doy dt"
  using getDayOfYear_eq [of "dt_year dt" "dt_month dt" "dt_day dt"]
  by (auto simp: dt_dayOfYear_def dt_date_valid_def dt_doy_def)

definition dt_same_time :: "datetime \<Rightarrow> datetime \<Rightarrow> bool" where
  "dt_same_time a b \<longleftrightarrow> dt_hour a = dt_hour b \<and> dt_minute a = dt_minute b \<and>
     dt_second a = dt_second b \<and> dt_millisecond a = dt_millisecond b"

lemma dt_same_time_valid: "dt_same_time a b \<Longrightarrow> dt_time_valid a = dt_time_valid b"
  by (simp add: dt_same_time_def dt_time_valid_def)

lemma dt_same_time_trans: "dt_same_time a b \<Longrightarrow> dt_same_time b c \<Longrightarrow> dt_same_time a c"
  by (simp add: dt_same_time_def)

section \<open>Days and the position in the calendar\<close>

lemma dt_days_less_iff:
  assumes "dt_date_valid a" and "dt_date_valid b"
  shows "dt_days a < dt_days b \<longleftrightarrow> dt_year a < dt_year b \<or> dt_year a = dt_year b \<and>
    (dt_month a < dt_month b \<or> dt_month a = dt_month b \<and> dt_day a < dt_day b)"
    and "dt_days a = dt_days b \<longleftrightarrow> dt_year a = dt_year b \<and> dt_month a = dt_month b \<and> dt_day a = dt_day b"
proof -
  have *: "dt_days x < dt_days y"
    if "unat (dt_year x) < unat (dt_year y)" "dt_date_valid x" "dt_date_valid y" for x y
  proof -
    have "dt_days x < days_before (Suc (unat (dt_year x)))"
      using dt_doy_bounds [OF that(2)] that(2)
      by (simp add: dt_days_def days_before_Suc dt_date_valid_def valid_date_def)
    also have "\<dots> \<le> days_before (unat (dt_year y))" using that(1) by (intro days_before_mono) simp
    also have "\<dots> \<le> dt_days y" using dt_doy_bounds [OF that(3)] by (simp add: dt_days_def)
    finally show ?thesis .
  qed
  have eq: "dt_days a < dt_days b \<longleftrightarrow> dt_doy a < dt_doy b" "dt_days a = dt_days b \<longleftrightarrow> dt_doy a = dt_doy b"
    if "dt_year a = dt_year b"
    using that dt_doy_bounds(1) [OF assms(1)] dt_doy_bounds(1) [OF assms(2)]
    by (auto simp: dt_days_def)
  have doy: "dt_doy a < dt_doy b \<longleftrightarrow> dt_month a < dt_month b \<or> dt_month a = dt_month b \<and> dt_day a < dt_day b"
    "dt_doy a = dt_doy b \<longleftrightarrow> dt_month a = dt_month b \<and> dt_day a = dt_day b"
    if "dt_year a = dt_year b"
    using assms month_day_unique [of "unat (dt_month a)" "unat (dt_day a)" "leap (unat (dt_year b))"
        "unat (dt_month b)" "unat (dt_day b)"] that
    by (simp_all add: dt_doy_def dt_date_valid_def valid_date_def u32_less_iff u32_eq_iff)
  show "dt_days a < dt_days b \<longleftrightarrow> dt_year a < dt_year b \<or> dt_year a = dt_year b \<and>
    (dt_month a < dt_month b \<or> dt_month a = dt_month b \<and> dt_day a < dt_day b)"
    using *[of a b] *[of b a] assms eq(1) doy(1)
    by (cases "unat (dt_year a)" "unat (dt_year b)" rule: linorder_cases)
      (auto simp: u32_less_iff u32_eq_iff)
  show "dt_days a = dt_days b \<longleftrightarrow> dt_year a = dt_year b \<and> dt_month a = dt_month b \<and> dt_day a = dt_day b"
    using *[of a b] *[of b a] assms eq(2) doy(2)
    by (cases "unat (dt_year a)" "unat (dt_year b)" rule: linorder_cases)
      (auto simp: u32_eq_iff)
qed

lemma dt_total_iff:
  assumes "dt_time_valid a" and "dt_time_valid b"
  shows "dt_total a < dt_total b \<longleftrightarrow> dt_days a < dt_days b \<or> dt_days a = dt_days b \<and>
      (dt_hour a < dt_hour b \<or> dt_hour a = dt_hour b \<and>
      (dt_minute a < dt_minute b \<or> dt_minute a = dt_minute b \<and>
      (dt_second a < dt_second b \<or> dt_second a = dt_second b \<and> dt_millisecond a < dt_millisecond b)))"
    and "dt_total a = dt_total b \<longleftrightarrow> dt_days a = dt_days b \<and> dt_same_time a b"
  using assms
  by (simp_all add: dt_total_def dt_time_valid_def dt_same_time_def ms_total_less_iff ms_total_eq_iff
      u32_less_iff u32_eq_iff)

text \<open>A valid object is determined by the instant it stands for.\<close>

lemma dt_total_inject:
  assumes "dt_valid a" and "dt_valid b" and "dt_total a = dt_total b"
  shows "a = b"
  using assms by (simp add: dt_total_iff dt_days_less_iff dt_valid_def dt_same_time_def)

lemma dt_compare_total:
  assumes "dt_valid a" and "dt_valid b"
  shows "dt_compare a b = sgn (int (dt_total a) - int (dt_total b))"
proof -
  have "sgn (int (dt_total a) - int (dt_total b)) =
    (if dt_total a = dt_total b then 0 else if dt_total a < dt_total b then -1 else 1)"
    by (auto simp: sgn_if)
  also have "\<dots> = dt_compare a b"
    using assms dt_days_less_iff [of a b] dt_total_iff [of a b]
    by (simp add: dt_valid_def dt_compare_def dt_same_time_def)
  finally show ?thesis by simp
qed

section \<open>The setters keep the invariant\<close>

lemma dt_set_year_eq:
  assumes "y \<noteq> 0"
  shows "\<exists>dt'. dt_set_year y dt = Inr dt' \<and> dt_date_valid dt' \<and> dt_year dt' = y \<and> dt_same_time dt' dt"
  using assms
  by (auto simp: dt_set_year_def validDate_eq dt_date_valid_def dt_same_time_def valid_date_def
      DEFAULT_MONTH_def DEFAULT_DAY_def Suc_le_eq unat_gt_0 month_len_def)

lemma dt_set_month_eq:
  assumes "dt_date_valid dt" and "1 \<le> unat m" and "unat m \<le> 12"
  shows "\<exists>dt'. dt_set_month m dt = Inr dt' \<and> dt_date_valid dt' \<and> dt_year dt' = dt_year dt \<and>
    dt_month dt' = m \<and> dt_same_time dt' dt"
proof -
  have "m \<noteq> 0" "\<not> m > 12" using assms by (auto simp: u32_less_iff)
  then show ?thesis
    using assms daysInMonth_eq [OF assms(2,3), of "dt_year dt"] month_len_bounds(1)
    by (auto simp: dt_set_month_def dt_date_valid_def valid_date_def dt_same_time_def DEFAULT_DAY_def
        u32_less_iff intro: order_trans [OF _ month_len_bounds(1)])
qed

lemma dt_set_day_eq:
  assumes "dt_date_valid dt" and "1 \<le> unat d"
    and "unat d \<le> month_len (leap (unat (dt_year dt))) (unat (dt_month dt))"
  shows "dt_set_day d dt = Inr (dt\<lparr>dt_day := d\<rparr>)"
  using assms daysInMonth_eq [of "dt_month dt" "dt_year dt"]
  by (auto simp: dt_set_day_def dt_date_valid_def valid_date_def u32_less_iff)

lemma dt_set_day_cases:
  assumes "dt_date_valid dt" and "dt_set_day d dt = Inr dt'"
  shows "dt' = dt\<lparr>dt_day := d\<rparr> \<and> dt_date_valid dt'"
  using assms daysInMonth_eq [of "dt_month dt" "dt_year dt"]
  by (auto simp: dt_set_day_def dt_date_valid_def valid_date_def u32_less_iff not_less Suc_le_eq unat_gt_0
      split: if_splits)

lemma getReverseDayOfYear_eq:
  assumes "1 \<le> unat y" and "1 \<le> unat doy" and "unat doy \<le> year_len (unat y)"
  shows "\<exists>dt. getReverseDayOfYear y doy = Inr dt \<and> dt_valid dt \<and> dt_year dt = y \<and> dt_doy dt = unat doy"
  using reverse_loop_eq [of 1 doy y] assms
  by (auto simp: getReverseDayOfYear_def mkDateTime_def setDateTime_eq dt_valid_defs valid_date_def dt_doy_def)

lemma dt_set_dayOfYear_eq:
  assumes "dt_date_valid dt" and "1 \<le> unat doy" and "unat doy \<le> year_len (unat (dt_year dt))"
  shows "\<exists>dt'. dt_set_dayOfYear doy dt = Inr dt' \<and> dt_date_valid dt' \<and> dt_year dt' = dt_year dt \<and>
    dt_doy dt' = unat doy \<and> dt_same_time dt' dt"
proof -
  have "1 \<le> unat (dt_year dt)" using assms(1) by (simp add: dt_date_valid_def valid_date_def)
  from getReverseDayOfYear_eq [OF this assms(2,3)] obtain new where new:
    "getReverseDayOfYear (dt_year dt) doy = Inr new" "dt_date_valid new" "dt_year new = dt_year dt"
    "dt_doy new = unat doy" by (auto simp: dt_valid_def)
  then have m: "1 \<le> unat (dt_month new)" "unat (dt_month new) \<le> 12" "1 \<le> unat (dt_day new)"
    "unat (dt_day new) \<le> month_len (leap (unat (dt_year dt))) (unat (dt_month new))"
    by (simp_all add: dt_date_valid_def valid_date_def)
  from dt_set_month_eq [OF assms(1) m(1,2)] obtain dt1 where dt1:
    "dt_set_month (dt_month new) dt = Inr dt1" "dt_date_valid dt1" "dt_year dt1 = dt_year dt"
    "dt_month dt1 = dt_month new" "dt_same_time dt1 dt" by blast
  then have "dt_set_day (dt_day new) dt1 = Inr (dt1\<lparr>dt_day := dt_day new\<rparr>)"
    using m by (intro dt_set_day_eq) simp_all
  with dt1 new m show ?thesis
    by (auto simp: dt_set_dayOfYear_def dt_date_valid_def valid_date_def dt_doy_def dt_same_time_def)
qed

text \<open>Moving to another year and another day of it, as the arithmetic operations do at their end.\<close>

lemma dt_move_eq:
  assumes "y \<noteq> 0" and "1 \<le> unat doy" and "unat doy \<le> year_len (unat y)" and "dt_time_valid dt"
  shows "\<exists>dt'. bindE (dt_set_year y dt) (dt_set_dayOfYear doy) = Inr dt' \<and> dt_valid dt' \<and>
    dt_days dt' = days_before (unat y) + unat doy - 1 \<and> dt_year dt' = y \<and> dt_same_time dt' dt"
proof -
  from dt_set_year_eq [OF assms(1), of dt] obtain dt1 where dt1: "dt_set_year y dt = Inr dt1"
    "dt_date_valid dt1" "dt_year dt1 = y" "dt_same_time dt1 dt" by blast
  from dt_set_dayOfYear_eq [OF dt1(2) assms(2)] assms(3) dt1(3) obtain dt2 where dt2:
    "dt_set_dayOfYear doy dt1 = Inr dt2" "dt_date_valid dt2" "dt_year dt2 = y" "dt_doy dt2 = unat doy"
    "dt_same_time dt2 dt1" by auto
  from dt2(5) dt1(4) have "dt_same_time dt2 dt" by (rule dt_same_time_trans)
  with dt1 dt2 dt_same_time_valid [OF this] assms(4) show ?thesis
    by (simp add: dt_valid_def dt_days_def)
qed

section \<open>Properties\<close>

text \<open>
  C32: On valid objects \<open>compare\<close> is the order of the instants they stand for, and two objects that
  compare as equal are equal in every member; the comparison operators say the same.
\<close>

theorem dt_compare_chronological:
  assumes "dt_valid a" and "dt_valid b"
  shows "dt_compare a b = sgn (int (dt_total a) - int (dt_total b)) \<and>
         (dt_eq a b \<longleftrightarrow> a = b) \<and> (dt_neq a b \<longleftrightarrow> a \<noteq> b) \<and>
         (dt_less a b \<longleftrightarrow> dt_total a < dt_total b) \<and> (dt_less_eq a b \<longleftrightarrow> dt_total a \<le> dt_total b) \<and>
         (dt_greater a b \<longleftrightarrow> dt_total b < dt_total a) \<and> (dt_greater_eq a b \<longleftrightarrow> dt_total b \<le> dt_total a)"
  using dt_compare_total [OF assms] dt_total_inject [OF assms]
  by (auto simp: dt_eq_def dt_neq_def dt_less_def dt_less_eq_def dt_greater_def dt_greater_eq_def
      sgn_if split: if_splits)

definition dt_epoch :: datetime where
  "dt_epoch = \<lparr>dt_year = 1970, dt_month = 1, dt_day = 1, dt_hour = 0, dt_minute = 0, dt_second = 0,
                dt_millisecond = 0\<rparr>"

lemma dt_epoch_valid: "dt_valid dt_epoch" "dt_valid (dt_epoch\<lparr>dt_hour := 23\<rparr>)"
  by (simp_all add: dt_epoch_def dt_valid_defs valid_date_def month_len_def)

lemma dt_compare_chronological_witness:
  "dt_less dt_epoch (dt_epoch\<lparr>dt_hour := 23\<rparr>) \<and>
   dt_total dt_epoch < dt_total (dt_epoch\<lparr>dt_hour := 23\<rparr>)"
proof -
  have "dt_less dt_epoch (dt_epoch\<lparr>dt_hour := 23\<rparr>)"
    by (simp add: dt_less_def dt_compare_def dt_epoch_def)
  with dt_compare_chronological [OF dt_epoch_valid] show ?thesis by blast
qed

text \<open>\<open>dayOfYear(n)\<close> and \<open>dayOfYear()\<close> are inverse: on an object with a valid date, setting the day of
  the year to any number from 1 to the length of the year gives a valid date of that year whose
  \<open>dayOfYear()\<close> is that number, and setting it to the number it already has changes nothing.
\<close>

lemma dt_dayOfYear_roundtrip:
  assumes "dt_valid dt"
  shows "(1 \<le> unat n \<and> unat n \<le> year_len (unat (dt_year dt)) \<longrightarrow>
            (\<exists>dt'. dt_set_dayOfYear n dt = Inr dt' \<and> dt_valid dt' \<and> dt_year dt' = dt_year dt \<and>
                   dt_same_time dt' dt \<and> dt_dayOfYear dt' = Inr n)) \<and>
         bindE (dt_dayOfYear dt) (\<lambda>n. dt_set_dayOfYear n dt) = Inr dt"
proof -
  have date: "dt_date_valid dt" using assms by (simp add: dt_valid_def)
  have set_n: "\<exists>dt'. dt_set_dayOfYear n dt = Inr dt' \<and> dt_valid dt' \<and> dt_year dt' = dt_year dt \<and>
      dt_same_time dt' dt \<and> dt_doy dt' = unat n \<and> dt_dayOfYear dt' = Inr n"
    if n: "1 \<le> unat n" "unat n \<le> year_len (unat (dt_year dt))" for n
  proof -
    obtain dt' where dt': "dt_set_dayOfYear n dt = Inr dt'" "dt_date_valid dt'" "dt_year dt' = dt_year dt"
      "dt_doy dt' = unat n" "dt_same_time dt' dt"
      using dt_set_dayOfYear_eq [OF date n] by blast
    moreover obtain r where "dt_dayOfYear dt' = Inr r" "unat r = dt_doy dt'"
      using dt_dayOfYear_valid [OF dt'(2)] by blast
    ultimately show ?thesis
      using dt_same_time_valid [OF dt'(5)] assms by (simp add: dt_valid_def u32_eq_iff)
  qed
  obtain r where r: "dt_dayOfYear dt = Inr r" "unat r = dt_doy dt" using dt_dayOfYear_valid [OF date] by blast
  with set_n [of r] dt_doy_bounds [OF date] obtain dt' where dt': "dt_set_dayOfYear r dt = Inr dt'" "dt_valid dt'"
    "dt_year dt' = dt_year dt" "dt_same_time dt' dt" "dt_doy dt' = dt_doy dt" by auto
  then have "dt_total dt' = dt_total dt" by (simp add: dt_total_def dt_days_def dt_same_time_def)
  with dt'(2) assms have "dt' = dt" by (rule dt_total_inject)
  with set_n dt'(1) r(1) show ?thesis by auto
qed

lemma dt_dayOfYear_roundtrip_witness:
  "(\<exists>dt'. dt_set_dayOfYear 365 dt_epoch = Inr dt' \<and> dt_valid dt' \<and> dt_dayOfYear dt' = Inr 365) \<and>
   bindE (dt_dayOfYear dt_epoch) (\<lambda>n. dt_set_dayOfYear n dt_epoch) = Inr dt_epoch"
  using dt_dayOfYear_roundtrip [OF dt_epoch_valid(1), of 365] year_len_bounds(1) [of 1970]
  by (auto simp: dt_epoch_def)

text \<open>
  Changing the year or the month never yields an invalid date: a valid month (or year) is always
  accepted, and where the day does not exist in the new month the date falls back to the first
  day (of January, for a year); a month of 0 or above 12, a year of 0 throws.
\<close>

theorem dt_setters_fall_back:
  assumes "dt_valid dt"
  shows "dt_set_month m dt =
           (if 1 \<le> unat m \<and> unat m \<le> 12
            then Inr (if unat (dt_day dt) \<le> month_len (leap (unat (dt_year dt))) (unat m)
                      then dt\<lparr>dt_month := m\<rparr> else dt\<lparr>dt_month := m, dt_day := 1\<rparr>)
            else Inl (InvalidDateTime (dt_year dt) m (dt_day dt) (dt_hour dt) (dt_minute dt) (dt_second dt)
                        (dt_millisecond dt))) \<and>
         dt_set_year y dt =
           (if 1 \<le> unat y
            then Inr (if unat (dt_day dt) \<le> month_len (leap (unat y)) (unat (dt_month dt))
                      then dt\<lparr>dt_year := y\<rparr> else dt\<lparr>dt_year := y, dt_month := 1, dt_day := 1\<rparr>)
            else Inl (InvalidDateTime y (dt_month dt) (dt_day dt) (dt_hour dt) (dt_minute dt) (dt_second dt)
                        (dt_millisecond dt)))"
proof
  show "dt_set_month m dt =
           (if 1 \<le> unat m \<and> unat m \<le> 12
            then Inr (if unat (dt_day dt) \<le> month_len (leap (unat (dt_year dt))) (unat m)
                      then dt\<lparr>dt_month := m\<rparr> else dt\<lparr>dt_month := m, dt_day := 1\<rparr>)
            else Inl (InvalidDateTime (dt_year dt) m (dt_day dt) (dt_hour dt) (dt_minute dt) (dt_second dt)
                        (dt_millisecond dt)))"
    using daysInMonth_eq [of m "dt_year dt"]
    by (auto simp: dt_set_month_def u32_less_iff not_less DEFAULT_DAY_def Suc_le_eq unat_gt_0)
qed (use assms in \<open>auto simp: dt_set_year_def validDate_eq valid_date_def dt_valid_defs DEFAULT_DAY_def
      DEFAULT_MONTH_def Suc_le_eq unat_gt_0\<close>)

lemma dt_setters_fall_back_witness:
  "dt_set_month 2 (dt_epoch\<lparr>dt_day := 31\<rparr>) = Inr (dt_epoch\<lparr>dt_month := 2\<rparr>)"
proof -
  have "dt_valid (dt_epoch\<lparr>dt_day := 31\<rparr>)"
    by (simp add: dt_epoch_def dt_valid_defs valid_date_def month_len_def)
  from dt_setters_fall_back [OF this, of 2] show ?thesis by (simp add: month_len_def dt_epoch_def)
qed

end
