(* ===== verification/DT_Duration.thy ===== *)
theory DT_Duration
  imports Prelude
begin

text \<open>
  Class \<open>DateTimeDuration\<close> of \<^verbatim>\<open>DatabaseConnector/DateTime.cpp\<close>. The setters of hours, minutes,
  seconds and milliseconds carry what does not fit into the next larger unit, one unit per
  iteration of a loop; days wrap around at 32 bits. \<open>du_total\<close> is the length in milliseconds the
  five fields stand for, and the class is shown to normalise any arguments to the same length.
\<close>

record duration =
  du_days :: u32
  du_hours :: u32
  du_minutes :: u32
  du_seconds :: u32
  du_milliseconds :: u32
  du_is_negative :: bool

section \<open>Setters\<close>

definition du_set_isNegative :: "bool \<Rightarrow> duration \<Rightarrow> duration" where
  "du_set_isNegative b x = x\<lparr>du_is_negative := b\<rparr>"

definition du_set_days :: "u32 \<Rightarrow> duration \<Rightarrow> duration" where
  "du_set_days d x = x\<lparr>du_days := d\<rparr>"

function du_set_hours :: "u32 \<Rightarrow> duration \<Rightarrow> duration" where
  "du_set_hours h x =
     (if 24 \<le> h then du_set_hours (h - 24) (du_set_days (du_days x + 1) x)
      else x\<lparr>du_hours := h\<rparr>)"
  by pat_completeness auto
termination
  by (relation "measure (\<lambda>(h, x). unat h)") (auto simp: u32_le_iff unat_u32_sub)

function du_set_minutes :: "u32 \<Rightarrow> duration \<Rightarrow> duration" where
  "du_set_minutes m x =
     (if 60 \<le> m then du_set_minutes (m - 60) (du_set_hours (du_hours x + 1) x)
      else x\<lparr>du_minutes := m\<rparr>)"
  by pat_completeness auto
termination
  by (relation "measure (\<lambda>(m, x). unat m)") (auto simp: u32_le_iff unat_u32_sub)

function du_set_seconds :: "u32 \<Rightarrow> duration \<Rightarrow> duration" where
  "du_set_seconds s x =
     (if 60 \<le> s then du_set_seconds (s - 60) (du_set_minutes (du_minutes x + 1) x)
      else x\<lparr>du_seconds := s\<rparr>)"
  by pat_completeness auto
termination
  by (relation "measure (\<lambda>(s, x). unat s)") (auto simp: u32_le_iff unat_u32_sub)

function du_set_milliseconds :: "u32 \<Rightarrow> duration \<Rightarrow> duration" where
  "du_set_milliseconds ms x =
     (if 1000 \<le> ms then du_set_milliseconds (ms - 1000) (du_set_seconds (du_seconds x + 1) x)
      else x\<lparr>du_milliseconds := ms\<rparr>)"
  by pat_completeness auto
termination
  by (relation "measure (\<lambda>(ms, x). unat ms)") (auto simp: u32_le_iff unat_u32_sub)

declare du_set_hours.simps [simp del] du_set_minutes.simps [simp del]
  du_set_seconds.simps [simp del] du_set_milliseconds.simps [simp del]

definition setDateTimeDuration ::
  "u32 \<Rightarrow> u32 \<Rightarrow> u32 \<Rightarrow> u32 \<Rightarrow> u32 \<Rightarrow> bool \<Rightarrow> duration \<Rightarrow> duration" where
  "setDateTimeDuration d h m s ms neg x =
     du_set_milliseconds ms (du_set_seconds s (du_set_minutes m (du_set_hours h
       (du_set_days d (du_set_isNegative neg x)))))"

text \<open>
  The constructors start from members that hold no value yet; every member is written before it
  is read (\<open>setDateTimeDuration_fresh\<close>), so any start gives the same object.
\<close>

definition mkDuration :: "u32 \<Rightarrow> u32 \<Rightarrow> u32 \<Rightarrow> u32 \<Rightarrow> u32 \<Rightarrow> bool \<Rightarrow> duration" where
  "mkDuration d h m s ms neg =
     setDateTimeDuration d h m s ms neg
       \<lparr>du_days = 0, du_hours = 0, du_minutes = 0, du_seconds = 0, du_milliseconds = 0,
        du_is_negative = False\<rparr>"

definition du_assign :: "duration \<Rightarrow> duration \<Rightarrow> duration" where
  "du_assign rhs x =
     setDateTimeDuration (du_days rhs) (du_hours rhs) (du_minutes rhs) (du_seconds rhs)
       (du_milliseconds rhs) (du_is_negative rhs) x"

definition du_copy :: "duration \<Rightarrow> duration" where
  "du_copy dur =
     mkDuration (du_days dur) (du_hours dur) (du_minutes dur) (du_seconds dur)
       (du_milliseconds dur) (du_is_negative dur)"

section \<open>Comparison and output\<close>

definition du_isZero :: "duration \<Rightarrow> bool" where
  "du_isZero x \<longleftrightarrow> du_days x = 0 \<and> du_hours x = 0 \<and> du_minutes x = 0 \<and> du_seconds x = 0 \<and>
     du_milliseconds x = 0"

definition du_compare :: "duration \<Rightarrow> duration \<Rightarrow> int" where
  "du_compare x rhs =
     (if du_isZero x \<and> du_isZero rhs then 0
      else if du_days x = du_days rhs then
        if du_hours x = du_hours rhs then
          if du_minutes x = du_minutes rhs then
            if du_seconds x = du_seconds rhs then
              if du_milliseconds x = du_milliseconds rhs then 0
              else if du_milliseconds x < du_milliseconds rhs then -1 else 1
            else if du_seconds x < du_seconds rhs then -1 else 1
          else if du_minutes x < du_minutes rhs then -1 else 1
        else if du_hours x < du_hours rhs then -1 else 1
      else if du_days x < du_days rhs then -1 else 1)"

definition du_eq :: "duration \<Rightarrow> duration \<Rightarrow> bool" where
  "du_eq x rhs = (du_compare x rhs = 0)"

definition du_neq :: "duration \<Rightarrow> duration \<Rightarrow> bool" where
  "du_neq x rhs = (du_compare x rhs \<noteq> 0)"

definition du_less :: "duration \<Rightarrow> duration \<Rightarrow> bool" where
  "du_less x rhs = (du_compare x rhs < 0)"

definition du_less_eq :: "duration \<Rightarrow> duration \<Rightarrow> bool" where
  "du_less_eq x rhs = (du_compare x rhs \<le> 0)"

definition du_greater :: "duration \<Rightarrow> duration \<Rightarrow> bool" where
  "du_greater x rhs = (du_compare x rhs > 0)"

definition du_greater_eq :: "duration \<Rightarrow> duration \<Rightarrow> bool" where
  "du_greater_eq x rhs = (du_compare x rhs \<ge> 0)"

definition du_print :: "duration \<Rightarrow> string" where
  "du_print dtd =
     (if du_is_negative dtd then ''negative '' else []) @
     show_u32 (du_days dtd) @ '' days, '' @ show_u32 (du_hours dtd) @ '' hours, '' @
     show_u32 (du_minutes dtd) @ '' minutes, '' @ show_u32 (du_seconds dtd) @ '' seconds, '' @
     show_u32 (du_milliseconds dtd) @ '' milliseconds''"

section \<open>What the setters compute\<close>

definition du_total :: "duration \<Rightarrow> nat" where
  "du_total x = ms_total (unat (du_days x)) (unat (du_hours x)) (unat (du_minutes x))
     (unat (du_seconds x)) (unat (du_milliseconds x))"

lemmas du_total_defs = du_total_def ms_total_def

definition du_normal :: "duration \<Rightarrow> bool" where
  "du_normal x \<longleftrightarrow> unat (du_hours x) < 24 \<and> unat (du_minutes x) < 60 \<and>
     unat (du_seconds x) < 60 \<and> unat (du_milliseconds x) < 1000"

text \<open>
  Days wrap at 32 bits, so lengths are compared modulo \<open>du_wrap\<close> milliseconds. Every setter keeps
  the length the object would have with the new value simply stored in its member.
\<close>

definition du_wrap :: nat where
  "du_wrap = 4294967296 * 86400000"

lemma du_wrap_days: "((n mod 4294967296) * 86400000 + r) mod du_wrap = (n * 86400000 + r) mod du_wrap"
  by (simp add: du_wrap_def mod_mult_mult2 [symmetric] mod_add_left_eq)

lemma nat_mod_cancel:
  assumes "a + c = a' + d" and "b + c = b' + d" and "a' mod k = b' mod (k :: nat)"
  shows "a mod k = b mod k"
proof -
  have "(a + c) mod k = (b + c) mod k" using assms by (metis mod_add_left_eq)
  then show ?thesis by (simp add: nat_mod_eq_iff add.assoc add.left_commute)
qed

lemma du_set_hours_frame [simp]:
  "du_minutes (du_set_hours h x) = du_minutes x" "du_seconds (du_set_hours h x) = du_seconds x"
  "du_milliseconds (du_set_hours h x) = du_milliseconds x"
  "du_is_negative (du_set_hours h x) = du_is_negative x"
  "unat (du_hours (du_set_hours h x)) < 24"
proof (induction h x rule: du_set_hours.induct)
  case (1 h x)
  {
    case 1 show ?case using "1.IH"(1) by (subst du_set_hours.simps) (simp add: du_set_days_def)
  next
    case 2 show ?case using "1.IH"(2) by (subst du_set_hours.simps) (simp add: du_set_days_def)
  next
    case 3 show ?case using "1.IH"(3) by (subst du_set_hours.simps) (simp add: du_set_days_def)
  next
    case 4 show ?case using "1.IH"(4) by (subst du_set_hours.simps) (simp add: du_set_days_def)
  next
    case 5 show ?case using "1.IH"(5) by (subst du_set_hours.simps) (auto simp: u32_le_iff)
  }
qed

lemma u32_split:
  assumes "k \<le> (w :: u32)"
  obtains n where "unat w = unat k + n" and "unat (w - k) = n"
  using assms by (metis le_add_diff_inverse u32_le_iff unat_u32_sub)

lemma du_set_hours_total:
  "du_total (du_set_hours h x) mod du_wrap = du_total (x\<lparr>du_hours := h\<rparr>) mod du_wrap"
proof (induction h x rule: du_set_hours.induct)
  case (1 h x)
  show ?case
  proof (cases "24 \<le> h")
    case True
    then obtain n where n: "unat h = 24 + n" "unat (h - 24) = n" by (auto elim: u32_split)
    have "du_total (x\<lparr>du_days := du_days x + 1, du_hours := h - 24\<rparr>) mod du_wrap
      = du_total (x\<lparr>du_hours := h\<rparr>) mod du_wrap"
      using du_wrap_days [of "unat (du_days x) + 1" "((n * 60 + unat (du_minutes x)) * 60
        + unat (du_seconds x)) * 1000 + unat (du_milliseconds x)"]
      by (simp add: du_total_defs unat_u32_plus n algebra_simps del: unat_u32_inc)
    with 1 True show ?thesis by (simp add: du_set_hours.simps [of h] du_set_days_def)
  qed (simp add: du_set_hours.simps)
qed

lemma du_set_minutes_frame [simp]:
  "du_seconds (du_set_minutes m x) = du_seconds x"
  "du_milliseconds (du_set_minutes m x) = du_milliseconds x"
  "du_is_negative (du_set_minutes m x) = du_is_negative x"
  "unat (du_minutes (du_set_minutes m x)) < 60"
  by (induction m x rule: du_set_minutes.induct; subst du_set_minutes.simps; auto simp: u32_le_iff)+

lemma du_set_minutes_hours:
  "unat (du_hours x) < 24 \<Longrightarrow> unat (du_hours (du_set_minutes m x)) < 24"
  by (induction m x rule: du_set_minutes.induct) (subst du_set_minutes.simps, simp)

lemma du_set_minutes_total:
  "unat (du_hours x) < 24 \<Longrightarrow>
   du_total (du_set_minutes m x) mod du_wrap = du_total (x\<lparr>du_minutes := m\<rparr>) mod du_wrap"
proof (induction m x rule: du_set_minutes.induct)
  case (1 m x)
  show ?case
  proof (cases "60 \<le> m")
    case True
    then obtain n where n: "unat m = 60 + n" "unat (m - 60) = n" by (auto elim: u32_split)
    let ?x = "du_set_hours (du_hours x + 1) x"
    have a: "du_total (?x\<lparr>du_minutes := m - 60\<rparr>) + unat (du_minutes x) * 60000 = du_total ?x + n * 60000"
      by (simp add: du_total_defs n algebra_simps)
    have b: "du_total (x\<lparr>du_minutes := m\<rparr>) + unat (du_minutes x) * 60000
      = du_total (x\<lparr>du_hours := du_hours x + 1\<rparr>) + n * 60000"
      using "1.prems" n by (simp add: du_total_defs)
    have "du_total (?x\<lparr>du_minutes := m - 60\<rparr>) mod du_wrap = du_total (x\<lparr>du_minutes := m\<rparr>) mod du_wrap"
      by (rule nat_mod_cancel [OF a b du_set_hours_total])
    with 1 True show ?thesis by (simp add: du_set_minutes.simps [of m])
  qed (simp add: du_set_minutes.simps)
qed

lemma du_set_seconds_frame [simp]:
  "du_milliseconds (du_set_seconds s x) = du_milliseconds x"
  "du_is_negative (du_set_seconds s x) = du_is_negative x"
  "unat (du_seconds (du_set_seconds s x)) < 60"
  by (induction s x rule: du_set_seconds.induct; subst du_set_seconds.simps; auto simp: u32_le_iff)+

lemma du_set_seconds_hours:
  "unat (du_hours x) < 24 \<Longrightarrow> unat (du_hours (du_set_seconds s x)) < 24"
  by (induction s x rule: du_set_seconds.induct) (subst du_set_seconds.simps, simp add: du_set_minutes_hours)

lemma du_set_seconds_minutes:
  "unat (du_minutes x) < 60 \<Longrightarrow> unat (du_minutes (du_set_seconds s x)) < 60"
  by (induction s x rule: du_set_seconds.induct) (subst du_set_seconds.simps, simp)

lemma du_set_seconds_total:
  "unat (du_hours x) < 24 \<Longrightarrow> unat (du_minutes x) < 60 \<Longrightarrow>
   du_total (du_set_seconds s x) mod du_wrap = du_total (x\<lparr>du_seconds := s\<rparr>) mod du_wrap"
proof (induction s x rule: du_set_seconds.induct)
  case (1 s x)
  show ?case
  proof (cases "60 \<le> s")
    case True
    then obtain n where n: "unat s = 60 + n" "unat (s - 60) = n" by (auto elim: u32_split)
    let ?x = "du_set_minutes (du_minutes x + 1) x"
    have a: "du_total (?x\<lparr>du_seconds := s - 60\<rparr>) + unat (du_seconds x) * 1000 = du_total ?x + n * 1000"
      by (simp add: du_total_defs n algebra_simps)
    have b: "du_total (x\<lparr>du_seconds := s\<rparr>) + unat (du_seconds x) * 1000
      = du_total (x\<lparr>du_minutes := du_minutes x + 1\<rparr>) + n * 1000"
      using "1.prems" n by (simp add: du_total_defs)
    have "du_total (?x\<lparr>du_seconds := s - 60\<rparr>) mod du_wrap = du_total (x\<lparr>du_seconds := s\<rparr>) mod du_wrap"
      by (rule nat_mod_cancel [OF a b du_set_minutes_total [OF "1.prems"(1)]])
    with 1 True show ?thesis by (simp add: du_set_seconds.simps [of s] du_set_minutes_hours)
  qed (simp add: du_set_seconds.simps)
qed

lemma du_set_milliseconds_frame [simp]:
  "du_is_negative (du_set_milliseconds ms x) = du_is_negative x"
  "unat (du_milliseconds (du_set_milliseconds ms x)) < 1000"
  by (induction ms x rule: du_set_milliseconds.induct; subst du_set_milliseconds.simps; auto simp: u32_le_iff)+

lemma du_set_milliseconds_fields:
  assumes "unat (du_hours x) < 24" and "unat (du_minutes x) < 60" and "unat (du_seconds x) < 60"
  shows "unat (du_hours (du_set_milliseconds ms x)) < 24 \<and>
    unat (du_minutes (du_set_milliseconds ms x)) < 60 \<and> unat (du_seconds (du_set_milliseconds ms x)) < 60"
  using assms
  by (induction ms x rule: du_set_milliseconds.induct)
    (subst (1 2 3) du_set_milliseconds.simps, simp add: du_set_seconds_hours du_set_seconds_minutes)

lemma du_set_milliseconds_total:
  "unat (du_hours x) < 24 \<Longrightarrow> unat (du_minutes x) < 60 \<Longrightarrow> unat (du_seconds x) < 60 \<Longrightarrow>
   du_total (du_set_milliseconds ms x) mod du_wrap = du_total (x\<lparr>du_milliseconds := ms\<rparr>) mod du_wrap"
proof (induction ms x rule: du_set_milliseconds.induct)
  case (1 ms x)
  show ?case
  proof (cases "1000 \<le> ms")
    case True
    then obtain n where n: "unat ms = 1000 + n" "unat (ms - 1000) = n" by (auto elim: u32_split)
    let ?x = "du_set_seconds (du_seconds x + 1) x"
    have a: "du_total (?x\<lparr>du_milliseconds := ms - 1000\<rparr>) + unat (du_milliseconds x) = du_total ?x + n"
      by (simp add: du_total_defs n algebra_simps)
    have b: "du_total (x\<lparr>du_milliseconds := ms\<rparr>) + unat (du_milliseconds x)
      = du_total (x\<lparr>du_seconds := du_seconds x + 1\<rparr>) + n"
      using "1.prems" n by (simp add: du_total_defs)
    have "du_total (?x\<lparr>du_milliseconds := ms - 1000\<rparr>) mod du_wrap
      = du_total (x\<lparr>du_milliseconds := ms\<rparr>) mod du_wrap"
      by (rule nat_mod_cancel [OF a b du_set_seconds_total [OF "1.prems"(1,2)]])
    with 1 True show ?thesis
      by (simp add: du_set_milliseconds.simps [of ms] du_set_seconds_hours du_set_seconds_minutes)
  qed (simp add: du_set_milliseconds.simps)
qed

section \<open>The constructor\<close>

lemma setDateTimeDuration_normal: "du_normal (setDateTimeDuration d h m s ms neg x)"
  by (simp add: du_normal_def setDateTimeDuration_def du_set_milliseconds_fields
      du_set_seconds_hours du_set_seconds_minutes du_set_minutes_hours)

lemma setDateTimeDuration_sign [simp]:
  "du_is_negative (setDateTimeDuration d h m s ms neg x) = neg"
  by (simp add: setDateTimeDuration_def du_set_days_def du_set_isNegative_def)

definition du_length :: "u32 \<Rightarrow> u32 \<Rightarrow> u32 \<Rightarrow> u32 \<Rightarrow> u32 \<Rightarrow> nat" where
  "du_length d h m s ms =
     unat d * 86400000 + unat h * 3600000 + unat m * 60000 + unat s * 1000 + unat ms"

lemma setDateTimeDuration_total:
  "du_total (setDateTimeDuration d h m s ms neg x) mod du_wrap = du_length d h m s ms mod du_wrap"
proof -
  let ?x0 = "du_set_days d (du_set_isNegative neg x)"
  let ?x1 = "du_set_hours h ?x0"
  let ?x2 = "du_set_minutes m ?x1"
  let ?x3 = "du_set_seconds s ?x2"
  let ?D = "unat d * 86400000 + unat h * 3600000"
  have x0: "du_minutes ?x0 = du_minutes x" "du_seconds ?x0 = du_seconds x"
    "du_milliseconds ?x0 = du_milliseconds x"
    by (simp_all add: du_set_days_def du_set_isNegative_def)
  have 1: "du_total ?x1 mod du_wrap
    = (?D + unat (du_minutes x) * 60000 + unat (du_seconds x) * 1000 + unat (du_milliseconds x)) mod du_wrap"
    by (simp add: du_set_hours_total) (simp add: du_total_defs du_set_days_def du_set_isNegative_def algebra_simps)
  have 2: "du_total ?x2 mod du_wrap
    = (?D + unat m * 60000 + unat (du_seconds x) * 1000 + unat (du_milliseconds x)) mod du_wrap"
    unfolding du_set_minutes_total [OF du_set_hours_frame(5)]
    by (rule nat_mod_cancel [OF _ _ 1, where c = "unat (du_minutes x) * 60000" and d = "unat m * 60000"])
      (simp_all add: du_total_defs x0)
  have 3: "du_total ?x3 mod du_wrap = (?D + unat m * 60000 + unat s * 1000 + unat (du_milliseconds x)) mod du_wrap"
    unfolding du_set_seconds_total [OF du_set_minutes_hours [OF du_set_hours_frame(5)] du_set_minutes_frame(4)]
    by (rule nat_mod_cancel [OF _ _ 2, where c = "unat (du_seconds x) * 1000" and d = "unat s * 1000"])
      (simp_all add: du_total_defs x0)
  have "du_total (du_set_milliseconds ms ?x3) mod du_wrap
    = (?D + unat m * 60000 + unat s * 1000 + unat ms) mod du_wrap"
    unfolding du_set_milliseconds_total [OF du_set_seconds_hours [OF du_set_minutes_hours [OF du_set_hours_frame(5)]]
        du_set_seconds_minutes [OF du_set_minutes_frame(4)] du_set_seconds_frame(3)]
    by (rule nat_mod_cancel [OF _ _ 3, where c = "unat (du_milliseconds x)" and d = "unat ms"])
      (simp_all add: du_total_defs x0)
  then show ?thesis by (simp add: setDateTimeDuration_def du_length_def)
qed

lemma du_total_less: "du_normal x \<Longrightarrow> du_total x < du_wrap"
  unfolding du_normal_def du_total_def du_wrap_def by (intro ms_total_less) simp_all

lemma du_normal_eqI:
  assumes "du_normal x" and "du_normal y" and "du_is_negative x = du_is_negative y"
    and "du_total x = du_total y"
  shows "x = y"
  using assms by (simp add: du_normal_def du_total_def ms_total_eq_iff u32_eq_iff)

lemma setDateTimeDuration_fresh:
  "setDateTimeDuration d h m s ms neg x = mkDuration d h m s ms neg"
proof (rule du_normal_eqI)
  have "du_total (setDateTimeDuration d h m s ms neg x) mod du_wrap = du_total (mkDuration d h m s ms neg) mod du_wrap"
    by (simp add: mkDuration_def setDateTimeDuration_total)
  then show "du_total (setDateTimeDuration d h m s ms neg x) = du_total (mkDuration d h m s ms neg)"
    by (simp add: du_total_less setDateTimeDuration_normal mkDuration_def)
qed (simp_all add: setDateTimeDuration_normal mkDuration_def)

lemma mkDuration_normal [simp]: "du_normal (mkDuration d h m s ms neg)"
  by (simp add: mkDuration_def setDateTimeDuration_normal)

lemma mkDuration_sign [simp]: "du_is_negative (mkDuration d h m s ms neg) = neg"
  by (simp add: mkDuration_def)

lemma mkDuration_total: "du_total (mkDuration d h m s ms neg) = du_length d h m s ms mod du_wrap"
  using setDateTimeDuration_total du_total_less [OF mkDuration_normal]
  by (metis mkDuration_def mod_less)

lemma du_copy_normal [simp]:
  assumes "du_normal x"
  shows "du_copy x = x"
proof (rule du_normal_eqI)
  have "du_length (du_days x) (du_hours x) (du_minutes x) (du_seconds x) (du_milliseconds x) = du_total x"
    by (simp add: du_length_def du_total_defs)
  then show "du_total (du_copy x) = du_total x"
    using du_total_less [OF assms] by (simp add: du_copy_def mkDuration_total)
qed (use assms in \<open>simp_all add: du_copy_def\<close>)

lemma mkDuration_in_range:
  assumes "unat h < 24" and "unat m < 60" and "unat s < 60" and "unat ms < 1000"
  shows "mkDuration d h m s ms neg = \<lparr>du_days = d, du_hours = h, du_minutes = m, du_seconds = s,
           du_milliseconds = ms, du_is_negative = neg\<rparr>"
  using assms
  by (simp add: mkDuration_def setDateTimeDuration_def du_set_hours.simps du_set_minutes.simps
      du_set_seconds.simps du_set_milliseconds.simps u32_le_iff du_set_days_def du_set_isNegative_def)

section \<open>Properties\<close>

text \<open>
  Whatever its arguments, the constructor gives a normalised duration (hours below 24, minutes
  and seconds below 60, milliseconds below 1000) with the sign asked for and of the length the
  arguments stand for, the days counted modulo 2 to the 32.
\<close>

lemma mkDuration_correct:
  "du_normal (mkDuration d h m s ms neg) \<and> du_is_negative (mkDuration d h m s ms neg) = neg \<and>
   du_total (mkDuration d h m s ms neg) =
     (unat d * 86400000 + unat h * 3600000 + unat m * 60000 + unat s * 1000 + unat ms)
       mod (4294967296 * 86400000)"
  by (simp add: mkDuration_total du_length_def du_wrap_def)

lemma du_compare_total:
  assumes "du_normal x" and "du_normal y"
  shows "du_compare x y = sgn (int (du_total x) - int (du_total y))"
proof -
  have eq: "du_total x = du_total y \<longleftrightarrow> du_days x = du_days y \<and> du_hours x = du_hours y \<and>
      du_minutes x = du_minutes y \<and> du_seconds x = du_seconds y \<and> du_milliseconds x = du_milliseconds y"
    using assms by (simp add: du_normal_def du_total_def ms_total_eq_iff u32_eq_iff)
  have less: "du_total x < du_total y \<longleftrightarrow> du_days x < du_days y \<or> du_days x = du_days y \<and>
      (du_hours x < du_hours y \<or> du_hours x = du_hours y \<and>
      (du_minutes x < du_minutes y \<or> du_minutes x = du_minutes y \<and>
      (du_seconds x < du_seconds y \<or> du_seconds x = du_seconds y \<and> du_milliseconds x < du_milliseconds y)))"
    using assms by (simp add: du_normal_def du_total_def ms_total_less_iff u32_eq_iff u32_less_iff)
  have "sgn (int (du_total x) - int (du_total y)) =
    (if du_total x = du_total y then 0 else if du_total x < du_total y then -1 else 1)"
    by (auto simp: sgn_if)
  also have "\<dots> = du_compare x y"
    unfolding eq less du_compare_def by (auto simp: du_isZero_def)
  finally show ?thesis by simp
qed

text \<open>On normalised durations \<open>compare\<close> orders by length only: the sign of the result is that of the
  difference of the two lengths, and whether a duration is negative does not matter. In
  particular a duration and its negation compare as equal.
\<close>

lemma du_compare_ignores_sign:
  assumes "du_normal x" and "du_normal y"
  shows "du_compare x y = sgn (int (du_total x) - int (du_total y)) \<and>
         du_eq x (x\<lparr>du_is_negative := \<not> du_is_negative x\<rparr>)"
proof -
  have "du_normal (x\<lparr>du_is_negative := \<not> du_is_negative x\<rparr>)" using assms(1) by (simp add: du_normal_def)
  from du_compare_total [OF assms] du_compare_total [OF assms(1) this] show ?thesis
    by (simp add: du_eq_def du_total_defs)
qed

lemma du_compare_ignores_sign_witness:
  "du_eq (mkDuration 1 0 0 0 0 False) ((mkDuration 1 0 0 0 0 False)\<lparr>du_is_negative := True\<rparr>)"
  using du_compare_ignores_sign [OF mkDuration_normal mkDuration_normal,
      of 1 0 0 0 0 False 1 0 0 0 0 False] by simp

end
