(* ===== verification/DT_Arith.thy ===== *)
theory DT_Arith
  imports DT_DateTime DT_Duration
begin

text \<open>
  The arithmetic of class \<open>DateTime\<close>: \<open>addDays\<close>, \<open>subtractDays\<close> and the operations on hours,
  minutes, seconds and milliseconds that carry into the next larger unit, their combinations
  \<open>add\<close> and \<open>subtract\<close>, and the overloads on a \<open>DateTimeDuration\<close>. Each is shown to move the
  instant \<open>dt_total\<close> by exactly the amount asked for, as long as the result lies in the years 1 to
  4294967295 the 32-bit year can hold; \<open>dt_end\<close> is the number of days of these years.
\<close>

section \<open>The code\<close>

function subtractDays_loop :: "u32 \<Rightarrow> u32 \<Rightarrow> u32 \<Rightarrow> u32 \<times> u32" where
  "subtractDays_loop year dayOfYear days =
     (if days > 0
      then if dayOfYear > days then subtractDays_loop year (dayOfYear - days) 0
           else subtractDays_loop (year - 1) (ucast (daysInYear (year - 1))) (days - dayOfYear)
      else (year, dayOfYear))"
  by pat_completeness auto
termination
proof (relation "measure (\<lambda>(year, doy, days). 2 * unat days + (if doy = 0 then 1 else 0))", goal_cases)
  case (2 year doy days)
  then show ?case by (auto simp: u32_less_iff)
next
  case (3 year doy days)
  have "(ucast (daysInYear (year - 1)) :: u32) \<noteq> 0"
    using year_len_bounds(1) [of "unat (year - 1)"] unat_daysInYear(2) [of "year - 1"] by force
  moreover have "unat (days - doy) = unat days - unat doy"
    using 3 by (simp add: unat_u32_sub u32_less_iff)
  ultimately show ?case using 3 by (auto simp: u32_less_iff unat_gt_0)
qed simp

definition subtractDays :: "u32 \<Rightarrow> datetime \<Rightarrow> dt_error + datetime" where
  "subtractDays days dt =
     bindE (dt_copy dt) (\<lambda>tmp. bindE (dt_dayOfYear dt) (\<lambda>doy.
       let (year, dayOfYear) = subtractDays_loop (dt_year dt) doy days
       in bindE (dt_set_year year tmp) (dt_set_dayOfYear dayOfYear)))"

function addDays_loop :: "u32 \<Rightarrow> u32 \<Rightarrow> u32 \<Rightarrow> u32 \<times> u32" where
  "addDays_loop year daysInYr dayOfYear =
     (if dayOfYear > daysInYr
      then addDays_loop (year + 1) (ucast (daysInYear (year + 1))) (dayOfYear - daysInYr)
      else (year, dayOfYear))"
  by pat_completeness auto
termination
proof (relation "measure (\<lambda>(year, diy, doy). unat doy + (if diy = 0 then 1 else 0))", goal_cases)
  case (2 year diy doy)
  have "(ucast (daysInYear (year + 1)) :: u32) \<noteq> 0"
    using year_len_bounds(1) [of "unat (year + 1)"] unat_daysInYear(2) [of "year + 1"] by force
  moreover have "unat (doy - diy) = unat doy - unat diy"
    using 2 by (simp add: unat_u32_sub u32_less_iff)
  moreover have "unat diy < unat doy" using 2 by (simp add: u32_less_iff)
  ultimately show ?case by (cases "unat diy") (auto simp: unat_eq_zero)
qed simp

declare subtractDays_loop.simps [simp del] addDays_loop.simps [simp del]

definition addDays :: "u32 \<Rightarrow> datetime \<Rightarrow> dt_error + datetime" where
  "addDays days dt =
     bindE (dt_copy dt) (\<lambda>tmp. bindE (dt_dayOfYear dt) (\<lambda>doy.
       let (year, dayOfYear) = addDays_loop (dt_year dt) (ucast (daysInYear (dt_year dt))) (doy + days)
       in bindE (dt_set_year year tmp) (dt_set_dayOfYear dayOfYear)))"

definition subtractHours :: "u32 \<Rightarrow> datetime \<Rightarrow> dt_error + datetime" where
  "subtractHours hours dt =
     bindE (dt_copy dt) (\<lambda>tmp.
       let currentH = dt_hour dt;
           subH = hours mod 24;
           (subD, newH) = (if subH > currentH then (hours div 24 + 1, 24 - (subH - currentH))
                           else (hours div 24, currentH - subH))
       in bindE (if subD > 0 then bindE (subtractDays subD tmp) (\<lambda>r. dt_assign r tmp) else Inr tmp)
            (dt_set_hour newH))"

definition addHours :: "u32 \<Rightarrow> datetime \<Rightarrow> dt_error + datetime" where
  "addHours hours dt =
     bindE (dt_copy dt) (\<lambda>tmp.
       let currentH = dt_hour dt;
           addH = hours mod 24;
           (addD, newH) = (if addH + currentH \<ge> 24 then (hours div 24 + 1, (addH + currentH) mod 24)
                           else (hours div 24, addH + currentH))
       in bindE (if addD > 0 then bindE (addDays addD tmp) (\<lambda>r. dt_assign r tmp) else Inr tmp)
            (dt_set_hour newH))"

definition subtractMinutes :: "u32 \<Rightarrow> datetime \<Rightarrow> dt_error + datetime" where
  "subtractMinutes minutes dt =
     bindE (dt_copy dt) (\<lambda>tmp.
       let currentM = dt_minute dt;
           subM = minutes mod 60;
           (subH, newM) = (if subM > currentM then (minutes div 60 + 1, 60 - (subM - currentM))
                           else (minutes div 60, currentM - subM))
       in bindE (if subH > 0 then bindE (subtractHours subH tmp) (\<lambda>r. dt_assign r tmp) else Inr tmp)
            (dt_set_minute newM))"

definition addMinutes :: "u32 \<Rightarrow> datetime \<Rightarrow> dt_error + datetime" where
  "addMinutes minutes dt =
     bindE (dt_copy dt) (\<lambda>tmp.
       let currentM = dt_minute dt;
           addM = minutes mod 60;
           (addH, newM) = (if addM + currentM \<ge> 60 then (minutes div 60 + 1, (addM + currentM) mod 60)
                           else (minutes div 60, addM + currentM))
       in bindE (if addH > 0 then bindE (addHours addH tmp) (\<lambda>r. dt_assign r tmp) else Inr tmp)
            (dt_set_minute newM))"

definition subtractSeconds :: "u32 \<Rightarrow> datetime \<Rightarrow> dt_error + datetime" where
  "subtractSeconds seconds dt =
     bindE (dt_copy dt) (\<lambda>tmp.
       let currentS = dt_second dt;
           subS = seconds mod 60;
           (subM, newS) = (if subS > currentS then (seconds div 60 + 1, 60 - (subS - currentS))
                           else (seconds div 60, currentS - subS))
       in bindE (if subM > 0 then bindE (subtractMinutes subM tmp) (\<lambda>r. dt_assign r tmp) else Inr tmp)
            (dt_set_second newS))"

definition addSeconds :: "u32 \<Rightarrow> datetime \<Rightarrow> dt_error + datetime" where
  "addSeconds seconds dt =
     bindE (dt_copy dt) (\<lambda>tmp.
       let currentS = dt_second dt;
           addS = seconds mod 60;
           (addM, newS) = (if addS + currentS \<ge> 60 then (seconds div 60 + 1, (addS + currentS) mod 60)
                           else (seconds div 60, addS + currentS))
       in bindE (if addM > 0 then bindE (addMinutes addM tmp) (\<lambda>r. dt_assign r tmp) else Inr tmp)
            (dt_set_second newS))"

definition subtractMilliseconds :: "u32 \<Rightarrow> datetime \<Rightarrow> dt_error + datetime" where
  "subtractMilliseconds milliseconds dt =
     bindE (dt_copy dt) (\<lambda>tmp.
       let currentMs = dt_millisecond dt;
           subMs = milliseconds mod 1000;
           (subS, newMs) = (if subMs > currentMs then (milliseconds div 1000 + 1, 1000 - (subMs - currentMs))
                            else (milliseconds div 1000, currentMs - subMs))
       in bindE (if subS > 0 then bindE (subtractSeconds subS tmp) (\<lambda>r. dt_assign r tmp) else Inr tmp)
            (dt_set_millisecond newMs))"

definition addMilliseconds :: "u32 \<Rightarrow> datetime \<Rightarrow> dt_error + datetime" where
  "addMilliseconds milliseconds dt =
     bindE (dt_copy dt) (\<lambda>tmp.
       let currentMs = dt_millisecond dt;
           addMs = milliseconds mod 1000;
           (addS, newMs) = (if addMs + currentMs \<ge> 1000
                            then (milliseconds div 1000 + 1, (addMs + currentMs) mod 1000)
                            else (milliseconds div 1000, addMs + currentMs))
       in bindE (if addS > 0 then bindE (addSeconds addS tmp) (\<lambda>r. dt_assign r tmp) else Inr tmp)
            (dt_set_millisecond newMs))"

definition dt_subtract :: "u32 \<Rightarrow> u32 \<Rightarrow> u32 \<Rightarrow> u32 \<Rightarrow> u32 \<Rightarrow> datetime \<Rightarrow> dt_error + datetime" where
  "dt_subtract days hours minutes seconds milliseconds dt =
     bindE (dt_copy dt) (\<lambda>tmp.
     bindE (bindE (subtractMilliseconds milliseconds tmp) (\<lambda>r. dt_assign r tmp)) (\<lambda>tmp.
     bindE (bindE (subtractSeconds seconds tmp) (\<lambda>r. dt_assign r tmp)) (\<lambda>tmp.
     bindE (bindE (subtractMinutes minutes tmp) (\<lambda>r. dt_assign r tmp)) (\<lambda>tmp.
     bindE (bindE (subtractHours hours tmp) (\<lambda>r. dt_assign r tmp)) (\<lambda>tmp.
     bindE (subtractDays days tmp) (\<lambda>r. dt_assign r tmp))))))"

definition dt_add :: "u32 \<Rightarrow> u32 \<Rightarrow> u32 \<Rightarrow> u32 \<Rightarrow> u32 \<Rightarrow> datetime \<Rightarrow> dt_error + datetime" where
  "dt_add days hours minutes seconds milliseconds dt =
     bindE (dt_copy dt) (\<lambda>tmp.
     bindE (bindE (addMilliseconds milliseconds tmp) (\<lambda>r. dt_assign r tmp)) (\<lambda>tmp.
     bindE (bindE (addSeconds seconds tmp) (\<lambda>r. dt_assign r tmp)) (\<lambda>tmp.
     bindE (bindE (addMinutes minutes tmp) (\<lambda>r. dt_assign r tmp)) (\<lambda>tmp.
     bindE (bindE (addHours hours tmp) (\<lambda>r. dt_assign r tmp)) (\<lambda>tmp.
     bindE (addDays days tmp) (\<lambda>r. dt_assign r tmp))))))"

definition dt_add_duration :: "duration \<Rightarrow> datetime \<Rightarrow> dt_error + datetime" where
  "dt_add_duration dur dt =
     (if du_is_negative dur
      then dt_subtract (du_days dur) (du_hours dur) (du_minutes dur) (du_seconds dur) (du_milliseconds dur) dt
      else dt_add (du_days dur) (du_hours dur) (du_minutes dur) (du_seconds dur) (du_milliseconds dur) dt)"

definition dt_subtract_duration :: "duration \<Rightarrow> datetime \<Rightarrow> dt_error + datetime" where
  "dt_subtract_duration dur dt =
     (let is_negative = \<not> du_is_negative dur
      in dt_add_duration (du_set_isNegative is_negative (du_copy dur)) dt)"

section \<open>Days\<close>

definition dt_end :: nat where
  "dt_end = days_before 4294967296"

lemma dt_end_eq: "dt_end = 1568704592244"
  using days_before_closed [of 4294967295] by (simp add: dt_end_def)

lemma addDays_loop_eq:
  assumes "year \<noteq> 0" and "unat diy = year_len (unat year)" and "1 \<le> unat doy"
    and "days_before (unat year) + unat doy \<le> dt_end"
  shows "\<exists>y d. addDays_loop year diy doy = (y, d) \<and> y \<noteq> 0 \<and> 1 \<le> unat d \<and> unat d \<le> year_len (unat y) \<and>
    days_before (unat y) + unat d = days_before (unat year) + unat doy"
  using assms
proof (induction year diy doy rule: addDays_loop.induct)
  case (1 year diy doy)
  show ?case
  proof (cases "doy > diy")
    case True
    then have gt: "unat diy < unat doy" by (simp add: u32_less_iff)
    have Suc: "days_before (Suc (unat year)) = days_before (unat year) + unat diy"
      using "1.prems"(1,2) by (simp add: days_before_Suc Suc_le_eq unat_gt_0)
    have "\<not> 4294967296 \<le> Suc (unat year)"
      using days_before_mono [of 4294967296 "Suc (unat year)"] Suc gt "1.prems"(4) by (auto simp: dt_end_def)
    then have inc: "unat (year + 1) = Suc (unat year)" by (simp add: unat_u32_plus)
    have sub: "unat (doy - diy) = unat doy - unat diy" using gt by (simp add: unat_u32_sub)
    from inc have "year + 1 \<noteq> 0" by auto
    with "1.IH" [OF True] inc sub gt Suc "1.prems"(4) show ?thesis
      using True by (simp add: addDays_loop.simps [of year diy doy])
  next
    case False
    with "1.prems" show ?thesis by (simp add: addDays_loop.simps u32_less_iff)
  qed
qed

lemma dt_days_Suc:
  "dt_date_valid dt \<Longrightarrow> days_before (unat (dt_year dt)) + dt_doy dt = Suc (dt_days dt)"
  using dt_doy_bounds(1) [of dt] by (simp add: dt_days_def)

lemma addDays_eq:
  assumes valid: "dt_valid dt" and "unat n < 4294966930" and "dt_days dt + unat n < dt_end"
  shows "\<exists>dt'. addDays n dt = Inr dt' \<and> dt_valid dt' \<and> dt_days dt' = dt_days dt + unat n \<and> dt_same_time dt' dt"
proof -
  from valid have date: "dt_date_valid dt" and time: "dt_time_valid dt" by (simp_all add: dt_valid_def)
  note doy = dt_doy_bounds [OF date]
  obtain r where r: "dt_dayOfYear dt = Inr r" "unat r = dt_doy dt" using dt_dayOfYear_valid [OF date] by blast
  have sum: "unat (r + n) = dt_doy dt + unat n" using r(2) doy assms(2) by (simp add: unat_u32_plus)
  have "dt_year dt \<noteq> 0" using date by (auto simp: dt_date_valid_def valid_date_def)
  from addDays_loop_eq [OF this, of "ucast (daysInYear (dt_year dt))" "r + n"] sum doy assms(3) dt_days_Suc [OF date]
  obtain y d where loop: "addDays_loop (dt_year dt) (ucast (daysInYear (dt_year dt))) (r + n) = (y, d)"
    "y \<noteq> 0" "1 \<le> unat d" "unat d \<le> year_len (unat y)"
    "days_before (unat y) + unat d = days_before (unat (dt_year dt)) + (dt_doy dt + unat n)"
    by (auto simp del: One_nat_def)
  from dt_move_eq [OF loop(2-4) time] loop(5) dt_days_Suc [OF date] show ?thesis
    using r(1) loop(1) valid by (auto simp: addDays_def)
qed

lemma subtractDays_loop_eq:
  assumes "year \<noteq> 0" and "1 \<le> unat doy" and "unat doy \<le> year_len (unat year)"
    and "unat n < days_before (unat year) + unat doy"
  shows "\<exists>y d. subtractDays_loop year doy n = (y, d) \<and> y \<noteq> 0 \<and> 1 \<le> unat d \<and> unat d \<le> year_len (unat y) \<and>
    days_before (unat y) + unat d + unat n = days_before (unat year) + unat doy"
  using assms
proof (induction year doy n rule: subtractDays_loop.induct)
  case (1 year doy n)
  show ?case
  proof (cases "n > 0")
    case pos: True
    show ?thesis
    proof (cases "doy > n")
      case True
      then have "unat (doy - n) = unat doy - unat n" by (simp add: unat_u32_sub u32_less_iff)
      moreover have "subtractDays_loop year doy n = (year, doy - n)"
        using True pos by (simp add: subtractDays_loop.simps)
      ultimately show ?thesis using "1.prems" True by (auto simp: u32_less_iff)
    next
      case False
      then have le: "unat doy \<le> unat n" by (simp add: u32_less_iff)
      then have "unat year \<noteq> 1" using "1.prems"(4) by auto
      moreover have "unat year \<noteq> 0" using "1.prems"(1) by (simp add: unat_eq_zero)
      ultimately obtain k where k: "unat year = Suc k" "1 \<le> k" by (cases "unat year") auto
      have dec: "unat (year - 1) = k" using unat_u32_dec [OF "1.prems"(1)] k by simp
      then have "year - 1 \<noteq> 0" using k by auto
      moreover have sub: "unat (n - doy) = unat n - unat doy" using le by (simp add: unat_u32_sub)
      moreover have "days_before (Suc k) = days_before k + year_len k" using k by (simp add: days_before_Suc)
      moreover from this have "unat (n - doy) < days_before k + year_len k"
        using le "1.prems"(4) sub by (simp add: k(1))
      ultimately obtain y d where "subtractDays_loop (year - 1) (ucast (daysInYear (year - 1))) (n - doy) = (y, d)"
        "y \<noteq> 0" "1 \<le> unat d" "unat d \<le> year_len (unat y)"
        "days_before (unat y) + unat d + (unat n - unat doy) = days_before k + year_len k"
        using "1.IH"(2) [OF pos False] dec year_len_bounds(1) [of k] by auto
      with le k show ?thesis
        using pos False by (auto simp: subtractDays_loop.simps [of year doy n] days_before_Suc)
    qed
  next
    case False
    then have "n = 0" by (simp add: word_gt_0)
    with "1.prems" show ?thesis by (simp add: subtractDays_loop.simps)
  qed
qed

lemma subtractDays_eq:
  assumes valid: "dt_valid dt" and "unat n \<le> dt_days dt"
  shows "\<exists>dt'. subtractDays n dt = Inr dt' \<and> dt_valid dt' \<and> dt_days dt' + unat n = dt_days dt \<and> dt_same_time dt' dt"
proof -
  from valid have date: "dt_date_valid dt" and time: "dt_time_valid dt" by (simp_all add: dt_valid_def)
  note doy = dt_doy_bounds [OF date]
  obtain r where r: "dt_dayOfYear dt = Inr r" "unat r = dt_doy dt" using dt_dayOfYear_valid [OF date] by blast
  have "dt_year dt \<noteq> 0" using date by (auto simp: dt_date_valid_def valid_date_def)
  from subtractDays_loop_eq [OF this, of r n] r(2) doy assms(2) dt_days_Suc [OF date]
  obtain y d where loop: "subtractDays_loop (dt_year dt) r n = (y, d)"
    "y \<noteq> 0" "1 \<le> unat d" "unat d \<le> year_len (unat y)"
    "days_before (unat y) + unat d + unat n = days_before (unat (dt_year dt)) + dt_doy dt"
    by (auto simp del: One_nat_def)
  from dt_move_eq [OF loop(2-4) time] loop(3,5) dt_days_Suc [OF date] show ?thesis
    using r(1) loop(1) valid by (auto simp: subtractDays_def)
qed

section \<open>Hours, minutes, seconds and milliseconds\<close>

definition dt_hours :: "datetime \<Rightarrow> nat" where
  "dt_hours dt = dt_days dt * 24 + unat (dt_hour dt)"

definition dt_minutes :: "datetime \<Rightarrow> nat" where
  "dt_minutes dt = dt_hours dt * 60 + unat (dt_minute dt)"

definition dt_seconds :: "datetime \<Rightarrow> nat" where
  "dt_seconds dt = dt_minutes dt * 60 + unat (dt_second dt)"

lemma dt_total_seconds: "dt_total dt = dt_seconds dt * 1000 + unat (dt_millisecond dt)"
  by (simp add: dt_total_def ms_total_def dt_seconds_def dt_minutes_def dt_hours_def)

lemma u32_carry_add:
  fixes n cur k :: u32
  assumes "unat cur < unat k" and "1 < unat k" and "unat k \<le> 1000"
  obtains q r where "(if n mod k + cur \<ge> k then (n div k + 1, (n mod k + cur) mod k)
      else (n div k, n mod k + cur)) = (q, r)"
    and "unat q * unat k + unat r = unat n + unat cur" and "unat r < unat k"
proof -
  let ?m = "unat n mod unat k"
  have m: "?m < unat k" using assms(2) by simp
  have "?m + unat cur < 4294967296" using m assms by linarith
  then have sum: "unat (n mod k + cur) = ?m + unat cur"
    by (simp add: unat_u32_plus unat_u32_mod)
  have "unat n div unat k \<le> unat n div 2" using assms(2) by (intro div_le_mono2) simp_all
  then have "unat n div unat k < 4294967295" using unat_u32_lt [of n] by linarith
  then have inc: "unat (n div k + 1) = unat n div unat k + 1" by (simp add: unat_u32_div)
  have n: "unat n div unat k * unat k + ?m = unat n" by simp
  show ?thesis
  proof (cases "k \<le> n mod k + cur")
    case True
    then have le: "unat k \<le> ?m + unat cur" by (simp add: u32_le_iff sum)
    have lt: "?m + unat cur - unat k < unat k" using m assms(1) by linarith
    with le have "(?m + unat cur) mod unat k = ?m + unat cur - unat k" by (simp add: le_mod_geq)
    with True inc le lt n m assms(1) show ?thesis
      by (intro that [of "n div k + 1" "(n mod k + cur) mod k"]) (simp_all add: unat_u32_mod sum)
  next
    case False
    with n show ?thesis
      by (intro that [of "n div k" "n mod k + cur"]) (simp_all add: sum unat_u32_div u32_le_iff)
  qed
qed

lemma u32_carry_sub:
  fixes n cur k :: u32
  assumes "unat cur < unat k" and "1 < unat k"
  obtains q r where "(if n mod k > cur then (n div k + 1, k - (n mod k - cur))
      else (n div k, cur - n mod k)) = (q, r)"
    and "unat q * unat k + unat cur = unat n + unat r" and "unat r < unat k"
proof -
  let ?m = "unat n mod unat k"
  have m: "?m < unat k" "unat (n mod k) = ?m" using assms(2) by (simp_all add: unat_u32_mod)
  have "unat n div unat k \<le> unat n div 2" using assms(2) by (intro div_le_mono2) simp_all
  then have "unat n div unat k < 4294967295" using unat_u32_lt [of n] by linarith
  then have inc: "unat (n div k + 1) = unat n div unat k + 1" by (simp add: unat_u32_div)
  have n: "unat n div unat k * unat k + ?m = unat n" by simp
  show ?thesis
  proof (cases "n mod k > cur")
    case True
    then have gt: "unat cur < ?m" by (simp add: u32_less_iff m(2))
    then have "unat (n mod k - cur) = ?m - unat cur" using m(2) by (simp add: unat_u32_sub)
    then have "unat (k - (n mod k - cur)) = unat k - (?m - unat cur)"
      using m by (simp add: unat_u32_sub)
    moreover have "unat (n div k + 1) * unat k = unat n div unat k * unat k + unat k" using inc by simp
    ultimately show ?thesis
      using True gt n m(1) assms(1)
      by (intro that [of "n div k + 1" "k - (n mod k - cur)"]; (simp only: if_True | linarith))
  next
    case False
    then have "?m \<le> unat cur" by (simp add: u32_less_iff m(2))
    then have "unat (cur - n mod k) = unat cur - ?m" using m(2) by (simp add: unat_u32_sub)
    moreover have "unat (n div k) * unat k = unat n div unat k * unat k" by (simp add: unat_u32_div)
    ultimately show ?thesis
      using False n \<open>?m \<le> unat cur\<close> assms(1)
      by (intro that [of "n div k" "cur - n mod k"]; (simp only: if_False | linarith))
  qed
qed

text \<open>
  The four units are treated alike: the call on the next larger unit is made only for a non-zero
  carry, and a carry of zero leaves the object as it is.
\<close>

lemma carry_call:
  assumes "dt_valid dt"
    and "q \<noteq> 0 \<Longrightarrow> \<exists>dt'. f q dt = Inr dt' \<and> dt_valid dt' \<and> P dt' (unat q)"
    and "P dt 0"
  obtains dt' where "(if q > (0 :: u32) then bindE (f q dt) (\<lambda>r. dt_assign r dt) else Inr dt) = Inr dt'"
    and "dt_valid dt'" and "P dt' (unat q)"
  using assms by (cases "q = 0") (auto simp: word_gt_0)

lemma dt_set_hour_eq: "unat h < 24 \<Longrightarrow> dt_set_hour h dt = Inr (dt\<lparr>dt_hour := h\<rparr>)"
  and dt_set_minute_eq: "unat h < 60 \<Longrightarrow> dt_set_minute h dt = Inr (dt\<lparr>dt_minute := h\<rparr>)"
  and dt_set_second_eq: "unat h < 60 \<Longrightarrow> dt_set_second h dt = Inr (dt\<lparr>dt_second := h\<rparr>)"
  and dt_set_millisecond_eq: "unat h < 1000 \<Longrightarrow> dt_set_millisecond h dt = Inr (dt\<lparr>dt_millisecond := h\<rparr>)"
  by (simp_all add: dt_set_hour_def dt_set_minute_def dt_set_second_def dt_set_millisecond_def u32_le_not_less)

lemma dt_days_update [simp]:
  "dt_days (dt\<lparr>dt_hour := h\<rparr>) = dt_days dt" "dt_days (dt\<lparr>dt_minute := h\<rparr>) = dt_days dt"
  "dt_days (dt\<lparr>dt_second := h\<rparr>) = dt_days dt" "dt_days (dt\<lparr>dt_millisecond := h\<rparr>) = dt_days dt"
  by (simp_all add: dt_days_def dt_doy_def)

lemma dt_valid_update:
  "dt_valid dt \<Longrightarrow> unat h < 24 \<Longrightarrow> dt_valid (dt\<lparr>dt_hour := h\<rparr>)"
  "dt_valid dt \<Longrightarrow> unat h < 60 \<Longrightarrow> dt_valid (dt\<lparr>dt_minute := h\<rparr>)"
  "dt_valid dt \<Longrightarrow> unat h < 60 \<Longrightarrow> dt_valid (dt\<lparr>dt_second := h\<rparr>)"
  "dt_valid dt \<Longrightarrow> unat h < 1000 \<Longrightarrow> dt_valid (dt\<lparr>dt_millisecond := h\<rparr>)"
  by (simp_all add: dt_valid_defs)

lemma dt_unit_update:
  "dt_hours (dt\<lparr>dt_minute := h\<rparr>) = dt_hours dt" "dt_hours (dt\<lparr>dt_second := h\<rparr>) = dt_hours dt"
  "dt_hours (dt\<lparr>dt_millisecond := h\<rparr>) = dt_hours dt" "dt_minutes (dt\<lparr>dt_second := h\<rparr>) = dt_minutes dt"
  "dt_minutes (dt\<lparr>dt_millisecond := h\<rparr>) = dt_minutes dt" "dt_seconds (dt\<lparr>dt_millisecond := h\<rparr>) = dt_seconds dt"
  by (simp_all add: dt_hours_def dt_minutes_def dt_seconds_def)

lemma addHours_eq:
  assumes valid: "dt_valid dt" and bound: "dt_hours dt + unat n < dt_end * 24"
  shows "\<exists>dt'. addHours n dt = Inr dt' \<and> dt_valid dt' \<and> dt_hours dt' = dt_hours dt + unat n \<and>
    dt_minute dt' = dt_minute dt \<and>
    dt_second dt' = dt_second dt \<and>
    dt_millisecond dt' = dt_millisecond dt"
proof -
  have "unat (dt_hour dt) < unat (24 :: u32)" using valid by (simp add: dt_valid_defs)
  then obtain q r where qr: "(if n mod 24 + dt_hour dt \<ge> 24 then (n div 24 + 1, (n mod 24 + dt_hour dt) mod 24)
      else (n div 24, n mod 24 + dt_hour dt)) = (q, r)"
    "unat q * 24 + unat r = unat n + unat (dt_hour dt)" "unat r < 24"
    by (rule u32_carry_add) simp_all
  have q: "unat q < 4294966930" "dt_days dt + unat q < dt_end"
    using qr(2,3) bound unat_u32_lt [of n] unat_u32_lt [of "dt_hour dt"] unfolding dt_hours_def by linarith+
  obtain dt1 where dt1: "(if q > 0 then bindE (addDays q dt) (\<lambda>r. dt_assign r dt) else Inr dt) = Inr dt1"
    "dt_valid dt1" "dt_days dt1 = dt_days dt + unat q \<and> dt_same_time dt1 dt"
    by (rule carry_call [OF valid, where f = addDays and q = q and P = "\<lambda>dt' k. dt_days dt' = dt_days dt + k \<and> dt_same_time dt' dt"])
      (use addDays_eq [OF valid q] in \<open>auto simp: dt_same_time_def\<close>)
  have "addHours n dt = dt_set_hour r dt1" using qr(1) dt1(1) valid by (simp add: addHours_def Let_def)
  with dt1 qr(2,3) show ?thesis by (auto simp: dt_set_hour_eq dt_valid_update dt_unit_update dt_hours_def dt_same_time_def)
qed

lemma subtractHours_eq:
  assumes valid: "dt_valid dt" and bound: "unat n \<le> dt_hours dt"
  shows "\<exists>dt'. subtractHours n dt = Inr dt' \<and> dt_valid dt' \<and> dt_hours dt' + unat n = dt_hours dt \<and>
    dt_minute dt' = dt_minute dt \<and>
    dt_second dt' = dt_second dt \<and>
    dt_millisecond dt' = dt_millisecond dt"
proof -
  have "unat (dt_hour dt) < unat (24 :: u32)" using valid by (simp add: dt_valid_defs)
  then obtain q r where qr: "(if n mod 24 > dt_hour dt then (n div 24 + 1, 24 - (n mod 24 - dt_hour dt))
      else (n div 24, dt_hour dt - n mod 24)) = (q, r)"
    "unat q * 24 + unat (dt_hour dt) = unat n + unat r" "unat r < 24"
    by (rule u32_carry_sub) simp_all
  have q: "unat q \<le> dt_days dt" using qr(2,3) bound unfolding dt_hours_def by linarith
  obtain dt1 where dt1: "(if q > 0 then bindE (subtractDays q dt) (\<lambda>r. dt_assign r dt) else Inr dt) = Inr dt1"
    "dt_valid dt1" "dt_days dt1 + unat q = dt_days dt \<and> dt_same_time dt1 dt"
    by (rule carry_call [OF valid, where f = subtractDays and q = q and P = "\<lambda>dt' k. dt_days dt' + k = dt_days dt \<and> dt_same_time dt' dt"])
      (use subtractDays_eq [OF valid q] in \<open>auto simp: dt_same_time_def\<close>)
  have "subtractHours n dt = dt_set_hour r dt1" using qr(1) dt1(1) valid by (simp add: subtractHours_def Let_def)
  with dt1 qr(2,3) show ?thesis by (auto simp: dt_set_hour_eq dt_valid_update dt_unit_update dt_hours_def dt_same_time_def)
qed

lemma addMinutes_eq:
  assumes valid: "dt_valid dt" and bound: "dt_minutes dt + unat n < dt_end * 24 * 60"
  shows "\<exists>dt'. addMinutes n dt = Inr dt' \<and> dt_valid dt' \<and> dt_minutes dt' = dt_minutes dt + unat n \<and>
    dt_second dt' = dt_second dt \<and>
    dt_millisecond dt' = dt_millisecond dt"
proof -
  have "unat (dt_minute dt) < unat (60 :: u32)" using valid by (simp add: dt_valid_defs)
  then obtain q r where qr: "(if n mod 60 + dt_minute dt \<ge> 60 then (n div 60 + 1, (n mod 60 + dt_minute dt) mod 60)
      else (n div 60, n mod 60 + dt_minute dt)) = (q, r)"
    "unat q * 60 + unat r = unat n + unat (dt_minute dt)" "unat r < 60"
    by (rule u32_carry_add) simp_all
  have q: "dt_hours dt + unat q < dt_end * 24" using qr(2,3) bound unfolding dt_minutes_def by linarith
  obtain dt1 where dt1: "(if q > 0 then bindE (addHours q dt) (\<lambda>r. dt_assign r dt) else Inr dt) = Inr dt1"
    "dt_valid dt1" "dt_hours dt1 = dt_hours dt + unat q \<and> dt_minute dt1 = dt_minute dt \<and> dt_second dt1 = dt_second dt \<and> dt_millisecond dt1 = dt_millisecond dt"
    by (rule carry_call [OF valid, where f = addHours and q = q and P = "\<lambda>dt' k. dt_hours dt' = dt_hours dt + k \<and> dt_minute dt' = dt_minute dt \<and> dt_second dt' = dt_second dt \<and> dt_millisecond dt' = dt_millisecond dt"])
      (use addHours_eq [OF valid q] in auto)
  have "addMinutes n dt = dt_set_minute r dt1" using qr(1) dt1(1) valid by (simp add: addMinutes_def Let_def)
  with dt1 qr(2,3) show ?thesis by (auto simp: dt_set_minute_eq dt_valid_update dt_unit_update dt_minutes_def)
qed

lemma subtractMinutes_eq:
  assumes valid: "dt_valid dt" and bound: "unat n \<le> dt_minutes dt"
  shows "\<exists>dt'. subtractMinutes n dt = Inr dt' \<and> dt_valid dt' \<and> dt_minutes dt' + unat n = dt_minutes dt \<and>
    dt_second dt' = dt_second dt \<and>
    dt_millisecond dt' = dt_millisecond dt"
proof -
  have "unat (dt_minute dt) < unat (60 :: u32)" using valid by (simp add: dt_valid_defs)
  then obtain q r where qr: "(if n mod 60 > dt_minute dt then (n div 60 + 1, 60 - (n mod 60 - dt_minute dt))
      else (n div 60, dt_minute dt - n mod 60)) = (q, r)"
    "unat q * 60 + unat (dt_minute dt) = unat n + unat r" "unat r < 60"
    by (rule u32_carry_sub) simp_all
  have q: "unat q \<le> dt_hours dt" using qr(2,3) bound unfolding dt_minutes_def by linarith
  obtain dt1 where dt1: "(if q > 0 then bindE (subtractHours q dt) (\<lambda>r. dt_assign r dt) else Inr dt) = Inr dt1"
    "dt_valid dt1" "dt_hours dt1 + unat q = dt_hours dt \<and> dt_minute dt1 = dt_minute dt \<and> dt_second dt1 = dt_second dt \<and> dt_millisecond dt1 = dt_millisecond dt"
    by (rule carry_call [OF valid, where f = subtractHours and q = q and P = "\<lambda>dt' k. dt_hours dt' + k = dt_hours dt \<and> dt_minute dt' = dt_minute dt \<and> dt_second dt' = dt_second dt \<and> dt_millisecond dt' = dt_millisecond dt"])
      (use subtractHours_eq [OF valid q] in auto)
  have "subtractMinutes n dt = dt_set_minute r dt1" using qr(1) dt1(1) valid by (simp add: subtractMinutes_def Let_def)
  with dt1 qr(2,3) show ?thesis by (auto simp: dt_set_minute_eq dt_valid_update dt_unit_update dt_minutes_def)
qed

lemma addSeconds_eq:
  assumes valid: "dt_valid dt" and bound: "dt_seconds dt + unat n < dt_end * 24 * 60 * 60"
  shows "\<exists>dt'. addSeconds n dt = Inr dt' \<and> dt_valid dt' \<and> dt_seconds dt' = dt_seconds dt + unat n \<and>
    dt_millisecond dt' = dt_millisecond dt"
proof -
  have "unat (dt_second dt) < unat (60 :: u32)" using valid by (simp add: dt_valid_defs)
  then obtain q r where qr: "(if n mod 60 + dt_second dt \<ge> 60 then (n div 60 + 1, (n mod 60 + dt_second dt) mod 60)
      else (n div 60, n mod 60 + dt_second dt)) = (q, r)"
    "unat q * 60 + unat r = unat n + unat (dt_second dt)" "unat r < 60"
    by (rule u32_carry_add) simp_all
  have q: "dt_minutes dt + unat q < dt_end * 24 * 60" using qr(2,3) bound unfolding dt_seconds_def by linarith
  obtain dt1 where dt1: "(if q > 0 then bindE (addMinutes q dt) (\<lambda>r. dt_assign r dt) else Inr dt) = Inr dt1"
    "dt_valid dt1" "dt_minutes dt1 = dt_minutes dt + unat q \<and> dt_second dt1 = dt_second dt \<and> dt_millisecond dt1 = dt_millisecond dt"
    by (rule carry_call [OF valid, where f = addMinutes and q = q and P = "\<lambda>dt' k. dt_minutes dt' = dt_minutes dt + k \<and> dt_second dt' = dt_second dt \<and> dt_millisecond dt' = dt_millisecond dt"])
      (use addMinutes_eq [OF valid q] in auto)
  have "addSeconds n dt = dt_set_second r dt1" using qr(1) dt1(1) valid by (simp add: addSeconds_def Let_def)
  with dt1 qr(2,3) show ?thesis by (auto simp: dt_set_second_eq dt_valid_update dt_unit_update dt_seconds_def)
qed

lemma subtractSeconds_eq:
  assumes valid: "dt_valid dt" and bound: "unat n \<le> dt_seconds dt"
  shows "\<exists>dt'. subtractSeconds n dt = Inr dt' \<and> dt_valid dt' \<and> dt_seconds dt' + unat n = dt_seconds dt \<and>
    dt_millisecond dt' = dt_millisecond dt"
proof -
  have "unat (dt_second dt) < unat (60 :: u32)" using valid by (simp add: dt_valid_defs)
  then obtain q r where qr: "(if n mod 60 > dt_second dt then (n div 60 + 1, 60 - (n mod 60 - dt_second dt))
      else (n div 60, dt_second dt - n mod 60)) = (q, r)"
    "unat q * 60 + unat (dt_second dt) = unat n + unat r" "unat r < 60"
    by (rule u32_carry_sub) simp_all
  have q: "unat q \<le> dt_minutes dt" using qr(2,3) bound unfolding dt_seconds_def by linarith
  obtain dt1 where dt1: "(if q > 0 then bindE (subtractMinutes q dt) (\<lambda>r. dt_assign r dt) else Inr dt) = Inr dt1"
    "dt_valid dt1" "dt_minutes dt1 + unat q = dt_minutes dt \<and> dt_second dt1 = dt_second dt \<and> dt_millisecond dt1 = dt_millisecond dt"
    by (rule carry_call [OF valid, where f = subtractMinutes and q = q and P = "\<lambda>dt' k. dt_minutes dt' + k = dt_minutes dt \<and> dt_second dt' = dt_second dt \<and> dt_millisecond dt' = dt_millisecond dt"])
      (use subtractMinutes_eq [OF valid q] in auto)
  have "subtractSeconds n dt = dt_set_second r dt1" using qr(1) dt1(1) valid by (simp add: subtractSeconds_def Let_def)
  with dt1 qr(2,3) show ?thesis by (auto simp: dt_set_second_eq dt_valid_update dt_unit_update dt_seconds_def)
qed

lemma addMilliseconds_eq:
  assumes valid: "dt_valid dt" and bound: "dt_total dt + unat n < dt_end * 86400000"
  shows "\<exists>dt'. addMilliseconds n dt = Inr dt' \<and> dt_valid dt' \<and> dt_total dt' = dt_total dt + unat n"
proof -
  have "unat (dt_millisecond dt) < unat (1000 :: u32)" using valid by (simp add: dt_valid_defs)
  then obtain q r where qr: "(if n mod 1000 + dt_millisecond dt \<ge> 1000 then (n div 1000 + 1, (n mod 1000 + dt_millisecond dt) mod 1000)
      else (n div 1000, n mod 1000 + dt_millisecond dt)) = (q, r)"
    "unat q * 1000 + unat r = unat n + unat (dt_millisecond dt)" "unat r < 1000"
    by (rule u32_carry_add) simp_all
  have q: "dt_seconds dt + unat q < dt_end * 24 * 60 * 60" using qr(2,3) bound unfolding dt_total_seconds by linarith
  obtain dt1 where dt1: "(if q > 0 then bindE (addSeconds q dt) (\<lambda>r. dt_assign r dt) else Inr dt) = Inr dt1"
    "dt_valid dt1" "dt_seconds dt1 = dt_seconds dt + unat q \<and> dt_millisecond dt1 = dt_millisecond dt"
    by (rule carry_call [OF valid, where f = addSeconds and q = q and P = "\<lambda>dt' k. dt_seconds dt' = dt_seconds dt + k \<and> dt_millisecond dt' = dt_millisecond dt"])
      (use addSeconds_eq [OF valid q] in auto)
  have "addMilliseconds n dt = dt_set_millisecond r dt1" using qr(1) dt1(1) valid by (simp add: addMilliseconds_def Let_def)
  with dt1 qr(2,3) show ?thesis by (auto simp: dt_set_millisecond_eq dt_valid_update dt_unit_update dt_total_seconds)
qed

lemma subtractMilliseconds_eq:
  assumes valid: "dt_valid dt" and bound: "unat n \<le> dt_total dt"
  shows "\<exists>dt'. subtractMilliseconds n dt = Inr dt' \<and> dt_valid dt' \<and> dt_total dt' + unat n = dt_total dt"
proof -
  have "unat (dt_millisecond dt) < unat (1000 :: u32)" using valid by (simp add: dt_valid_defs)
  then obtain q r where qr: "(if n mod 1000 > dt_millisecond dt then (n div 1000 + 1, 1000 - (n mod 1000 - dt_millisecond dt))
      else (n div 1000, dt_millisecond dt - n mod 1000)) = (q, r)"
    "unat q * 1000 + unat (dt_millisecond dt) = unat n + unat r" "unat r < 1000"
    by (rule u32_carry_sub) simp_all
  have q: "unat q \<le> dt_seconds dt" using qr(2,3) bound unfolding dt_total_seconds by linarith
  obtain dt1 where dt1: "(if q > 0 then bindE (subtractSeconds q dt) (\<lambda>r. dt_assign r dt) else Inr dt) = Inr dt1"
    "dt_valid dt1" "dt_seconds dt1 + unat q = dt_seconds dt \<and> dt_millisecond dt1 = dt_millisecond dt"
    by (rule carry_call [OF valid, where f = subtractSeconds and q = q and P = "\<lambda>dt' k. dt_seconds dt' + k = dt_seconds dt \<and> dt_millisecond dt' = dt_millisecond dt"])
      (use subtractSeconds_eq [OF valid q] in auto)
  have "subtractMilliseconds n dt = dt_set_millisecond r dt1" using qr(1) dt1(1) valid by (simp add: subtractMilliseconds_def Let_def)
  with dt1 qr(2,3) show ?thesis by (auto simp: dt_set_millisecond_eq dt_valid_update dt_unit_update dt_total_seconds)
qed

section \<open>All units together\<close>

definition dt_limit :: nat where
  "dt_limit = dt_end * 86400000"

lemma dt_total_units:
  "dt_total dt = dt_minutes dt * 60000 + unat (dt_second dt) * 1000 + unat (dt_millisecond dt)"
  "dt_total dt = dt_hours dt * 3600000 + unat (dt_minute dt) * 60000 + unat (dt_second dt) * 1000
     + unat (dt_millisecond dt)"
  "dt_total dt = dt_days dt * 86400000 + unat (dt_hour dt) * 3600000 + unat (dt_minute dt) * 60000
     + unat (dt_second dt) * 1000 + unat (dt_millisecond dt)"
  by (simp_all add: dt_total_seconds dt_seconds_def dt_minutes_def dt_hours_def)

lemma addX_total:
  assumes "dt_valid dt"
  shows "dt_total dt + unat n < dt_limit \<Longrightarrow>
      \<exists>dt'. addMilliseconds n dt = Inr dt' \<and> dt_valid dt' \<and> dt_total dt' = dt_total dt + unat n"
    and "dt_total dt + unat n * 1000 < dt_limit \<Longrightarrow>
      \<exists>dt'. addSeconds n dt = Inr dt' \<and> dt_valid dt' \<and> dt_total dt' = dt_total dt + unat n * 1000"
    and "dt_total dt + unat n * 60000 < dt_limit \<Longrightarrow>
      \<exists>dt'. addMinutes n dt = Inr dt' \<and> dt_valid dt' \<and> dt_total dt' = dt_total dt + unat n * 60000"
    and "dt_total dt + unat n * 3600000 < dt_limit \<Longrightarrow>
      \<exists>dt'. addHours n dt = Inr dt' \<and> dt_valid dt' \<and> dt_total dt' = dt_total dt + unat n * 3600000"
    and "dt_total dt + unat n * 86400000 < dt_limit \<Longrightarrow> unat n < 4294966930 \<Longrightarrow>
      \<exists>dt'. addDays n dt = Inr dt' \<and> dt_valid dt' \<and> dt_total dt' = dt_total dt + unat n * 86400000"
  using addMilliseconds_eq [OF assms, of n] addSeconds_eq [OF assms, of n] addMinutes_eq [OF assms, of n]
    addHours_eq [OF assms, of n] addDays_eq [OF assms, of n]
  by (auto simp: dt_limit_def dt_total_seconds dt_seconds_def dt_minutes_def dt_hours_def dt_same_time_def)

lemma subtractX_total:
  assumes "dt_valid dt"
  shows "unat n \<le> dt_total dt \<Longrightarrow>
      \<exists>dt'. subtractMilliseconds n dt = Inr dt' \<and> dt_valid dt' \<and> dt_total dt' + unat n = dt_total dt"
    and "unat n * 1000 \<le> dt_total dt \<Longrightarrow>
      \<exists>dt'. subtractSeconds n dt = Inr dt' \<and> dt_valid dt' \<and> dt_total dt' + unat n * 1000 = dt_total dt"
    and "unat n * 60000 \<le> dt_total dt \<Longrightarrow>
      \<exists>dt'. subtractMinutes n dt = Inr dt' \<and> dt_valid dt' \<and> dt_total dt' + unat n * 60000 = dt_total dt"
    and "unat n * 3600000 \<le> dt_total dt \<Longrightarrow>
      \<exists>dt'. subtractHours n dt = Inr dt' \<and> dt_valid dt' \<and> dt_total dt' + unat n * 3600000 = dt_total dt"
    and "unat n * 86400000 \<le> dt_total dt \<Longrightarrow>
      \<exists>dt'. subtractDays n dt = Inr dt' \<and> dt_valid dt' \<and> dt_total dt' + unat n * 86400000 = dt_total dt"
proof -
  have time: "unat (dt_hour dt) < 24" "unat (dt_minute dt) < 60" "unat (dt_second dt) < 60"
    "unat (dt_millisecond dt) < 1000" using assms by (simp_all add: dt_valid_defs)
  show "unat n \<le> dt_total dt \<Longrightarrow>
      \<exists>dt'. subtractMilliseconds n dt = Inr dt' \<and> dt_valid dt' \<and> dt_total dt' + unat n = dt_total dt"
    by (rule subtractMilliseconds_eq [OF assms, of n, simplified])
  show "\<exists>dt'. subtractSeconds n dt = Inr dt' \<and> dt_valid dt' \<and> dt_total dt' + unat n * 1000 = dt_total dt"
    if "unat n * 1000 \<le> dt_total dt"
  proof -
    have "unat n \<le> dt_seconds dt" using that time unfolding dt_total_seconds by linarith
    from subtractSeconds_eq [OF assms this] show ?thesis by (auto simp: dt_total_seconds)
  qed
  show "\<exists>dt'. subtractMinutes n dt = Inr dt' \<and> dt_valid dt' \<and> dt_total dt' + unat n * 60000 = dt_total dt"
    if "unat n * 60000 \<le> dt_total dt"
  proof -
    have "unat n \<le> dt_minutes dt" using that time unfolding dt_total_units(1) by linarith
    from subtractMinutes_eq [OF assms this] show ?thesis by (auto simp: dt_total_units(1))
  qed
  show "\<exists>dt'. subtractHours n dt = Inr dt' \<and> dt_valid dt' \<and> dt_total dt' + unat n * 3600000 = dt_total dt"
    if "unat n * 3600000 \<le> dt_total dt"
  proof -
    have "unat n \<le> dt_hours dt" using that time unfolding dt_total_units(2) by linarith
    from subtractHours_eq [OF assms this] show ?thesis by (auto simp: dt_total_units(2))
  qed
  show "\<exists>dt'. subtractDays n dt = Inr dt' \<and> dt_valid dt' \<and> dt_total dt' + unat n * 86400000 = dt_total dt"
    if "unat n * 86400000 \<le> dt_total dt"
  proof -
    have "unat n \<le> dt_days dt" using that time unfolding dt_total_units(3) by linarith
    from subtractDays_eq [OF assms this] show ?thesis by (auto simp: dt_total_units(3) dt_same_time_def)
  qed
qed

lemma dt_add_eq:
  assumes "dt_valid dt" and "dt_total dt + du_length d h m s ms < dt_limit" and "unat d < 4294966930"
  shows "\<exists>dt'. dt_add d h m s ms dt = Inr dt' \<and> dt_valid dt' \<and> dt_total dt' = dt_total dt + du_length d h m s ms"
proof -
  note len = assms(2) [unfolded du_length_def]
  obtain t1 where 1: "addMilliseconds ms dt = Inr t1" "dt_valid t1" "dt_total t1 = dt_total dt + unat ms"
    using addX_total(1) [OF assms(1), of ms] len by auto
  obtain t2 where 2: "addSeconds s t1 = Inr t2" "dt_valid t2" "dt_total t2 = dt_total t1 + unat s * 1000"
    using addX_total(2) [OF 1(2), of s] 1(3) len by auto
  obtain t3 where 3: "addMinutes m t2 = Inr t3" "dt_valid t3" "dt_total t3 = dt_total t2 + unat m * 60000"
    using addX_total(3) [OF 2(2), of m] 1(3) 2(3) len by auto
  obtain t4 where 4: "addHours h t3 = Inr t4" "dt_valid t4" "dt_total t4 = dt_total t3 + unat h * 3600000"
    using addX_total(4) [OF 3(2), of h] 1(3) 2(3) 3(3) len by auto
  obtain t5 where 5: "addDays d t4 = Inr t5" "dt_valid t5" "dt_total t5 = dt_total t4 + unat d * 86400000"
    using addX_total(5) [OF 4(2), of d] 1(3) 2(3) 3(3) 4(3) len assms(3) by auto
  show ?thesis using assms(1) 1 2 3 4 5 by (simp add: dt_add_def du_length_def)
qed

lemma dt_subtract_eq:
  assumes "dt_valid dt" and "du_length d h m s ms \<le> dt_total dt"
  shows "\<exists>dt'. dt_subtract d h m s ms dt = Inr dt' \<and> dt_valid dt' \<and> dt_total dt' + du_length d h m s ms = dt_total dt"
proof -
  note len = assms(2) [unfolded du_length_def]
  obtain t1 where 1: "subtractMilliseconds ms dt = Inr t1" "dt_valid t1" "dt_total t1 + unat ms = dt_total dt"
    using subtractX_total(1) [OF assms(1), of ms] len by auto
  obtain t2 where 2: "subtractSeconds s t1 = Inr t2" "dt_valid t2" "dt_total t2 + unat s * 1000 = dt_total t1"
    using subtractX_total(2) [OF 1(2), of s] 1(3) len by auto
  obtain t3 where 3: "subtractMinutes m t2 = Inr t3" "dt_valid t3" "dt_total t3 + unat m * 60000 = dt_total t2"
    using subtractX_total(3) [OF 2(2), of m] 1(3) 2(3) len by auto
  obtain t4 where 4: "subtractHours h t3 = Inr t4" "dt_valid t4" "dt_total t4 + unat h * 3600000 = dt_total t3"
    using subtractX_total(4) [OF 3(2), of h] 1(3) 2(3) 3(3) len by auto
  obtain t5 where 5: "subtractDays d t4 = Inr t5" "dt_valid t5" "dt_total t5 + unat d * 86400000 = dt_total t4"
    using subtractX_total(5) [OF 4(2), of d] 1(3) 2(3) 3(3) 4(3) len by auto
  show ?thesis using assms(1) 1 2 3 4 5 by (auto simp: dt_subtract_def du_length_def)
qed

section \<open>What the pairs of operations promise\<close>

text \<open>
  Each unit has an operation that moves an instant forward by \<open>n\<close> units and one that moves it back.
  \<open>time_shift\<close> is their common contract, for amounts below \<open>maxn\<close> and instants below \<open>limit\<close>; what
  follows from it is proved once and holds for every unit.
\<close>

locale time_shift =
  fixes add :: "u32 \<Rightarrow> 'd \<Rightarrow> 'e + 'd"
    and sub :: "u32 \<Rightarrow> 'd \<Rightarrow> 'e + 'd"
    and total :: "'d \<Rightarrow> nat"
    and valid :: "'d \<Rightarrow> bool"
    and unit :: nat and limit :: nat and maxn :: nat
  assumes add_law: "valid d \<Longrightarrow> unat n < maxn \<Longrightarrow> total d + unat n * unit < limit \<Longrightarrow>
      \<exists>d'. add n d = Inr d' \<and> valid d' \<and> total d' = total d + unat n * unit"
    and sub_law: "valid d \<Longrightarrow> unat n * unit \<le> total d \<Longrightarrow>
      \<exists>d'. sub n d = Inr d' \<and> valid d' \<and> total d' + unat n * unit = total d"
    and total_inject: "valid a \<Longrightarrow> valid b \<Longrightarrow> total a = total b \<Longrightarrow> a = b"
    and total_less: "valid d \<Longrightarrow> total d < limit"
begin

lemma sub_after_add:
  assumes "valid d" and "unat n < maxn" and "total d + unat n * unit < limit"
  shows "bindE (add n d) (sub n) = Inr d"
proof -
  obtain d1 where d1: "add n d = Inr d1" "valid d1" "total d1 = total d + unat n * unit"
    using add_law [OF assms] by blast
  obtain d2 where d2: "sub n d1 = Inr d2" "valid d2" "total d2 + unat n * unit = total d1"
    using sub_law [OF d1(2), of n] d1(3) by auto
  with d1 total_inject [OF d2(2) assms(1)] show ?thesis by simp
qed

lemma add_after_sub:
  assumes "valid d" and "unat n < maxn" and "unat n * unit \<le> total d"
  shows "bindE (sub n d) (add n) = Inr d"
proof -
  obtain d1 where d1: "sub n d = Inr d1" "valid d1" "total d1 + unat n * unit = total d"
    using sub_law [OF assms(1,3)] by blast
  obtain d2 where d2: "add n d1 = Inr d2" "valid d2" "total d2 = total d1 + unat n * unit"
    using add_law [OF d1(2) assms(2)] d1(3) total_less [OF assms(1)] by auto
  with d1 total_inject [OF d2(2) assms(1)] show ?thesis by simp
qed

lemma add_commutes:
  assumes "valid d" and "unat n < maxn" and "unat m < maxn"
    and "total d + (unat n + unat m) * unit < limit"
  shows "bindE (add n d) (add m) = bindE (add m d) (add n)"
proof -
  have both: "\<exists>a. bindE (add i d) (add j) = Inr a \<and> valid a \<and> total a = total d + (unat i + unat j) * unit"
    if "unat i < maxn" "unat j < maxn" "total d + (unat i + unat j) * unit < limit" for i j
    using add_law [OF assms(1), of i] add_law [of _ j] that by (fastforce simp: algebra_simps)
  show ?thesis
    using both [of n m] both [of m n] assms(2-4) total_inject by (force simp: add.commute)
qed

end

lemma dt_total_less_limit: "dt_valid dt \<Longrightarrow> dt_total dt < dt_limit"
proof -
  assume valid: "dt_valid dt"
  then have date: "dt_date_valid dt" by (simp add: dt_valid_def)
  let ?y = "unat (dt_year dt)"
  have "1 \<le> ?y" using date by (simp add: dt_date_valid_def valid_date_def)
  then have "Suc (dt_days dt) \<le> days_before (Suc ?y)"
    using dt_days_Suc [OF date] dt_doy_bounds(2) [OF date] by (simp add: days_before_Suc)
  also have "\<dots> \<le> dt_end" unfolding dt_end_def using unat_u32_lt [of "dt_year dt"] by (intro days_before_mono) linarith
  finally show ?thesis
    using valid unfolding dt_total_def dt_limit_def by (intro ms_total_less) (simp_all add: dt_valid_defs)
qed

interpretation dt_ms: time_shift addMilliseconds subtractMilliseconds dt_total dt_valid 1 dt_limit 4294967296
  by unfold_locales (use addX_total(1) subtractX_total(1) dt_total_inject dt_total_less_limit in auto)

interpretation dt_sec: time_shift addSeconds subtractSeconds dt_total dt_valid 1000 dt_limit 4294967296
  by unfold_locales (use addX_total(2) subtractX_total(2) dt_total_inject dt_total_less_limit in auto)

interpretation dt_min: time_shift addMinutes subtractMinutes dt_total dt_valid 60000 dt_limit 4294967296
  by unfold_locales (use addX_total(3) subtractX_total(3) dt_total_inject dt_total_less_limit in auto)

interpretation dt_hr: time_shift addHours subtractHours dt_total dt_valid 3600000 dt_limit 4294967296
  by unfold_locales (use addX_total(4) subtractX_total(4) dt_total_inject dt_total_less_limit in auto)

interpretation dt_day: time_shift addDays subtractDays dt_total dt_valid 86400000 dt_limit 4294966930
  by unfold_locales (use addX_total(5) subtractX_total(5) dt_total_inject dt_total_less_limit in auto)

section \<open>Every call is safe\<close>

text \<open>
  From a valid object every operation, with any arguments at all, either returns a valid object or
  throws \<open>InvalidDateTimeException\<close>; the month table is never read outside its bounds.
\<close>

fun dt_safe :: "dt_error + datetime \<Rightarrow> bool" where
  "dt_safe (Inr dt) = dt_valid dt"
| "dt_safe (Inl (InvalidDateTime y m d h mi s ms)) = True"
| "dt_safe (Inl TableBounds) = False"

lemma dt_safe_bind:
  assumes "dt_safe m" and "\<And>x. m = Inr x \<Longrightarrow> dt_valid x \<Longrightarrow> dt_safe (f x)"
  shows "dt_safe (bindE m f)"
proof (cases m)
  case (Inl e)
  with assms(1) show ?thesis by (cases e) auto
qed (use assms in simp)

lemma dt_safe_copy: "dt_valid dt \<Longrightarrow> dt_safe (dt_copy dt)" and dt_safe_assign: "dt_valid r \<Longrightarrow> dt_safe (dt_assign r dt)"
  by simp_all

lemma dt_safe_setDateTime: "dt_safe (setDateTime y m d h mi s ms dt)"
  by (simp add: setDateTime_eq Let_def)

lemma dt_safe_set_year: "dt_valid dt \<Longrightarrow> dt_safe (dt_set_year y dt)"
  using dt_set_year_eq [of y dt] dt_same_time_valid
  by (cases "y = 0") (auto simp: dt_set_year_def dt_valid_def)

lemma dt_safe_set_month: "dt_valid dt \<Longrightarrow> dt_safe (dt_set_month m dt)"
  using dt_set_month_eq [of dt m] dt_same_time_valid
  by (cases "m = 0 \<or> m > 12") (auto simp: dt_set_month_def dt_valid_def u32_less_iff Suc_le_eq unat_gt_0)

lemma dt_safe_set_day: "dt_valid dt \<Longrightarrow> dt_safe (dt_set_day d dt)"
  using dt_set_day_cases [of dt d] daysInMonth_eq [of "dt_month dt" "dt_year dt"]
  by (auto simp: dt_set_day_def dt_valid_defs valid_date_def u32_less_iff not_less Suc_le_eq unat_gt_0)

lemma dt_safe_set_time:
  "dt_valid dt \<Longrightarrow> dt_safe (dt_set_hour h dt)" "dt_valid dt \<Longrightarrow> dt_safe (dt_set_minute h dt)"
  "dt_valid dt \<Longrightarrow> dt_safe (dt_set_second h dt)" "dt_valid dt \<Longrightarrow> dt_safe (dt_set_millisecond h dt)"
  "dt_valid dt \<Longrightarrow> dt_safe (setTime h mi s ms dt)" "dt_valid dt \<Longrightarrow> dt_safe (setDate y m d dt)"
  by (auto simp: dt_set_hour_def dt_set_minute_def dt_set_second_def dt_set_millisecond_def setTime_def
      setDate_def validDate_eq dt_valid_defs u32_le_not_less)

lemma reverse_loop_total:
  "1 \<le> unat month \<Longrightarrow> unat month \<le> 12 \<Longrightarrow> \<exists>r. reverse_loop y month doy = Inr r"
proof (induction y month doy rule: reverse_loop.induct)
  case (1 y month doy)
  show ?case
  proof (cases "month < 12")
    case True
    then have "unat (month + 1) = Suc (unat month)" "Suc (unat month) \<le> 12"
      using unat_u32_inc_less by (simp_all add: u32_less_iff)
    with 1 True daysInMonth_eq [of month y] show ?thesis
      by (simp add: reverse_loop.simps [of y month])
  qed (simp add: reverse_loop.simps)
qed

lemma dt_safe_set_dayOfYear: "dt_valid dt \<Longrightarrow> dt_safe (dt_set_dayOfYear n dt)"
  using reverse_loop_total [of 1 "dt_year dt" n] unfolding dt_set_dayOfYear_def getReverseDayOfYear_def mkDateTime_def
  by (auto intro!: dt_safe_bind dt_safe_setDateTime dt_safe_set_month dt_safe_set_day simp: bindE_assoc)

lemma dt_safe_days:
  assumes "dt_valid dt"
  shows "dt_safe (subtractDays n dt)" and "dt_safe (addDays n dt)"
proof -
  obtain r where "dt_dayOfYear dt = Inr r" using dt_dayOfYear_valid assms by (auto simp: dt_valid_def)
  then show "dt_safe (subtractDays n dt)" "dt_safe (addDays n dt)"
    using assms unfolding subtractDays_def addDays_def
    by (auto intro!: dt_safe_bind dt_safe_set_year dt_safe_set_dayOfYear split: prod.splits)
qed

lemma dt_safe_carry:
  assumes "dt_valid dt" and "\<And>q. dt_safe (f q dt)" and "\<And>d. dt_valid d \<Longrightarrow> dt_safe (g d)"
  shows "dt_safe (bindE (if (q :: u32) > 0 then bindE (f q dt) (\<lambda>r. dt_assign r dt) else Inr dt) g)"
  using assms by (auto intro!: dt_safe_bind)

lemma dt_safe_hours: "dt_valid dt \<Longrightarrow> dt_safe (subtractHours n dt)" "dt_valid dt \<Longrightarrow> dt_safe (addHours n dt)"
  by (simp_all add: subtractHours_def addHours_def Let_def dt_safe_carry dt_safe_days dt_safe_set_time
      split: prod.split del: if_split)

lemma dt_safe_minutes:
  "dt_valid dt \<Longrightarrow> dt_safe (subtractMinutes n dt)" "dt_valid dt \<Longrightarrow> dt_safe (addMinutes n dt)"
  by (simp_all add: subtractMinutes_def addMinutes_def Let_def dt_safe_carry dt_safe_hours dt_safe_set_time
      split: prod.split del: if_split)

lemma dt_safe_seconds:
  "dt_valid dt \<Longrightarrow> dt_safe (subtractSeconds n dt)" "dt_valid dt \<Longrightarrow> dt_safe (addSeconds n dt)"
  by (simp_all add: subtractSeconds_def addSeconds_def Let_def dt_safe_carry dt_safe_minutes dt_safe_set_time
      split: prod.split del: if_split)

lemma dt_safe_milliseconds:
  "dt_valid dt \<Longrightarrow> dt_safe (subtractMilliseconds n dt)" "dt_valid dt \<Longrightarrow> dt_safe (addMilliseconds n dt)"
  by (simp_all add: subtractMilliseconds_def addMilliseconds_def Let_def dt_safe_carry dt_safe_seconds
      dt_safe_set_time split: prod.split del: if_split)

lemmas dt_safe_units = dt_safe_days dt_safe_hours dt_safe_minutes dt_safe_seconds dt_safe_milliseconds

lemma dt_safe_add: "dt_valid dt \<Longrightarrow> dt_safe (dt_add d h m s ms dt)"
  and dt_safe_subtract: "dt_valid dt \<Longrightarrow> dt_safe (dt_subtract d h m s ms dt)"
  unfolding dt_add_def dt_subtract_def by (intro dt_safe_bind dt_safe_units; simp)+

section \<open>Durations\<close>

definition du_signed :: "duration \<Rightarrow> int" where
  "du_signed dur = (if du_is_negative dur then - int (du_total dur) else int (du_total dur))"

lemma du_total_length:
  "du_length (du_days x) (du_hours x) (du_minutes x) (du_seconds x) (du_milliseconds x) = du_total x"
  by (simp add: du_length_def du_total_defs)

lemma dt_add_duration_eq:
  assumes "dt_valid dt" and "unat (du_days dur) < 4294966930"
    and "0 \<le> int (dt_total dt) + du_signed dur" and "int (dt_total dt) + du_signed dur < int dt_limit"
  shows "\<exists>dt'. dt_add_duration dur dt = Inr dt' \<and> dt_valid dt' \<and>
    int (dt_total dt') = int (dt_total dt) + du_signed dur"
proof (cases "du_is_negative dur")
  case True
  then have "du_total dur \<le> dt_total dt" using assms(3) by (simp add: du_signed_def)
  from dt_subtract_eq [OF assms(1), of "du_days dur" "du_hours dur" "du_minutes dur" "du_seconds dur"
      "du_milliseconds dur", unfolded du_total_length, OF this] True
  show ?thesis by (auto simp: dt_add_duration_def du_signed_def)
next
  case False
  then have "dt_total dt + du_total dur < dt_limit" using assms(4) by (simp add: du_signed_def)
  from dt_add_eq [OF assms(1) this [folded du_total_length] assms(2)] False
  show ?thesis by (auto simp: dt_add_duration_def du_signed_def du_total_length)
qed

lemma dt_subtract_duration_add:
  "du_normal dur \<Longrightarrow>
   dt_subtract_duration dur = dt_add_duration (dur\<lparr>du_is_negative := \<not> du_is_negative dur\<rparr>)"
  by (simp add: dt_subtract_duration_def du_set_isNegative_def fun_eq_iff)

lemma du_signed_flip: "du_signed (dur\<lparr>du_is_negative := \<not> du_is_negative dur\<rparr>) = - du_signed dur"
  by (simp add: du_signed_def du_total_defs)

section \<open>Properties\<close>

definition dt_example :: datetime where
  "dt_example = \<lparr>dt_year = 2020, dt_month = 2, dt_day = 29, dt_hour = 23, dt_minute = 59, dt_second = 58,
                 dt_millisecond = 999\<rparr>"

lemma dt_example_valid: "dt_valid dt_example"
  by (simp add: dt_example_def dt_valid_defs valid_date_def month_len_def leap_def)

lemma dt_example_total: "dt_total dt_example = 63718617598999"
proof -
  have "before_month True 2 = 31"
    using before_month_Suc [of "Suc 0" True] by (simp add: month_len_def numeral_2_eq_2)
  moreover have "days_before 2020 = 737424"
    using days_before_closed [of 2019] by simp
  ultimately show ?thesis
    by (simp add: dt_example_def dt_total_def ms_total_def dt_days_def dt_doy_def leap_def)
qed

text \<open>
  C18: Adding days, hours, minutes, seconds and milliseconds to a valid \<open>DateTime\<close> gives a valid
  \<open>DateTime\<close> whose instant lies exactly that many milliseconds later, carries, month lengths and
  leap years included, whenever the result falls before the end of year 4294967295 and the number
  of days added leaves room for a day of year in 32 bits.
\<close>

theorem dt_add_correct:
  assumes "dt_valid dt" and "unat d < 4294966930"
    and "dt_total dt + (unat d * 86400000 + unat h * 3600000 + unat m * 60000 + unat s * 1000 + unat ms)
         < dt_limit"
  shows "\<exists>dt'. dt_add d h m s ms dt = Inr dt' \<and> dt_valid dt' \<and>
           dt_total dt' = dt_total dt +
             (unat d * 86400000 + unat h * 3600000 + unat m * 60000 + unat s * 1000 + unat ms)"
  using dt_add_eq [OF assms(1) _ assms(2), of h m s ms] assms(3) by (simp add: du_length_def)

lemma dt_add_correct_witness:
  "\<exists>dt'. dt_add 365 25 61 61 1001 dt_example = Inr dt' \<and> dt_valid dt' \<and> dt_total dt' = 63750247321000"
  using dt_add_correct [OF dt_example_valid, of 365 25 61 61 1001]
  by (simp add: dt_example_total dt_limit_def dt_end_eq)

text \<open>
  C25: Subtracting days, hours, minutes, seconds and milliseconds from a valid \<open>DateTime\<close> gives a
  valid \<open>DateTime\<close> whose instant lies exactly that many milliseconds earlier, whenever the result
  does not fall before the start of year 1.
\<close>

theorem dt_subtract_correct:
  assumes "dt_valid dt"
    and "unat d * 86400000 + unat h * 3600000 + unat m * 60000 + unat s * 1000 + unat ms \<le> dt_total dt"
  shows "\<exists>dt'. dt_subtract d h m s ms dt = Inr dt' \<and> dt_valid dt' \<and>
           dt_total dt' +
             (unat d * 86400000 + unat h * 3600000 + unat m * 60000 + unat s * 1000 + unat ms) = dt_total dt"
  using dt_subtract_eq [OF assms(1), of d h m s ms] assms(2) by (simp add: du_length_def)

lemma dt_subtract_correct_witness:
  "\<exists>dt'. dt_subtract 59 23 59 58 999 dt_example = Inr dt' \<and> dt_valid dt' \<and>
     dt_total dt' + 5183998999 = 63718617598999"
  using dt_subtract_correct [OF dt_example_valid, of 59 23 59 58 999]
  by (simp add: dt_example_total)

text \<open>
  For a valid \<open>DateTime\<close> and a normalised duration of either sign, \<open>subtract\<close> undoes \<open>add\<close>: the
  original object comes back, whenever the intermediate instant is one a \<open>DateTime\<close> can hold.
\<close>

lemma dt_duration_roundtrip:
  assumes "dt_valid dt" and "du_normal dur" and "unat (du_days dur) < 4294966930"
    and "0 \<le> int (dt_total dt) + du_signed dur" and "int (dt_total dt) + du_signed dur < int dt_limit"
  shows "bindE (dt_add_duration dur dt) (dt_subtract_duration dur) = Inr dt"
proof -
  let ?neg = "dur\<lparr>du_is_negative := \<not> du_is_negative dur\<rparr>"
  obtain d1 where d1: "dt_add_duration dur dt = Inr d1" "dt_valid d1"
    "int (dt_total d1) = int (dt_total dt) + du_signed dur"
    using dt_add_duration_eq [OF assms(1,3-5)] by blast
  obtain d2 where d2: "dt_add_duration ?neg d1 = Inr d2" "dt_valid d2" "dt_total d2 = dt_total dt"
    using dt_add_duration_eq [OF d1(2), of ?neg] d1(3) assms(3) dt_total_less_limit [OF assms(1)]
    by (auto simp: du_signed_flip)
  with dt_total_inject [OF d2(2) assms(1)] d1(1) show ?thesis
    by (simp add: dt_subtract_duration_add [OF assms(2)])
qed

lemma dt_duration_roundtrip_witness:
  "bindE (dt_add_duration (mkDuration 366 23 59 59 999 True) dt_example)
     (dt_subtract_duration (mkDuration 366 23 59 59 999 True)) = Inr dt_example"
proof (rule dt_duration_roundtrip [OF dt_example_valid mkDuration_normal])
  have "du_signed (mkDuration 366 23 59 59 999 True) = - 31708799999"
    by (simp add: du_signed_def mkDuration_total du_length_def du_wrap_def)
  then show "0 \<le> int (dt_total dt_example) + du_signed (mkDuration 366 23 59 59 999 True)"
    "int (dt_total dt_example) + du_signed (mkDuration 366 23 59 59 999 True) < int dt_limit"
    by (simp_all add: dt_example_total dt_limit_def dt_end_eq)
qed (simp add: mkDuration_in_range)

text \<open>
  In every unit, moving a valid \<open>DateTime\<close> forward and back by the same amount returns it, and so
  does moving it back and forward, as long as neither end leaves the years 1 to 4294967295.
\<close>

theorem dt_unit_roundtrips:
  assumes "dt_valid dt"
  shows "(dt_total dt + unat n < dt_limit \<longrightarrow>
            bindE (addMilliseconds n dt) (subtractMilliseconds n) = Inr dt) \<and>
         (dt_total dt + unat n * 1000 < dt_limit \<longrightarrow> bindE (addSeconds n dt) (subtractSeconds n) = Inr dt) \<and>
         (dt_total dt + unat n * 60000 < dt_limit \<longrightarrow> bindE (addMinutes n dt) (subtractMinutes n) = Inr dt) \<and>
         (dt_total dt + unat n * 3600000 < dt_limit \<longrightarrow> bindE (addHours n dt) (subtractHours n) = Inr dt) \<and>
         (unat n < 4294966930 \<and> dt_total dt + unat n * 86400000 < dt_limit \<longrightarrow>
            bindE (addDays n dt) (subtractDays n) = Inr dt) \<and>
         (unat n < 4294966930 \<and> unat n * 86400000 \<le> dt_total dt \<longrightarrow>
            bindE (subtractDays n dt) (addDays n) = Inr dt)"
  using dt_ms.sub_after_add [OF assms] dt_sec.sub_after_add [OF assms] dt_min.sub_after_add [OF assms]
    dt_hr.sub_after_add [OF assms] dt_day.sub_after_add [OF assms] dt_day.add_after_sub [OF assms]
  by (simp add: unat_u32_lt)

lemma dt_unit_roundtrips_witness:
  "bindE (addDays 365 dt_example) (subtractDays 365) = Inr dt_example \<and>
   bindE (addSeconds 365 dt_example) (subtractSeconds 365) = Inr dt_example"
  using dt_unit_roundtrips [OF dt_example_valid, of 365]
  by (simp add: dt_example_total dt_limit_def dt_end_eq)

text \<open>
  C29: From a valid object, with any 32-bit arguments at all, every modifying operation either returns a
  valid object or throws \<open>InvalidDateTimeException\<close>: the invariant of the class is kept and the
  month table is never read outside its bounds.
\<close>

theorem dt_operations_safe:
  assumes "dt_valid dt"
  shows "dt_safe (mkDateTime y mo d h mi s ms) \<and> dt_safe (setDate y mo d dt) \<and> dt_safe (setTime h mi s ms dt) \<and>
    dt_safe (dt_set_year n dt) \<and> dt_safe (dt_set_month n dt) \<and> dt_safe (dt_set_day n dt) \<and>
    dt_safe (dt_set_dayOfYear n dt) \<and> dt_safe (dt_set_hour n dt) \<and> dt_safe (dt_set_minute n dt) \<and>
    dt_safe (dt_set_second n dt) \<and> dt_safe (dt_set_millisecond n dt) \<and>
    dt_safe (addDays n dt) \<and> dt_safe (addHours n dt) \<and> dt_safe (addMinutes n dt) \<and>
    dt_safe (addSeconds n dt) \<and> dt_safe (addMilliseconds n dt) \<and>
    dt_safe (subtractDays n dt) \<and> dt_safe (subtractHours n dt) \<and> dt_safe (subtractMinutes n dt) \<and>
    dt_safe (subtractSeconds n dt) \<and> dt_safe (subtractMilliseconds n dt) \<and>
    dt_safe (dt_add_duration dur dt) \<and> dt_safe (dt_subtract_duration dur dt)"
  using assms
  by (simp add: mkDateTime_def dt_safe_setDateTime dt_safe_set_time dt_safe_set_year dt_safe_set_month
      dt_safe_set_day dt_safe_set_dayOfYear dt_safe_units dt_add_duration_def dt_subtract_duration_def
      dt_safe_add dt_safe_subtract)

lemma dt_operations_safe_witness:
  "dt_safe (addDays 4294967295 dt_example) \<and> dt_safe (dt_set_dayOfYear 0 dt_example)"
  using dt_operations_safe [OF dt_example_valid, of 0 0 0 0 0 0 0 4294967295]
    dt_operations_safe [OF dt_example_valid, of 0 0 0 0 0 0 0 0] by blast

lemma addDays_wrap_eq:
  assumes "dt_valid dt" and "4294967296 < dt_doy dt + unat n"
  shows "\<exists>dt'. addDays n dt = Inr dt' \<and> dt_valid dt' \<and> dt_days dt' + 4294967296 = dt_days dt + unat n"
proof -
  from assms(1) have date: "dt_date_valid dt" and time: "dt_time_valid dt" by (simp_all add: dt_valid_def)
  note doy = dt_doy_bounds [OF date]
  obtain r where r: "dt_dayOfYear dt = Inr r" "unat r = dt_doy dt" using dt_dayOfYear_valid [OF date] by blast
  have sum: "unat (r + n) + 4294967296 = dt_doy dt + unat n"
  proof -
    have "unat n < 4294967296" by simp
    with assms(2) r(2) doy(3) have lt: "unat r + unat n - 4294967296 < 4294967296" by linarith
    have "unat (r + n) = (unat r + unat n) mod 4294967296" by (rule unat_u32_plus)
    also have "\<dots> = unat r + unat n - 4294967296" using assms(2) r(2) lt by (simp add: le_mod_geq)
    finally show ?thesis using assms(2) r(2) by simp
  qed
  then have le: "1 \<le> unat (r + n)" "unat (r + n) \<le> year_len (unat (dt_year dt))"
    using assms(2) doy unat_u32_lt [of n] by linarith+
  have "dt_year dt \<noteq> 0" using date by (auto simp: dt_date_valid_def valid_date_def)
  from dt_move_eq [OF this le time] le sum r(1) dt_days_Suc [OF date] assms(1) doy(1) show ?thesis
    by (auto simp: addDays_def addDays_loop.simps u32_less_iff not_less)
qed

text \<open>
  C33: A large number of days overflows the 32-bit day of year in \<open>addDays\<close>: when the day of year plus
  the number of days exceeds 4294967296, the object returned lies earlier than the one started
  from, 4294967296 days short of the right answer, and no exception is thrown.
\<close>

theorem addDays_overflow_goes_back:
  assumes "dt_valid dt" and "4294967296 < dt_doy dt + unat n"
  shows "\<exists>dt'. addDays n dt = Inr dt' \<and> dt_valid dt' \<and> dt_days dt' + 4294967296 = dt_days dt + unat n \<and>
           dt_days dt' < dt_days dt"
proof -
  obtain dt' where dt': "addDays n dt = Inr dt'" "dt_valid dt'" "dt_days dt' + 4294967296 = dt_days dt + unat n"
    using addDays_wrap_eq [OF assms] by blast
  moreover have "unat n < 4294967296" by simp
  ultimately have "dt_days dt' < dt_days dt" by linarith
  with dt' show ?thesis by blast
qed

lemma addDays_overflow_goes_back_witness:
  "\<exists>dt'. addDays 4294967295 dt_example = Inr dt' \<and> dt_days dt' + 1 = dt_days dt_example"
proof -
  have "before_month True 2 = 31"
    using before_month_Suc [of "Suc 0" True] by (simp add: month_len_def numeral_2_eq_2)
  then have "dt_doy dt_example = 60" by (simp add: dt_doy_def dt_example_def leap_def)
  then show ?thesis using addDays_overflow_goes_back [OF dt_example_valid, of 4294967295] by auto
qed

end
