(* ===== verification/DT_Between.thy ===== *)
theory DT_Between
  imports DT_Arith
begin

text \<open>
  The rest of class \<open>DateTime\<close>: \<open>timeBetween\<close>, the printed form of a date, and the conversions from
  and to the C library's \<open>tm\<close> and \<open>time_t\<close>. The library's \<open>localtime\<close>, \<open>gmtime\<close>, \<open>mktime\<close>, \<open>time\<close> and
  \<open>difftime\<close> are parameters. \<open>timeBetween\<close> is exact for two dates of one year; across years the
  theorem gives the value it really computes.
\<close>

section \<open>timeBetween\<close>

definition MS_PER_SEC :: u64 where "MS_PER_SEC = 1000"
definition MS_PER_MINUTE :: u64 where "MS_PER_MINUTE = MS_PER_SEC * 60"
definition MS_PER_HOUR :: u64 where "MS_PER_HOUR = MS_PER_MINUTE * 60"
definition MS_PER_DAY :: u64 where "MS_PER_DAY = MS_PER_HOUR * 24"

lemmas MS_PER_defs = MS_PER_SEC_def MS_PER_MINUTE_def MS_PER_HOUR_def MS_PER_DAY_def

definition day_ms :: "datetime \<Rightarrow> u64" where
  "day_ms dt = ucast (dt_hour dt) * MS_PER_HOUR + ucast (dt_minute dt) * MS_PER_MINUTE
     + ucast (dt_second dt) * MS_PER_SEC + ucast (dt_millisecond dt)"

function years_loop :: "u32 \<Rightarrow> u32 \<Rightarrow> u32 \<Rightarrow> u32 \<Rightarrow> u32 \<Rightarrow> u32 \<Rightarrow> u32 \<times> u32" where
  "years_loop year dayOfYear stop_year current_year total_days current_day =
     (if current_year > stop_year
      then years_loop year dayOfYear stop_year (current_year - 1)
             (total_days + (if current_year = year then dayOfYear else ucast (daysInYear current_year)))
             dayOfYear
      else (total_days, current_day))"
  by pat_completeness auto
termination
  by (relation "measure (\<lambda>(y, d, s, c, t, cd). unat c)")
    (auto dest: u32_dec_below)

function days_loop :: "u32 \<Rightarrow> u32 \<Rightarrow> u32 \<Rightarrow> u32" where
  "days_loop stop_day current_day total_days =
     (if current_day > stop_day then days_loop stop_day (current_day - 1) (total_days + 1) else total_days)"
  by pat_completeness auto
termination
  by (relation "measure (\<lambda>(s, c, t). unat c)") (auto dest: u32_dec_below)

declare years_loop.simps [simp del] days_loop.simps [simp del]

lemma dt_greater_asym: "dt_greater a b \<Longrightarrow> \<not> dt_greater b a"
  by (auto simp: dt_greater_def dt_compare_def split: if_splits)

function timeBetween :: "datetime \<Rightarrow> datetime \<Rightarrow> dt_error + duration" where
  "timeBetween dt rhs =
     (if dt_eq rhs dt then Inr (mkDuration 0 0 0 0 0 False)
      else if dt_greater rhs dt
      then bindE (timeBetween rhs dt) (\<lambda>dur. Inr (du_set_isNegative True dur))
      else
        let ms = day_ms dt; rhs_ms = day_ms rhs in
        bindE mkDateTime_default (\<lambda>stop.
        bindE (if rhs_ms > ms
               then bindE (dt_add 1 0 0 0 0 rhs) (\<lambda>r. bindE (dt_assign r stop) (\<lambda>stop.
                      Inr (stop, MS_PER_DAY - (rhs_ms - ms))))
               else bindE (dt_assign rhs stop) (\<lambda>stop. Inr (stop, ms - rhs_ms)))
          (\<lambda>(stop, total_ms).
        let hours = ucast (total_ms div MS_PER_HOUR) :: u32;
            total_ms = total_ms mod MS_PER_HOUR;
            minutes = ucast (total_ms div MS_PER_MINUTE) :: u32;
            total_ms = total_ms mod MS_PER_MINUTE;
            seconds = ucast (total_ms div MS_PER_SEC) :: u32;
            total_ms = total_ms mod MS_PER_SEC;
            milliseconds = ucast total_ms :: u32
        in bindE (dt_dayOfYear dt) (\<lambda>doy.
           let (total_days, current_day) = years_loop (dt_year dt) doy (dt_year stop) (dt_year dt) 0 doy
           in bindE (dt_dayOfYear stop) (\<lambda>stop_doy.
              Inr (mkDuration (days_loop stop_doy current_day total_days) hours minutes seconds
                     milliseconds False))))))"
  by pat_completeness auto
termination
  by (relation "measure (\<lambda>(a, b). if dt_greater b a then 1 else 0)") (auto dest: dt_greater_asym)

declare timeBetween.simps [simp del]

section \<open>Printing and the C library\<close>

text \<open>
  The seconds are printed as a double with three decimals: for a valid object (below 60 seconds and
  1000 milliseconds) that is the two numbers themselves.
\<close>

definition dt_print :: "datetime \<Rightarrow> string" where
  "dt_print ddt =
     pad 2 CHR ''0'' (show_u32 (dt_month ddt)) @ ''/'' @ pad 2 CHR ''0'' (show_u32 (dt_day ddt)) @ ''/'' @
     show_u32 (dt_year ddt) @ '' '' @ pad 2 CHR ''0'' (show_u32 (dt_hour ddt)) @ '':'' @
     pad 2 CHR ''0'' (show_u32 (dt_minute ddt)) @ '':'' @
     pad 6 CHR ''0'' (show_u32 (dt_second ddt) @ ''.'' @ pad 3 CHR ''0'' (show_u32 (dt_millisecond ddt)))"

record ctm =
  tm_sec :: int
  tm_min :: int
  tm_hour :: int
  tm_mday :: int
  tm_mon :: int
  tm_year :: int
  tm_isdst :: int

definition mkDateTime_tm :: "ctm \<Rightarrow> dt_error + datetime" where
  "mkDateTime_tm t =
     mkDateTime (word_of_int (tm_year t + 1900)) (word_of_int (tm_mon t + 1)) (word_of_int (tm_mday t))
       (word_of_int (tm_hour t)) (word_of_int (tm_min t)) (word_of_int (tm_sec t)) 0"

definition mkDateTime_time :: "('t \<Rightarrow> ctm) \<Rightarrow> 't \<Rightarrow> dt_error + datetime" where
  "mkDateTime_time c_localtime time = mkDateTime_tm (c_localtime time)"

text \<open>\<open>tm_isdst\<close> is not assigned: \<open>junk\<close> is what the stack holds.\<close>

definition dt_tm :: "int \<Rightarrow> datetime \<Rightarrow> ctm" where
  "dt_tm junk dt =
     \<lparr>tm_sec = sint (dt_second dt), tm_min = sint (dt_minute dt), tm_hour = sint (dt_hour dt),
      tm_mday = sint (dt_day dt), tm_mon = sint (dt_month dt - 1), tm_year = sint (dt_year dt - 1900),
      tm_isdst = junk\<rparr>"

definition dt_mktime :: "(ctm \<Rightarrow> 't) \<Rightarrow> int \<Rightarrow> datetime \<Rightarrow> 't" where
  "dt_mktime c_mktime junk dt = c_mktime (dt_tm junk dt)"

definition dt_difftime :: "(ctm \<Rightarrow> 't) \<Rightarrow> ('t \<Rightarrow> 't \<Rightarrow> 'r) \<Rightarrow> int \<Rightarrow> int \<Rightarrow> datetime \<Rightarrow> datetime \<Rightarrow> 'r" where
  "dt_difftime c_mktime c_difftime junk1 junk2 dt rhs =
     c_difftime (dt_mktime c_mktime junk1 dt) (dt_mktime c_mktime junk2 rhs)"

definition dt_now :: "('t \<Rightarrow> ctm) \<Rightarrow> 't \<Rightarrow> dt_error + datetime" where
  "dt_now c_localtime clock = mkDateTime_tm (c_localtime clock)"

definition dt_now_utc :: "('t \<Rightarrow> ctm) \<Rightarrow> 't \<Rightarrow> dt_error + datetime" where
  "dt_now_utc c_gmtime clock = mkDateTime_tm (c_gmtime clock)"

section \<open>What timeBetween computes\<close>

lemma days_loop_eq:
  "days_loop s c t = t + of_nat (unat c - unat s)"
proof (induction s c t rule: days_loop.induct)
  case (1 s c t)
  show ?case
  proof (cases "s < c")
    case True
    then obtain k where k: "unat c - unat s = Suc k" "unat (c - 1) - unat s = k"
      using u32_dec_below [OF True] by (cases "unat c - unat s") (auto simp: u32_less_iff)
    have "days_loop s c t = days_loop s (c - 1) (t + 1)" using True by (simp add: days_loop.simps)
    with 1 [OF True] k show ?thesis by simp
  qed (simp add: days_loop.simps u32_less_iff)
qed

lemma ucast_daysInYear: "ucast (daysInYear c) = (of_nat (year_len (unat c)) :: u32)"
  by (simp add: daysInYear_def year_len_def isLeapYear_leap)

lemma years_loop_below:
  assumes "unat s \<le> unat c" and "unat c < unat y"
  shows "years_loop y doy s c t cd =
    (t + of_nat (days_before (Suc (unat c)) - days_before (Suc (unat s))), if s < c then doy else cd)"
  using assms
proof (induction y doy s c t cd rule: years_loop.induct)
  case (1 y doy s c t cd)
  show ?case
  proof (cases "s < c")
    case True
    then have less: "unat s < unat c" by (simp add: u32_less_iff)
    then obtain k where k: "unat c = Suc k" "unat s \<le> k" by (cases "unat c") auto
    then have dec: "unat (c - 1) = k" using u32_dec_below [OF True] by simp
    have ne: "c \<noteq> y" using "1.prems" by auto
    have mono: "days_before (Suc (unat s)) \<le> days_before (Suc k)" using k by (intro days_before_mono) simp
    have "years_loop y doy s c t cd = years_loop y doy s (c - 1) (t + ucast (daysInYear c)) doy"
      using True ne by (simp add: years_loop.simps)
    also have "\<dots> = (t + ucast (daysInYear c) + of_nat (days_before (Suc k) - days_before (Suc (unat s))), doy)"
      using "1.IH" [OF True] ne "1.prems" dec k by (simp split: if_splits)
    also have "\<dots> = (t + of_nat (days_before (Suc (unat c)) - days_before (Suc (unat s))), doy)"
      using mono days_before_Suc [of "Suc k"]
      by (simp add: ucast_daysInYear k(1) of_nat_diff)
    finally show ?thesis using True by simp
  next
    case False
    with "1.prems" have "c = s" by (simp add: u32_less_iff u32_eq_iff)
    then show ?thesis by (simp add: years_loop.simps)
  qed
qed

lemma years_loop_eq:
  assumes "unat s \<le> unat y"
  shows "years_loop y doy s y 0 doy =
    (if s < y then doy + of_nat (days_before (unat y) - days_before (Suc (unat s))) else 0, doy)"
proof (cases "s < y")
  case True
  then have less: "unat s < unat y" by (simp add: u32_less_iff)
  then obtain k where k: "unat y = Suc k" "unat s \<le> k" by (cases "unat y") auto
  then have dec: "unat (y - 1) = k" using u32_dec_below [OF True] by simp
  have "years_loop y doy s y 0 doy = years_loop y doy s (y - 1) doy doy"
    using True by (simp add: years_loop.simps)
  also have "\<dots> = (doy + of_nat (days_before (unat y) - days_before (Suc (unat s))), doy)"
    using years_loop_below [of s "y - 1" y] k dec by (simp split: if_splits)
  finally show ?thesis using True by simp
qed (simp add: years_loop.simps)

definition day_nat :: "datetime \<Rightarrow> nat" where
  "day_nat dt = ms_total 0 (unat (dt_hour dt)) (unat (dt_minute dt)) (unat (dt_second dt)) (unat (dt_millisecond dt))"

lemma dt_total_day: "dt_total dt = dt_days dt * 86400000 + day_nat dt"
  by (simp add: dt_total_def day_nat_def ms_total_def)

lemma day_nat_less: "dt_valid dt \<Longrightarrow> day_nat dt < 86400000"
  unfolding day_nat_def using ms_total_less [where d = 0 and n = 1] by (simp add: dt_valid_defs)

lemma unat_ucast_u64 [simp]: "unat (ucast (w :: u32) :: u64) = unat w"
proof -
  have "unat w < 18446744073709551616" using unat_u32_lt [of w] by linarith
  then show ?thesis by (simp add: unsigned_ucast_eq unsigned_take_bit_eq take_bit_nat_eq_self)
qed

lemma unat_day_ms:
  assumes "dt_valid dt"
  shows "unat (day_ms dt) = day_nat dt"
proof -
  have bounds: "unat (dt_hour dt) < 24" "unat (dt_minute dt) < 60" "unat (dt_second dt) < 60"
    "unat (dt_millisecond dt) < 1000" using assms by (simp_all add: dt_valid_defs)
  let ?n = "unat (dt_hour dt) * 3600000 + unat (dt_minute dt) * 60000 + unat (dt_second dt) * 1000
    + unat (dt_millisecond dt)"
  have "day_ms dt = of_nat ?n"
    by (simp add: day_ms_def MS_PER_defs)
  moreover have "?n < 2 ^ LENGTH(64)" using bounds by simp
  ultimately have "unat (day_ms dt) = ?n" by (simp only: unsigned_of_nat take_bit_nat_eq_self of_nat_id)
  then show ?thesis by (simp add: day_nat_def ms_total_def)
qed

lemma u64_order: "(x :: u64) < y \<longleftrightarrow> unat x < unat y"
  by (rule word_less_nat_alt)

lemma split_ms:
  assumes "unat (t :: u64) < 86400000"
  shows "unat (ucast (t div MS_PER_HOUR) :: u32) * 3600000
       + unat (ucast (t mod MS_PER_HOUR div MS_PER_MINUTE) :: u32) * 60000
       + unat (ucast (t mod MS_PER_HOUR mod MS_PER_MINUTE div MS_PER_SEC) :: u32) * 1000
       + unat (ucast (t mod MS_PER_HOUR mod MS_PER_MINUTE mod MS_PER_SEC) :: u32) = unat t" (is ?sum)
    and "unat (ucast (t div MS_PER_HOUR) :: u32) < 24"
    and "unat (ucast (t mod MS_PER_HOUR div MS_PER_MINUTE) :: u32) < 60"
    and "unat (ucast (t mod MS_PER_HOUR mod MS_PER_MINUTE div MS_PER_SEC) :: u32) < 60"
    and "unat (ucast (t mod MS_PER_HOUR mod MS_PER_MINUTE mod MS_PER_SEC) :: u32) < 1000"
proof -
  have cast: "unat (ucast (w :: u64) :: u32) = unat w" if "unat w < 4294967296" for w
    using that by (simp add: unsigned_ucast_eq unsigned_take_bit_eq take_bit_nat_eq_self)
  have unit_vals: "unat MS_PER_HOUR = 3600000" "unat MS_PER_MINUTE = 60000" "unat MS_PER_SEC = 1000"
    by (simp_all add: MS_PER_defs)
  define n where "n = unat t"
  have n: "n < 86400000" using assms by (simp add: n_def)
  have 1: "n div 3600000 < 24" using n by (simp add: div_less_iff_less_mult)
  have 2: "n mod 3600000 div 60000 < 60"
    using mod_less_divisor [of 3600000 n] by (simp add: div_less_iff_less_mult)
  have 3: "n mod 3600000 mod 60000 div 1000 < 60"
    using mod_less_divisor [of 60000 "n mod 3600000"] by (simp add: div_less_iff_less_mult)
  have 4: "n mod 3600000 mod 60000 mod 1000 < 1000" by simp
  have vals: "unat (ucast (t div MS_PER_HOUR) :: u32) = n div 3600000"
    "unat (ucast (t mod MS_PER_HOUR div MS_PER_MINUTE) :: u32) = n mod 3600000 div 60000"
    "unat (ucast (t mod MS_PER_HOUR mod MS_PER_MINUTE div MS_PER_SEC) :: u32) = n mod 3600000 mod 60000 div 1000"
    "unat (ucast (t mod MS_PER_HOUR mod MS_PER_MINUTE mod MS_PER_SEC) :: u32) = n mod 3600000 mod 60000 mod 1000"
    by (subst cast; use 1 2 3 4 in \<open>simp add: unat_div unat_mod unit_vals n_def [symmetric]\<close>)+
  show "unat (ucast (t div MS_PER_HOUR) :: u32) < 24"
    "unat (ucast (t mod MS_PER_HOUR div MS_PER_MINUTE) :: u32) < 60"
    "unat (ucast (t mod MS_PER_HOUR mod MS_PER_MINUTE div MS_PER_SEC) :: u32) < 60"
    "unat (ucast (t mod MS_PER_HOUR mod MS_PER_MINUTE mod MS_PER_SEC) :: u32) < 1000"
    unfolding vals by (rule 1 2 3 4)+
  show ?sum
    unfolding vals n_def [symmetric]
    using div_mult_mod_eq [of n 3600000] div_mult_mod_eq [of "n mod 3600000" 60000]
      div_mult_mod_eq [of "n mod 3600000 mod 60000" 1000] by linarith
qed

lemma dt_add_one_day:
  assumes "dt_valid b" and "dt_days b < dt_days a" and "dt_valid a"
  shows "\<exists>stop. dt_add 1 0 0 0 0 b = Inr stop \<and> dt_valid stop \<and> dt_days stop = Suc (dt_days b)"
proof -
  have "dt_days a * 86400000 < dt_end * 86400000"
    using dt_total_less_limit [OF assms(3)] unfolding dt_total_day dt_limit_def by linarith
  then have "Suc (Suc (dt_days b)) \<le> dt_end" using assms(2) by simp
  then have "dt_total b + 86400000 < dt_limit"
    using day_nat_less [OF assms(1)] unfolding dt_total_day dt_limit_def by linarith
  then obtain stop where stop: "dt_add 1 0 0 0 0 b = Inr stop" "dt_valid stop"
    "dt_total stop = dt_total b + 86400000"
    using dt_add_eq [OF assms(1), of 1 0 0 0 0] by (auto simp: du_length_def)
  have "dt_days stop = Suc (dt_days b)"
    using stop(3) day_nat_less [OF stop(2)] day_nat_less [OF assms(1)] unfolding dt_total_day by linarith
  with stop show ?thesis by blast
qed

text \<open>
  \<open>between_days a stop\<close> is the number of days the two loops count, and \<open>between_stop a b\<close> the day they
  count to.
\<close>

definition between_days :: "datetime \<Rightarrow> datetime \<Rightarrow> nat" where
  "between_days a stop =
     (if dt_year stop < dt_year a
      then dt_doy a + (days_before (unat (dt_year a)) - days_before (Suc (unat (dt_year stop)))) else 0)
     + (dt_doy a - dt_doy stop)"

definition is_stop :: "datetime \<Rightarrow> datetime \<Rightarrow> datetime \<Rightarrow> bool" where
  "is_stop a b stop \<longleftrightarrow> dt_valid stop \<and> dt_days stop = dt_days b + (if day_nat a < day_nat b then 1 else 0)"

lemma between_loops:
  assumes "dt_valid a" and "dt_valid stop" and "dt_days stop \<le> dt_days a"
    and r: "dt_dayOfYear a = Inr doy" and q: "dt_dayOfYear stop = Inr stop_doy"
  shows "(case years_loop (dt_year a) doy (dt_year stop) (dt_year a) 0 doy of
           (t, c) \<Rightarrow> days_loop stop_doy c t) = of_nat (between_days a stop)"
proof -
  have vals: "unat doy = dt_doy a" "unat stop_doy = dt_doy stop"
    using dt_dayOfYear_valid [of a] dt_dayOfYear_valid [of stop] assms by (auto simp: dt_valid_def)
  have "unat (dt_year stop) \<le> unat (dt_year a)"
    using dt_days_less_iff(1) [of a stop] assms(1-3) by (auto simp: dt_valid_def u32_less_iff not_less)
  from years_loop_eq [OF this, of doy] vals show ?thesis
    using word_of_nat_eq_iff
    by (auto simp: days_loop_eq between_days_def algebra_simps simp flip: vals)
qed

lemma timeBetween_later:
  assumes a: "dt_valid a" and b: "dt_valid b" and less: "dt_total b < dt_total a"
  shows "\<exists>stop dur. timeBetween a b = Inr dur \<and> is_stop a b stop \<and> dt_days stop \<le> dt_days a \<and>
    du_normal dur \<and> \<not> du_is_negative dur \<and> du_days dur = of_nat (between_days a stop) \<and>
    du_total dur + dt_days a * 86400000 + dt_total b
      = unat (du_days dur) * 86400000 + dt_days stop * 86400000 + dt_total a"
proof -
  define T where "T = (if day_ms b > day_ms a then MS_PER_DAY - (day_ms b - day_ms a) else day_ms a - day_ms b)"
  note ms = unat_day_ms [OF a] unat_day_ms [OF b] day_nat_less [OF a] day_nat_less [OF b]
  have D: "unat MS_PER_DAY = 86400000" by (simp add: MS_PER_defs)
  have T: "unat T = (if day_nat a < day_nat b then 86400000 + day_nat a - day_nat b else day_nat a - day_nat b)"
    using ms D by (auto simp: T_def u64_order unat_sub word_le_nat_alt)
  then have T_less: "unat T < 86400000" using ms by auto
  have neq: "\<not> dt_eq b a" "\<not> dt_greater b a"
    using dt_compare_total [OF b a] less by (auto simp: dt_eq_def dt_greater_def sgn_if)
  have default: "mkDateTime_default = Inr \<lparr>dt_year = 1970, dt_month = 1, dt_day = 1, dt_hour = 0,
      dt_minute = 0, dt_second = 0, dt_millisecond = 0\<rparr>"
    by (simp add: mkDateTime_default_def mkDateTime_def setDateTime_eq dt_valid_defs valid_date_def month_len_def)
  obtain stop where stop: "is_stop a b stop" "dt_days stop \<le> dt_days a"
    "(if day_ms b > day_ms a
      then bindE (dt_add 1 0 0 0 0 b) (\<lambda>r. bindE (dt_assign r d) (\<lambda>stop.
                      Inr (stop, MS_PER_DAY - (day_ms b - day_ms a))))
      else bindE (dt_assign b d) (\<lambda>stop. Inr (stop, day_ms a - day_ms b))) = Inr (stop, T)" for d
  proof (cases "day_nat a < day_nat b")
    case True
    then have "dt_days b < dt_days a" using less unfolding dt_total_day by linarith
    with dt_add_one_day [OF b this a] True ms that show ?thesis
      by (auto simp: T_def is_stop_def u64_order)
  next
    case False
    then have "dt_days b \<le> dt_days a" using less ms unfolding dt_total_day by linarith
    with False b ms that show ?thesis by (auto simp: T_def is_stop_def u64_order)
  qed
  obtain doy stop_doy where doy: "dt_dayOfYear a = Inr doy" "dt_dayOfYear stop = Inr stop_doy"
    using dt_dayOfYear_valid a stop(1) by (fastforce simp: dt_valid_def is_stop_def)
  let ?dur = "mkDuration (of_nat (between_days a stop)) (ucast (T div MS_PER_HOUR))
    (ucast (T mod MS_PER_HOUR div MS_PER_MINUTE)) (ucast (T mod MS_PER_HOUR mod MS_PER_MINUTE div MS_PER_SEC))
    (ucast (T mod MS_PER_HOUR mod MS_PER_MINUTE mod MS_PER_SEC)) False"
  have "timeBetween a b = Inr ?dur"
    using between_loops [OF a _ stop(2) doy] stop(1) neq
    by (simp add: timeBetween.simps [of a b] default stop(3) doy Let_def is_stop_def split: prod.splits)
  moreover have "du_days ?dur = of_nat (between_days a stop)"
    "du_total ?dur = unat (du_days ?dur) * 86400000 + unat T"
    using split_ms [OF T_less] by (simp_all add: mkDuration_in_range du_total_defs)
  moreover have "unat T + dt_days a * 86400000 + dt_total b = dt_days stop * 86400000 + dt_total a"
    using T stop(1) ms(3,4) by (auto simp: dt_total_day is_stop_def split: if_splits)
  ultimately show ?thesis using stop by (intro exI [of _ stop] exI [of _ ?dur]) simp
qed

lemma dt_date_same:
  assumes "dt_date_valid a" and "dt_date_valid b" and "dt_days a = dt_days b"
  shows "dt_year a = dt_year b" and "dt_doy a = dt_doy b"
  using assms dt_days_less_iff(2) [OF assms(1,2)] by (simp_all add: dt_doy_def)

lemma dt_year_mono:
  assumes "dt_date_valid a" and "dt_date_valid b" and "dt_days a \<le> dt_days b"
  shows "unat (dt_year a) \<le> unat (dt_year b)"
  using assms dt_days_less_iff(1) [OF assms(2,1)] by (auto simp: u32_less_iff not_less)

lemma timeBetween_later_same_year:
  assumes a: "dt_valid a" and b: "dt_valid b" and less: "dt_total b < dt_total a"
    and year: "dt_year a = dt_year b"
  shows "\<exists>dur. timeBetween a b = Inr dur \<and> du_normal dur \<and> \<not> du_is_negative dur \<and>
    du_total dur + dt_total b = dt_total a"
proof -
  obtain stop dur where r: "timeBetween a b = Inr dur" "is_stop a b stop" "dt_days stop \<le> dt_days a"
    "du_normal dur" "\<not> du_is_negative dur" "du_days dur = of_nat (between_days a stop)"
    "du_total dur + dt_days a * 86400000 + dt_total b = unat (du_days dur) * 86400000 + dt_days stop * 86400000 + dt_total a"
    using timeBetween_later [OF a b less] by blast
  have dates: "dt_date_valid a" "dt_date_valid b" "dt_date_valid stop"
    using a b r(2) by (simp_all add: dt_valid_def is_stop_def)
  have "dt_year stop = dt_year a"
    using dt_year_mono [OF dates(2,3)] dt_year_mono [OF dates(3,1) r(3)] r(2) year
    by (simp add: is_stop_def u32_eq_iff)
  then have "between_days a stop = dt_days a - dt_days stop" "between_days a stop \<le> 366"
    using dt_doy_bounds(1,3) [OF dates(1)] dt_doy_bounds(1) [OF dates(3)]
    by (simp_all add: between_days_def dt_days_def)
  then have "unat (du_days dur) = dt_days a - dt_days stop"
    by (simp add: r(6) unsigned_of_nat take_bit_nat_eq_self)
  with r(3,7) have "du_total dur + dt_total b = dt_total a" by (simp add: diff_mult_distrib)
  with r show ?thesis by blast
qed

lemma timeBetween_swap:
  assumes "dt_valid a" and "dt_valid b" and "dt_total a < dt_total b"
  shows "timeBetween a b = bindE (timeBetween b a) (\<lambda>dur. Inr (du_set_isNegative True dur))"
  using dt_compare_total [OF assms(2,1)] assms(3)
  by (simp add: timeBetween.simps [of a b] dt_eq_def dt_greater_def)

lemma du_sign_update [simp]:
  "du_normal (d\<lparr>du_is_negative := n\<rparr>) = du_normal d" "du_total (d\<lparr>du_is_negative := n\<rparr>) = du_total d"
  by (simp_all add: du_normal_def du_total_defs)

lemma dt_same_year_days:
  assumes "dt_valid a" and "dt_valid b" and "dt_year a = dt_year b" and "du_total d + dt_total b = dt_total a"
  shows "unat (du_days d) < 4294966930"
proof -
  have dates: "dt_date_valid a" "dt_date_valid b" using assms(1,2) by (simp_all add: dt_valid_def)
  have "dt_days a \<le> dt_days b + 366"
    using dt_doy_bounds [OF dates(1)] dt_doy_bounds [OF dates(2)] assms(3) by (simp add: dt_days_def)
  moreover have "unat (du_days d) * 86400000 \<le> du_total d" by (simp add: du_total_defs)
  ultimately have "unat (du_days d) * 86400000 < 367 * 86400000"
    using assms(4) day_nat_less [OF assms(1)] unfolding dt_total_day by linarith
  then show ?thesis by simp
qed

section \<open>Properties\<close>

text \<open>
  For two valid objects of the same year, in either order, \<open>timeBetween\<close> returns a normalised
  duration of exactly the signed distance between the two instants; adding it to the second
  object gives the first.
\<close>

lemma timeBetween_same_year:
  assumes "dt_valid a" and "dt_valid b" and "dt_year a = dt_year b"
  shows "\<exists>dur. timeBetween a b = Inr dur \<and> du_normal dur \<and>
           du_signed dur = int (dt_total a) - int (dt_total b) \<and> dt_add_duration dur b = Inr a"
proof -
  obtain dur where dur: "timeBetween a b = Inr dur" "du_normal dur"
    "du_signed dur = int (dt_total a) - int (dt_total b)" "unat (du_days dur) < 4294966930"
  proof (cases "dt_total a" "dt_total b" rule: linorder_cases)
    case less
    obtain d where d: "timeBetween b a = Inr d" "du_normal d" "\<not> du_is_negative d" "du_total d + dt_total a = dt_total b"
      using timeBetween_later_same_year [OF assms(2,1) less] assms(3) by auto
    show ?thesis
      by (rule that [of "d\<lparr>du_is_negative := True\<rparr>"])
        (use d timeBetween_swap [OF assms(1,2) less] dt_same_year_days [OF assms(2,1) assms(3) [symmetric] d(4)] in
          \<open>simp_all add: du_set_isNegative_def du_signed_def\<close>)
  next
    case equal
    then have "a = b" using dt_total_inject [OF assms(1,2)] by blast
    then have "timeBetween a b = Inr (mkDuration 0 0 0 0 0 False)"
      by (simp add: timeBetween.simps [of b b] dt_eq_def dt_compare_def)
    moreover have "du_days (mkDuration 0 0 0 0 0 False) = 0" by (simp add: mkDuration_in_range)
    ultimately show ?thesis
      using that [of "mkDuration 0 0 0 0 0 False"] equal by (simp add: du_signed_def mkDuration_total du_length_def)
  next
    case greater
    obtain d where d: "timeBetween a b = Inr d" "du_normal d" "\<not> du_is_negative d" "du_total d + dt_total b = dt_total a"
      using timeBetween_later_same_year [OF assms(1,2) greater assms(3)] by auto
    with that [of d] dt_same_year_days [OF assms d(4)] show ?thesis
      by (simp add: du_signed_def)
  qed
  obtain c where "dt_add_duration dur b = Inr c" "dt_valid c" "dt_total c = dt_total a"
    using dt_add_duration_eq [OF assms(2) dur(4)] dur(3) dt_total_less_limit [OF assms(1)] by auto
  with dt_total_inject [OF _ assms(1)] dur show ?thesis by blast
qed

lemma timeBetween_same_year_witness:
  "\<exists>dur. timeBetween dt_epoch (dt_epoch\<lparr>dt_hour := 23\<rparr>) = Inr dur \<and> du_signed dur < 0"
proof -
  have "dt_total dt_epoch < dt_total (dt_epoch\<lparr>dt_hour := 23\<rparr>)"
    by (simp add: dt_total_day day_nat_def ms_total_def dt_days_def dt_doy_def dt_epoch_def)
  then show ?thesis
    using timeBetween_same_year [OF dt_epoch_valid] by (auto simp: dt_epoch_def)
qed

text \<open>
  C31: Across years \<open>timeBetween\<close> does not return the distance: with \<open>b\<close> in an earlier year and no later
  in the day than \<open>a\<close>, the days left in the year of \<open>b\<close> after \<open>b\<close> are missing from the result, and
  the days by which the day of year of \<open>a\<close> exceeds that of \<open>b\<close> are counted in their place.
\<close>

theorem timeBetween_across_years:
  assumes "dt_valid a" and "dt_valid b" and "dt_year b < dt_year a" and "dt_days a < 4294966930"
    and "day_nat b \<le> day_nat a"
  shows "\<exists>dur. timeBetween a b = Inr dur \<and> \<not> du_is_negative dur \<and>
           du_total dur + (year_len (unat (dt_year b)) - dt_doy b) * 86400000
             = (dt_total a - dt_total b) + (dt_doy a - dt_doy b) * 86400000"
proof -
  have dates: "dt_date_valid a" "dt_date_valid b" using assms(1,2) by (simp_all add: dt_valid_def)
  have less: "dt_days b < dt_days a" using dt_days_less_iff(1) [OF dates(2,1)] assms(3) by simp
  then have total: "dt_total b < dt_total a" using assms(5) unfolding dt_total_day by linarith
  obtain stop dur where r: "timeBetween a b = Inr dur" "is_stop a b stop" "\<not> du_is_negative dur"
    "du_days dur = of_nat (between_days a stop)"
    "du_total dur + dt_days a * 86400000 + dt_total b = unat (du_days dur) * 86400000 + dt_days stop * 86400000 + dt_total a"
    using timeBetween_later [OF assms(1,2) total] by blast
  have stop: "dt_days stop = dt_days b" "dt_date_valid stop"
    using r(2) assms(5) by (simp_all add: is_stop_def dt_valid_def)
  note same = dt_date_same [OF stop(2) dates(2) stop(1)]
  define ya yb where "ya = unat (dt_year a)" and "yb = unat (dt_year b)"
  have yb: "1 \<le> yb" "Suc yb \<le> ya"
    using dates(2) assms(3) by (simp_all add: ya_def yb_def dt_date_valid_def valid_date_def u32_less_iff)
  have len: "days_before (Suc yb) = days_before yb + year_len yb" using yb by (simp add: days_before_Suc)
  have mono: "days_before (Suc yb) \<le> days_before ya" using yb(2) by (rule days_before_mono)
  note bounds = dt_doy_bounds [OF dates(1)] dt_doy_bounds [OF dates(2)]
  have days: "Suc (dt_days a) = days_before ya + dt_doy a" "Suc (dt_days b) = days_before yb + dt_doy b"
    using dt_days_Suc dates by (simp_all add: ya_def yb_def)
  have count: "between_days a stop = dt_doy a + (days_before ya - days_before (Suc yb)) + (dt_doy a - dt_doy b)"
    using assms(3) same by (simp add: between_days_def ya_def yb_def)
  have "between_days a stop \<le> dt_days a + 366"
    using count days bounds mono by simp
  then have "between_days a stop < 4294967296" using assms(4) by simp
  then have "unat (du_days dur) = between_days a stop"
    by (simp add: r(4) unsigned_of_nat take_bit_nat_eq_self)
  moreover have "between_days a stop + (year_len yb - dt_doy b) + dt_days b = dt_days a + (dt_doy a - dt_doy b)"
    using count days bounds mono len by (simp add: yb_def)
  ultimately have "du_total dur + (year_len yb - dt_doy b) * 86400000 + dt_total b
      = dt_total a + (dt_doy a - dt_doy b) * 86400000"
    using r(5) stop(1) by (simp add: algebra_simps)
  with r(1,3) total show ?thesis unfolding yb_def by (intro exI [of _ dur]) simp
qed

definition dt_new_year :: datetime where
  "dt_new_year = \<lparr>dt_year = 2020, dt_month = 1, dt_day = 10, dt_hour = 0, dt_minute = 0, dt_second = 0,
                   dt_millisecond = 0\<rparr>"

definition dt_old_year :: datetime where
  "dt_old_year = \<lparr>dt_year = 2019, dt_month = 12, dt_day = 30, dt_hour = 0, dt_minute = 0, dt_second = 0,
                   dt_millisecond = 0\<rparr>"

lemma timeBetween_across_years_witness:
  "\<exists>dur. timeBetween dt_new_year dt_old_year = Inr dur \<and> \<not> du_is_negative dur \<and>
     du_total dur = 10 * 86400000 \<and> dt_total dt_new_year - dt_total dt_old_year = 11 * 86400000"
proof -
  have valid: "dt_valid dt_new_year" "dt_valid dt_old_year"
    by (simp_all add: dt_new_year_def dt_old_year_def dt_valid_defs valid_date_def month_len_def)
  have leap: "\<not> leap 2019" "leap 2020" by (simp_all add: leap_def)
  have "before_month False 12 = 334"
    using before_month_Suc [of 12 False] before_month_13 [of False] by (simp add: month_len_def)
  then have doy: "dt_doy dt_new_year = 10" "dt_doy dt_old_year = 364"
    by (simp_all add: dt_doy_def dt_new_year_def dt_old_year_def leap)
  have "days_before 2020 = 737424" "days_before 2019 = 737059"
    using days_before_closed [of 2019] days_before_closed [of 2018] by simp_all
  then have days: "dt_days dt_new_year = 737433" "dt_days dt_old_year = 737422"
    by (simp_all add: dt_days_def doy) (simp_all add: dt_new_year_def dt_old_year_def)
  have day: "day_nat dt_new_year = 0" "day_nat dt_old_year = 0"
    by (simp_all add: day_nat_def ms_total_def dt_new_year_def dt_old_year_def)
  have "year_len (unat (dt_year dt_old_year)) = 365" by (simp add: dt_old_year_def year_len_def leap)
  moreover have "dt_year dt_old_year < dt_year dt_new_year" by (simp add: dt_old_year_def dt_new_year_def)
  ultimately show ?thesis
    using timeBetween_across_years [OF valid] by (simp add: doy days day dt_total_day)
qed

lemma pad_inject:
  "length (show_nat m) \<le> k \<Longrightarrow> length (show_nat n) \<le> k \<Longrightarrow>
   pad k CHR ''0'' (show_nat m) @ x = pad k CHR ''0'' (show_nat n) @ y \<longleftrightarrow> m = n \<and> x = y"
  by (metis append_eq_append_conv length_pad max_absorb1 read_pad)

lemma pad_seconds:
  assumes "length (show_nat s) \<le> 2" and "length (show_nat ms) \<le> 3"
  shows "pad 6 CHR ''0'' (show_nat s @ CHR ''.'' # pad 3 CHR ''0'' (show_nat ms))
    = pad 2 CHR ''0'' (show_nat s) @ CHR ''.'' # pad 3 CHR ''0'' (show_nat ms)"
  using assms by (simp add: pad_def)

text \<open>The printed form of a date determines it: two valid objects that \<open>operator<<\<close> prints alike are
  equal, whatever the width of their years.
\<close>

lemma dt_print_determines:
  assumes "dt_valid a" and "dt_valid b" and "dt_print a = dt_print b"
  shows "a = b"
proof -
  have short: "length (show_nat (unat (dt_month x))) \<le> 2" "length (show_nat (unat (dt_day x))) \<le> 2"
    "length (show_nat (unat (dt_hour x))) \<le> 2" "length (show_nat (unat (dt_minute x))) \<le> 2"
    "length (show_nat (unat (dt_second x))) \<le> 2" "length (show_nat (unat (dt_millisecond x))) \<le> 3"
    if "dt_valid x" for x
    using that month_len_bounds(2) [of "leap (unat (dt_year x))" "unat (dt_month x)"]
    by (simp_all add: length_show_nat dt_valid_defs valid_date_def)
  note print = assms(3) [unfolded dt_print_def show_u32_def append_Cons append_Nil append_assoc
      pad_seconds [OF short(5,6) [OF assms(1)]] pad_seconds [OF short(5,6) [OF assms(2)]]]
  have "unat (dt_month a) = unat (dt_month b) \<and> unat (dt_day a) = unat (dt_day b) \<and>
    unat (dt_year a) = unat (dt_year b) \<and> unat (dt_hour a) = unat (dt_hour b) \<and>
    unat (dt_minute a) = unat (dt_minute b) \<and> unat (dt_second a) = unat (dt_second b) \<and>
    unat (dt_millisecond a) = unat (dt_millisecond b)"
    using print short [OF assms(1)] short [OF assms(2)]
      pad_inject [of _ _ _ "[]" "[]"] digits_split [OF show_nat_digits show_nat_digits, where d = "CHR '' ''"]
    by (simp add: pad_inject is_digit_def)
  then show ?thesis by (intro datetime.equality) (simp_all add: u32_eq_iff)
qed

lemma dt_print_determines_witness:
  "dt_new_year = dt_new_year\<lparr>dt_hour := 0\<rparr> \<and> dt_print dt_new_year = ''01/10/2020 00:00:00.000''"
proof -
  have valid: "dt_valid dt_new_year" "dt_valid (dt_new_year\<lparr>dt_hour := 0\<rparr>)"
    by (simp_all add: dt_new_year_def dt_valid_defs valid_date_def month_len_def)
  have "dt_print dt_new_year = ''01/10/2020 00:00:00.000''"
    by (simp add: dt_print_def dt_new_year_def show_u32_def show_nat_simps pad_simps)
  moreover have "dt_print (dt_new_year\<lparr>dt_hour := 0\<rparr>) = dt_print dt_new_year"
    by (simp add: dt_new_year_def)
  ultimately show ?thesis using dt_print_determines [OF valid] by simp
qed

text \<open>
  Where the C library's \<open>localtime\<close> gives back the calendar fields its \<open>mktime\<close> was given (whatever it
  finds for daylight saving), converting a valid object to a \<open>time_t\<close> and back gives the object
  with its milliseconds cleared.
\<close>

theorem dt_time_t_roundtrip:
  assumes "dt_valid dt"
    and "c_localtime (c_mktime (dt_tm junk dt)) = (dt_tm junk dt)\<lparr>tm_isdst := dst\<rparr>"
  shows "mkDateTime_time c_localtime (dt_mktime c_mktime junk dt) = Inr (dt\<lparr>dt_millisecond := 0\<rparr>)"
proof -
  have "dt_valid (dt\<lparr>dt_millisecond := 0\<rparr>)" using assms(1) by (simp add: dt_valid_defs)
  with assms(2) show ?thesis
    by (simp add: dt_mktime_def dt_tm_def mkDateTime_time_def mkDateTime_tm_def mkDateTime_def setDateTime_eq
        dt_valid_defs)
qed

lemma dt_time_t_roundtrip_witness:
  "mkDateTime_time (\<lambda>t. t) (dt_mktime (\<lambda>t. t\<lparr>tm_isdst := 0\<rparr>) 77 dt_new_year) = Inr dt_new_year"
proof -
  have "dt_valid dt_new_year" by (simp add: dt_new_year_def dt_valid_defs valid_date_def month_len_def)
  from dt_time_t_roundtrip [OF this, of "\<lambda>t. t" "\<lambda>t. t\<lparr>tm_isdst := 0\<rparr>" 77 0]
  show ?thesis by (simp add: dt_new_year_def)
qed

end
