(* ===== verification/Arma_Text.thy ===== *)
theory Arma_Text
  imports Prelude
begin

text \<open>
  The conversions of the C++ standard library between text and integers that \<open>ArmaData\<close> uses:
  \<open>std::stoll\<close>, \<open>std::stoull\<close>, extraction of a hexadecimal number from a stream, and the printed
  forms. Conversions throw \<open>invalid_argument\<close> when the text starts with no number and
  \<open>out_of_range\<close> when the number does not fit; what follows the number is ignored.
\<close>

datatype std_exc = InvalidArgument | OutOfRange

definition isspace :: "char \<Rightarrow> bool" where
  "isspace c \<longleftrightarrow> (of_char c :: nat) = 32 \<or> 9 \<le> (of_char c :: nat) \<and> (of_char c :: nat) \<le> 13"

fun take_sign :: "string \<Rightarrow> bool \<times> string" where
  "take_sign (c # s) =
     (if c = CHR ''-'' then (True, s) else if c = CHR ''+'' then (False, s) else (False, c # s))"
| "take_sign [] = (False, [])"

definition stoll :: "string \<Rightarrow> std_exc + u64" where
  "stoll s =
     (let (neg, r) = take_sign (dropWhile isspace s);
          ds = takeWhile is_digit r;
          v = (if neg then - int (read_nat ds) else int (read_nat ds))
      in if ds = [] then Inl InvalidArgument
         else if v < - (2 ^ 63) \<or> 2 ^ 63 \<le> v then Inl OutOfRange
         else Inr (word_of_int v))"

definition stoull :: "string \<Rightarrow> std_exc + u64" where
  "stoull s =
     (let (neg, r) = take_sign (dropWhile isspace s);
          ds = takeWhile is_digit r
      in if ds = [] then Inl InvalidArgument
         else if 2 ^ 64 \<le> read_nat ds then Inl OutOfRange
         else Inr (if neg then - of_nat (read_nat ds) else of_nat (read_nat ds)))"

definition show_i64 :: "u64 \<Rightarrow> string" where
  "show_i64 w = show_int (sint w)"

definition show_u64 :: "u64 \<Rightarrow> string" where
  "show_u64 w = show_nat (unat w)"

section \<open>Hexadecimal\<close>

definition hex_digit :: "nat \<Rightarrow> char" where
  "hex_digit n = (if n < 10 then char_of (48 + n) else char_of (87 + n))"

fun show_hex :: "nat \<Rightarrow> string" where
  "show_hex n = (if n < 16 then [hex_digit n] else show_hex (n div 16) @ [hex_digit (n mod 16)])"

declare show_hex.simps [simp del]

definition is_hex :: "char \<Rightarrow> bool" where
  "is_hex c \<longleftrightarrow> is_digit c \<or> 65 \<le> (of_char c :: nat) \<and> (of_char c :: nat) \<le> 70 \<or>
     97 \<le> (of_char c :: nat) \<and> (of_char c :: nat) \<le> 102"

definition hex_val :: "char \<Rightarrow> nat" where
  "hex_val c = (let n = of_char c in if n \<le> 57 then n - 48 else if n \<le> 70 then n - 55 else n - 87)"

definition read_hex :: "string \<Rightarrow> nat" where
  "read_hex s = foldl (\<lambda>a c. a * 16 + hex_val c) 0 s"

fun drop_0x :: "string \<Rightarrow> string" where
  "drop_0x (a # b # s) =
     (if a = CHR ''0'' \<and> (b = CHR ''x'' \<or> b = CHR ''X'') then s else a # b # s)"
| "drop_0x s = s"

text \<open>\<open>stream >> hex >> value\<close>: 0 where there is no number, all ones where it is too large.\<close>

definition stream_hex :: "string \<Rightarrow> u64" where
  "stream_hex s =
     (let (neg, r) = take_sign (dropWhile isspace s);
          n = read_hex (takeWhile is_hex (drop_0x r))
      in if 2 ^ 64 \<le> n then - 1 else if neg then - of_nat n else of_nat n)"

section \<open>Round trips\<close>

lemma is_digit_not_space: "is_digit c \<Longrightarrow> \<not> isspace c"
  by (auto simp: is_digit_def isspace_def)

lemma is_digit_not_sign: "is_digit c \<Longrightarrow> c \<noteq> CHR ''-'' \<and> c \<noteq> CHR ''+''"
  by (auto simp: is_digit_def)

lemma takeWhile_all: "(\<And>c. c \<in> set s \<Longrightarrow> P c) \<Longrightarrow> takeWhile P s = s"
  by (simp add: takeWhile_eq_all_conv)

lemma take_digits [simp]: "takeWhile is_digit (show_nat n) = show_nat n"
  by (rule takeWhile_all) (rule show_nat_digits)

lemma sign_digits:
  assumes "s \<noteq> []" and "\<And>c. c \<in> set s \<Longrightarrow> is_digit c"
  shows "take_sign (dropWhile isspace s) = (False, s)"
  using assms is_digit_not_space is_digit_not_sign by (cases s) auto

lemma sign_minus_digits: "take_sign (dropWhile isspace (CHR ''-'' # s)) = (True, s)"
  by (simp add: isspace_def)

lemma stoll_value:
  assumes "take_sign (dropWhile isspace s) = (neg, show_nat n)"
    and "v = (if neg then - int n else int n)" and "- (2 ^ 63) \<le> v" and "v < 2 ^ 63"
  shows "stoll s = Inr (word_of_int v)"
  using assms by (auto simp: stoll_def Let_def)

lemma stoll_show: "stoll (show_i64 w) = Inr w"
proof -
  let ?n = "nat \<bar>sint w\<bar>"
  have "take_sign (dropWhile isspace (show_i64 w)) = (sint w < 0, show_nat ?n)"
    using sign_digits [of "show_nat ?n"] show_nat_digits sign_minus_digits
    by (auto simp: show_i64_def show_int_def simp del: dropWhile.simps)
  moreover have "sint w = (if sint w < 0 then - int ?n else int ?n)" by simp
  moreover have "- (2 ^ 63) \<le> sint w" "sint w < 2 ^ 63"
    using sint_range_size [of w] by (simp_all add: word_size)
  ultimately have "stoll (show_i64 w) = Inr (word_of_int (sint w))" by (rule stoll_value)
  then show ?thesis by simp
qed

lemma stoull_show: "stoull (show_u64 w) = Inr w"
proof -
  have "take_sign (dropWhile isspace (show_u64 w)) = (False, show_nat (unat w))"
    using sign_digits [of "show_nat (unat w)"] show_nat_digits by (simp add: show_u64_def)
  moreover have "unat w < 2 ^ 64" using unsigned_less [of w] by simp
  ultimately show ?thesis by (simp add: stoull_def)
qed

lemma hex_digit_is_hex: "n < 16 \<Longrightarrow> is_hex (hex_digit n) \<and> hex_val (hex_digit n) = n"
  by (auto simp: hex_digit_def is_hex_def is_digit_def hex_val_def Let_def)

lemma show_hex_hex: "c \<in> set (show_hex n) \<Longrightarrow> is_hex c"
proof (induction n rule: show_hex.induct)
  case (1 n)
  then show ?case using hex_digit_is_hex by (auto simp: show_hex.simps [of n] split: if_splits)
qed

lemma show_hex_not_Nil [simp]: "show_hex n \<noteq> []"
  by (simp add: show_hex.simps [of n])

lemma read_hex_simps [simp]: "read_hex [] = 0" "read_hex (s @ [c]) = read_hex s * 16 + hex_val c"
  by (simp_all add: read_hex_def)

lemma read_show_hex [simp]: "read_hex (show_hex n) = n"
proof (induction n rule: show_hex.induct)
  case (1 n)
  show ?case
  proof (cases "n < 16")
    case True
    then show ?thesis
      using hex_digit_is_hex [OF True] read_hex_simps(2) [of "[]" "hex_digit n"]
      by (simp add: show_hex.simps [of n] del: read_hex_simps(2))
  next
    case False
    with 1 hex_digit_is_hex [of "n mod 16"] show ?thesis by (simp add: show_hex.simps [of n])
  qed
qed

lemma is_hex_plain: "is_hex c \<Longrightarrow> \<not> isspace c \<and> c \<noteq> CHR ''-'' \<and> c \<noteq> CHR ''+'' \<and> c \<noteq> CHR ''x'' \<and> c \<noteq> CHR ''X''"
  by (auto simp: is_hex_def is_digit_def isspace_def)

lemma drop_0x_hex: "(\<And>c. c \<in> set s \<Longrightarrow> is_hex c) \<Longrightarrow> drop_0x s = s"
  using is_hex_plain by (cases s rule: drop_0x.cases) auto

lemma stream_hex_show: "stream_hex (show_hex (unat w)) = w"
proof -
  let ?s = "show_hex (unat w)"
  have hex: "\<And>c. c \<in> set ?s \<Longrightarrow> is_hex c" by (rule show_hex_hex)
  have "take_sign (dropWhile isspace ?s) = (False, ?s)"
    using hex is_hex_plain show_hex_not_Nil [of "unat w"] by (cases ?s) auto
  moreover have tw: "takeWhile is_hex ?s = ?s" using hex by (rule takeWhile_all)
  moreover have drop: "drop_0x ?s = ?s" by (rule drop_0x_hex) (rule hex)
  moreover have "unat w < 2 ^ 64" using unsigned_less [of w] by simp
  ultimately show ?thesis by (simp add: stream_hex_def Let_def tw drop del: takeWhile_eq_all_conv)
qed

end
