(* ===== verification/Effect.thy ===== *)
theory Effect
  imports Arma_Text
begin

text \<open>
  Operations with effects. A call takes the state it works on and returns it changed together with
  its result or the way it failed. \<open>Thrown\<close> is a C++ exception, which a handler can catch; an access
  outside defined memory and a call of \<open>std::terminate\<close> end the process, no handler sees them.
\<close>

datatype exc = SQLException string | StdException std_exc | ConnectionUnavailable | ConnectionImpossible

datatype failure = Thrown exc | Crashed mem_error | Ended string

type_synonym ('s, 'a) eff = "'s \<Rightarrow> (failure + 'a) \<times> 's"

section \<open>Combinators\<close>

definition retE :: "'a \<Rightarrow> ('s, 'a) eff" where
  "retE x s = (Inr x, s)"

definition failE :: "failure \<Rightarrow> ('s, 'a) eff" where
  "failE e s = (Inl e, s)"

definition thenE :: "('s, 'a) eff \<Rightarrow> ('a \<Rightarrow> ('s, 'b) eff) \<Rightarrow> ('s, 'b) eff" where
  "thenE m f s = (case m s of (Inl e, s) \<Rightarrow> (Inl e, s) | (Inr x, s) \<Rightarrow> f x s)"

definition getE :: "('s, 's) eff" where
  "getE s = (Inr s, s)"

definition updE :: "('s \<Rightarrow> 's) \<Rightarrow> ('s, unit) eff" where
  "updE f s = (Inr (), f s)"

text \<open>A value computed without effects, and one that memory errors can interrupt.\<close>

definition pureE :: "failure + 'a \<Rightarrow> ('s, 'a) eff" where
  "pureE r s = (r, s)"

fun of_mem :: "mem_error + 'a \<Rightarrow> failure + 'a" where
  "of_mem (Inl e) = Inl (Crashed e)"
| "of_mem (Inr x) = Inr x"

fun of_std :: "std_exc + 'a \<Rightarrow> failure + 'a" where
  "of_std (Inl e) = Inl (Thrown (StdException e))"
| "of_std (Inr x) = Inr x"

text \<open>\<open>catch (const sql::SQLException &)\<close> and \<open>catch (const std::exception &)\<close>.\<close>

definition catch_sql :: "('s, 'a) eff \<Rightarrow> ('s, 'a) eff \<Rightarrow> ('s, 'a) eff" where
  "catch_sql m h s =
     (case m s of (Inl (Thrown (SQLException msg)), s) \<Rightarrow> h s | r \<Rightarrow> r)"

definition catch_any :: "('s, 'a) eff \<Rightarrow> (exc \<Rightarrow> ('s, 'a) eff) \<Rightarrow> ('s, 'a) eff" where
  "catch_any m h s = (case m s of (Inl (Thrown e), s) \<Rightarrow> h e s | r \<Rightarrow> r)"

text \<open>An operation on the second half of a state.\<close>

definition onSnd :: "('w, 'a) eff \<Rightarrow> ('p \<times> 'w, 'a) eff" where
  "onSnd m s = (let (r, w) = m (snd s) in (r, (fst s, w)))"

section \<open>Rules\<close>

lemma thenE_simps [simp]:
  "m s = (Inr x, s') \<Longrightarrow> thenE m f s = f x s'"
  "m s = (Inl e, s') \<Longrightarrow> thenE m f s = (Inl e, s')"
  by (simp_all add: thenE_def)

lemma effect_simps [simp]:
  "retE x s = (Inr x, s)" "failE e s = (Inl e, s)" "getE s = (Inr s, s)" "updE g s = (Inr (), g s)"
  "pureE r s = (r, s)"
  by (simp_all add: retE_def failE_def getE_def updE_def pureE_def)

lemma thenE_assoc: "thenE (thenE m f) g = thenE m (\<lambda>x. thenE (f x) g)"
  by (rule ext) (simp add: thenE_def split: prod.split sum.split)

lemma thenE_Inr_iff:
  "thenE m f s = (Inr y, t) \<longleftrightarrow> (\<exists>x s'. m s = (Inr x, s') \<and> f x s' = (Inr y, t))"
  by (auto simp: thenE_def split: prod.splits sum.splits)

lemma thenE_Inl_iff:
  "thenE m f s = (Inl e, t) \<longleftrightarrow> m s = (Inl e, t) \<or> (\<exists>x s'. m s = (Inr x, s') \<and> f x s' = (Inl e, t))"
  by (auto simp: thenE_def split: prod.splits sum.splits)

lemma catch_sql_simps [simp]:
  "m s = (Inr x, s') \<Longrightarrow> catch_sql m h s = (Inr x, s')"
  "m s = (Inl (Thrown (SQLException msg)), s') \<Longrightarrow> catch_sql m h s = h s'"
  by (simp_all add: catch_sql_def)

lemma catch_any_simps [simp]:
  "m s = (Inr x, s') \<Longrightarrow> catch_any m h s = (Inr x, s')"
  "m s = (Inl (Thrown e), s') \<Longrightarrow> catch_any m h s = h e s'"
  by (simp_all add: catch_any_def)

lemma onSnd_simp [simp]: "onSnd m (a, w) = (fst (m w), (a, snd (m w)))"
  by (simp add: onSnd_def case_prod_unfold Let_def)

text \<open>
  Which exceptions an operation throws: \<open>raises E m\<close> says that whatever \<open>m\<close> fails with is in \<open>E\<close>.
\<close>

definition raises :: "failure set \<Rightarrow> ('s, 'a) eff \<Rightarrow> bool" where
  "raises E m \<longleftrightarrow> (\<forall>s e t. m s = (Inl e, t) \<longrightarrow> e \<in> E)"

named_theorems raises_intros \<open>which failures an operation has\<close>

lemma raises_retE [raises_intros]: "raises E (retE x)"
  and raises_updE [raises_intros]: "raises E (updE g)"
  and raises_getE [raises_intros]: "raises E getE"
  by (simp_all add: raises_def)

lemma raises_thenE [raises_intros]: "raises E m \<Longrightarrow> (\<And>x. raises E (f x)) \<Longrightarrow> raises E (thenE m f)"
  unfolding raises_def thenE_Inl_iff by blast

lemma raises_onSnd [raises_intros]: "raises E m \<Longrightarrow> raises E (onSnd m)"
  by (auto simp: raises_def) (metis prod.collapse)

lemma raises_catch_sql [raises_intros]:
  assumes "raises (E \<union> {Thrown (SQLException msg) | msg. True}) m" and "raises E h"
  shows "raises E (catch_sql m h)"
  using assms unfolding raises_def catch_sql_def
  by (auto split: prod.splits sum.splits failure.splits exc.splits)

lemma raises_mono: "raises E m \<Longrightarrow> E \<subseteq> E' \<Longrightarrow> raises E' m"
  by (auto simp: raises_def)

end
