(* ===== verification/DB_Connector.thy ===== *)
theory DB_Connector
  imports Effect
begin

text \<open>
  \<^verbatim>\<open>DatabaseConnector/DatabaseConnector.cpp\<close>: the functions the connector exports, over the MySQL
  driver. The driver is not part of the repository: it is a parameter, the record \<open>sql\<close> of the
  calls the connector makes on the outside world \<open>'w\<close>. A call of the driver returns or throws an
  \<open>sql::SQLException\<close>, which \<open>Inl\<close> with its text stands for; \<open>sql_driver\<close> is the address of its instance. \<open>'con\<close>, \<open>'st\<close> and \<open>'rs\<close> are its connections,
  prepared statements and result sets.
\<close>

record ('w, 'con, 'st, 'rs) sql =
  sql_driver :: u64
  sql_connect :: "string \<Rightarrow> string \<Rightarrow> string \<Rightarrow> 'w \<Rightarrow> (string + 'con) \<times> 'w"
  sql_setTransactionIsolation :: "'con \<Rightarrow> string \<Rightarrow> 'w \<Rightarrow> (string + unit) \<times> 'w"
  sql_setSchema :: "'con \<Rightarrow> string \<Rightarrow> 'w \<Rightarrow> (string + unit) \<times> 'w"
  sql_setAutoCommit :: "'con \<Rightarrow> bool \<Rightarrow> 'w \<Rightarrow> (string + unit) \<times> 'w"
  sql_prepareStatement :: "'con \<Rightarrow> string \<Rightarrow> 'w \<Rightarrow> (string + 'st) \<times> 'w"
  sql_commit :: "'con \<Rightarrow> 'w \<Rightarrow> (string + unit) \<times> 'w"
  sql_close :: "'con \<Rightarrow> 'w \<Rightarrow> (string + unit) \<times> 'w"
  sql_deleteConnection :: "'con \<Rightarrow> 'w \<Rightarrow> 'w"
  sql_threadInit :: "'w \<Rightarrow> (string + unit) \<times> 'w"
  sql_threadEnd :: "'w \<Rightarrow> (string + unit) \<times> 'w"
  sql_setString :: "'st \<Rightarrow> nat \<Rightarrow> string \<Rightarrow> 'w \<Rightarrow> (string + unit) \<times> 'w"
  sql_setInt :: "'st \<Rightarrow> nat \<Rightarrow> u32 \<Rightarrow> 'w \<Rightarrow> (string + unit) \<times> 'w"
  sql_setInt64 :: "'st \<Rightarrow> nat \<Rightarrow> u64 \<Rightarrow> 'w \<Rightarrow> (string + unit) \<times> 'w"
  sql_executeQuery :: "'st \<Rightarrow> 'w \<Rightarrow> (string + 'rs) \<times> 'w"
  sql_executeUpdate :: "'st \<Rightarrow> 'w \<Rightarrow> (string + unit) \<times> 'w"
  sql_deleteStatement :: "'st \<Rightarrow> 'w \<Rightarrow> 'w"
  sql_next :: "'rs \<Rightarrow> 'w \<Rightarrow> (string + bool) \<times> 'w"
  sql_getBoolean :: "'rs \<Rightarrow> nat \<Rightarrow> 'w \<Rightarrow> (string + bool) \<times> 'w"
  sql_getInt :: "'rs \<Rightarrow> string \<Rightarrow> 'w \<Rightarrow> (string + u32) \<times> 'w"
  sql_getInt64 :: "'rs \<Rightarrow> string \<Rightarrow> 'w \<Rightarrow> (string + u64) \<times> 'w"
  sql_getString :: "'rs \<Rightarrow> string \<Rightarrow> 'w \<Rightarrow> (string + string) \<times> 'w"
  sql_deleteResultSet :: "'rs \<Rightarrow> 'w \<Rightarrow> 'w"

definition callE :: "('w \<Rightarrow> (string + 'a) \<times> 'w) \<Rightarrow> ('w, 'a) eff" where
  "callE c w = (case c w of (Inl msg, w) \<Rightarrow> (Inl (Thrown (SQLException msg)), w) | (Inr x, w) \<Rightarrow> (Inr x, w))"

section \<open>Data\<close>

text \<open>\<open>DatabaseConnector/OPFL_Account.h\<close>.\<close>

record opfl_account =
  act_second :: u64
  act_minute :: u64
  act_hour :: u64
  act_day :: u64
  act_month :: u64
  act_year :: u64
  act_left :: u64
  act_chickens :: u64
  act_kills :: u64
  act_matches :: u64
  act_wins :: u64
  act_losses :: u64
  act_rank :: u32
  act_level :: u32
  act_UIDName :: string

definition DBHOST :: string where "DBHOST = ''tcp://127.0.0.1:3306''"
definition USER :: string where "USER = ''root''"
definition PASSWORD :: string where "PASSWORD = ''password''"
definition DATABASE :: string where "DATABASE = ''OPFL''"

record ('con, 'st) opfl_connection =
  oc_con :: "'con option"
  oc_driver :: u64
  oc_prep_createAccount :: 'st
  oc_prep_createBanData :: 'st
  oc_prep_writeAccount :: 'st
  oc_prep_writeBanData :: 'st
  oc_prep_writeKills :: 'st
  oc_prep_writeChickens :: 'st
  oc_prep_getAccount :: 'st
  oc_prep_getBanData :: 'st
  oc_prep_exists :: 'st

text \<open>
  \<open>OPFL_CON\<close> is a pointer to such a structure, which nothing changes once \<open>Connect\<close> has filled it:
  \<open>None\<close> is the null pointer. A \<open>const char *\<close> argument ends at its first null character.
\<close>

type_synonym ('con, 'st) OPFL_CON = "('con, 'st) opfl_connection option"

definition c_str :: "string \<Rightarrow> string" where
  "c_str s = takeWhile (\<lambda>c. c \<noteq> CHR 0x00) s"

definition derefE :: "'a option \<Rightarrow> ('s, 'a) eff" where
  "derefE p = pureE (case p of None \<Rightarrow> Inl (Crashed NullDeref) | Some x \<Rightarrow> Inr x)"

section \<open>Connections\<close>

definition Connect ::
  "('w, 'con, 'st, 'rs) sql \<Rightarrow> string \<Rightarrow> string \<Rightarrow> string \<Rightarrow> string \<Rightarrow> bool \<Rightarrow> ('w, ('con, 'st) OPFL_CON) eff" where
  "Connect d addr user pass schema autoCommit =
     thenE (callE (sql_connect d addr user pass)) (\<lambda>con.
     thenE (callE (sql_setTransactionIsolation d con ''TRANSACTION_READ_COMMITTED'')) (\<lambda>_.
     thenE (callE (sql_setSchema d con schema)) (\<lambda>_.
     thenE (callE (sql_setAutoCommit d con autoCommit)) (\<lambda>_.
     thenE (callE (sql_prepareStatement d con ''INSERT IGNORE INTO useraccounts (UIDName, Rank, Level, Matches, Wins, Losses, Kills, Chickens) VALUES (?, 1, 0, 0, 0, 0, 0, 0)'')) (\<lambda>createAccount.
     thenE (callE (sql_prepareStatement d con ''INSERT IGNORE INTO administration (UIDName, Ditch, Banned) VALUES (?, 0, NOW())'')) (\<lambda>createBanData.
     thenE (callE (sql_prepareStatement d con ''UPDATE useraccounts SET Rank = ? , Level = ? , Matches = ? , Wins = ? , Losses = ? , Kills = ? , Chickens = ? WHERE UIDName = ?'')) (\<lambda>writeAccount.
     thenE (callE (sql_prepareStatement d con ''UPDATE administration SET Ditch = ? , Banned = ? WHERE UIDName = ?'')) (\<lambda>writeBanData.
     thenE (callE (sql_prepareStatement d con ''UPDATE useraccounts SET Kills = Kills + ? WHERE UIDName = ?'')) (\<lambda>writeKills.
     thenE (callE (sql_prepareStatement d con ''UPDATE useraccounts SET Chickens = Chickens + ? WHERE UIDName = ?'')) (\<lambda>writeChickens.
     thenE (callE (sql_prepareStatement d con ''SELECT * FROM useraccounts WHERE UIDName = ? FOR UPDATE'')) (\<lambda>getAccount.
     thenE (callE (sql_prepareStatement d con ''SELECT * FROM administration WHERE UIDName = ? FOR UPDATE'')) (\<lambda>getBanData.
     thenE (callE (sql_prepareStatement d con ''SELECT EXISTS (SELECT * FROM useraccounts WHERE UIDName = ?)'')) (\<lambda>exists.
       retE (Some \<lparr>oc_con = Some con, oc_driver = sql_driver d, oc_prep_createAccount = createAccount,
         oc_prep_createBanData = createBanData, oc_prep_writeAccount = writeAccount,
         oc_prep_writeBanData = writeBanData, oc_prep_writeKills = writeKills,
         oc_prep_writeChickens = writeChickens, oc_prep_getAccount = getAccount,
         oc_prep_getBanData = getBanData, oc_prep_exists = exists\<rparr>))))))))))))))"

definition CommitData :: "('w, 'con, 'st, 'rs) sql \<Rightarrow> ('con, 'st) OPFL_CON \<Rightarrow> ('w, bool) eff" where
  "CommitData d con =
     catch_sql
       (thenE (derefE con) (\<lambda>oc. thenE (derefE (oc_con oc)) (\<lambda>c.
        thenE (callE (sql_commit d c)) (\<lambda>_. retE True))))
       (retE False)"

definition Close :: "('w, 'con, 'st, 'rs) sql \<Rightarrow> ('con, 'st) OPFL_CON \<Rightarrow> ('w, bool) eff" where
  "Close d con =
     catch_sql
       (thenE (derefE con) (\<lambda>oc. thenE (derefE (oc_con oc)) (\<lambda>c.
        thenE (callE (sql_close d c)) (\<lambda>_. retE True))))
       (retE False)"

text \<open>The thread functions and \<open>Exists\<close> have no handler.\<close>

definition ThreadInit :: "('w, 'con, 'st, 'rs) sql \<Rightarrow> ('con, 'st) OPFL_CON \<Rightarrow> ('w, unit) eff" where
  "ThreadInit d con = thenE (derefE con) (\<lambda>oc. callE (sql_threadInit d))"

definition ThreadEnd :: "('w, 'con, 'st, 'rs) sql \<Rightarrow> ('con, 'st) OPFL_CON \<Rightarrow> ('w, unit) eff" where
  "ThreadEnd d con = thenE (derefE con) (\<lambda>oc. callE (sql_threadEnd d))"

definition DeleteConnection :: "('w, 'con, 'st, 'rs) sql \<Rightarrow> ('con, 'st) OPFL_CON \<Rightarrow> ('w, bool) eff" where
  "DeleteConnection d conn =
     thenE (derefE conn) (\<lambda>con.
     thenE (updE (sql_deleteStatement d (oc_prep_createAccount con))) (\<lambda>_.
     thenE (updE (sql_deleteStatement d (oc_prep_createBanData con))) (\<lambda>_.
     thenE (updE (sql_deleteStatement d (oc_prep_writeAccount con))) (\<lambda>_.
     thenE (updE (sql_deleteStatement d (oc_prep_writeBanData con))) (\<lambda>_.
     thenE (updE (sql_deleteStatement d (oc_prep_writeKills con))) (\<lambda>_.
     thenE (updE (sql_deleteStatement d (oc_prep_writeChickens con))) (\<lambda>_.
     thenE (updE (sql_deleteStatement d (oc_prep_getAccount con))) (\<lambda>_.
     thenE (updE (sql_deleteStatement d (oc_prep_getBanData con))) (\<lambda>_.
     thenE (updE (sql_deleteStatement d (oc_prep_exists con))) (\<lambda>_.
       case oc_con con of
         Some c \<Rightarrow> thenE (updE (sql_deleteConnection d c)) (\<lambda>_. retE True)
       | None \<Rightarrow> retE False))))))))))"

definition DriverAddress :: "('con, 'st) OPFL_CON \<Rightarrow> ('w, u64) eff" where
  "DriverAddress con = thenE (derefE con) (\<lambda>oc. retE (oc_driver oc))"

section \<open>Queries\<close>

definition Exists :: "('w, 'con, 'st, 'rs) sql \<Rightarrow> ('con, 'st) OPFL_CON \<Rightarrow> string \<Rightarrow> ('w, bool) eff" where
  "Exists d con UIDName =
     thenE (derefE con) (\<lambda>oc.
     thenE (callE (sql_setString d (oc_prep_exists oc) 1 UIDName)) (\<lambda>_.
     thenE (callE (sql_executeQuery d (oc_prep_exists oc))) (\<lambda>res.
     thenE (callE (sql_next d res)) (\<lambda>_.
     thenE (callE (sql_getBoolean d res 1)) (\<lambda>ret.
     thenE (updE (sql_deleteResultSet d res)) (\<lambda>_. retE ret))))))"

text \<open>
  \<open>GetAccount\<close> and \<open>GetBanData\<close> fill the structure they are given member by member: the state is the
  structure and the world, and what was read before an exception stays assigned.
\<close>

definition setE :: "('a \<Rightarrow> 'a) \<Rightarrow> ('a \<times> 'w, unit) eff" where
  "setE f = updE (\<lambda>(act, w). (f act, w))"

definition GetAccount ::
  "('w, 'con, 'st, 'rs) sql \<Rightarrow> ('con, 'st) OPFL_CON \<Rightarrow> string \<Rightarrow> (opfl_account \<times> 'w, bool) eff" where
  "GetAccount d con UIDName =
     catch_sql
       (thenE (derefE con) (\<lambda>oc.
        thenE (onSnd (callE (sql_setString d (oc_prep_getAccount oc) 1 UIDName))) (\<lambda>_.
        thenE (onSnd (callE (sql_executeQuery d (oc_prep_getAccount oc)))) (\<lambda>res.
        thenE (onSnd (callE (sql_next d res))) (\<lambda>_.
        thenE (setE (\<lambda>act. act\<lparr>act_UIDName := UIDName\<rparr>)) (\<lambda>_.
        thenE (onSnd (callE (sql_getInt d res ''Rank''))) (\<lambda>v.
        thenE (setE (\<lambda>act. act\<lparr>act_rank := v\<rparr>)) (\<lambda>_.
        thenE (onSnd (callE (sql_getInt d res ''Level''))) (\<lambda>v.
        thenE (setE (\<lambda>act. act\<lparr>act_level := v\<rparr>)) (\<lambda>_.
        thenE (onSnd (callE (sql_getInt64 d res ''Matches''))) (\<lambda>v.
        thenE (setE (\<lambda>act. act\<lparr>act_matches := v\<rparr>)) (\<lambda>_.
        thenE (onSnd (callE (sql_getInt64 d res ''Wins''))) (\<lambda>v.
        thenE (setE (\<lambda>act. act\<lparr>act_wins := v\<rparr>)) (\<lambda>_.
        thenE (onSnd (callE (sql_getInt64 d res ''Losses''))) (\<lambda>v.
        thenE (setE (\<lambda>act. act\<lparr>act_losses := v\<rparr>)) (\<lambda>_.
        thenE (onSnd (callE (sql_getInt64 d res ''Kills''))) (\<lambda>v.
        thenE (setE (\<lambda>act. act\<lparr>act_kills := v\<rparr>)) (\<lambda>_.
        thenE (onSnd (callE (sql_getInt64 d res ''Chickens''))) (\<lambda>v.
        thenE (setE (\<lambda>act. act\<lparr>act_chickens := v\<rparr>)) (\<lambda>_.
        thenE (onSnd (updE (sql_deleteResultSet d res))) (\<lambda>_. retE True)))))))))))))))))))))
       (retE False)"

text \<open>\<open>substr\<close> throws \<open>out_of_range\<close> when it starts behind the end.\<close>

definition substr :: "string \<Rightarrow> nat \<Rightarrow> nat \<Rightarrow> std_exc + string" where
  "substr s pos n = (if length s < pos then Inl OutOfRange else Inr (take n (drop pos s)))"

definition ban_field :: "string \<Rightarrow> nat \<Rightarrow> nat \<Rightarrow> ('s, u64) eff" where
  "ban_field s pos n = pureE (of_std (bindE (substr s pos n) stoll))"

definition read_ban_field ::
  "('w, 'con, 'st, 'rs) sql \<Rightarrow> 'rs \<Rightarrow> nat \<Rightarrow> nat \<Rightarrow> (u64 \<Rightarrow> opfl_account \<Rightarrow> opfl_account) \<Rightarrow>
   (opfl_account \<times> 'w, unit) eff" where
  "read_ban_field d res pos n upd =
     thenE (onSnd (callE (sql_getString d res ''Banned''))) (\<lambda>s.
     thenE (ban_field s pos n) (\<lambda>v. setE (upd v)))"

definition GetBanData ::
  "('w, 'con, 'st, 'rs) sql \<Rightarrow> ('con, 'st) OPFL_CON \<Rightarrow> string \<Rightarrow> (opfl_account \<times> 'w, bool) eff" where
  "GetBanData d con UIDName =
     catch_sql
       (thenE (derefE con) (\<lambda>oc.
        thenE (onSnd (callE (sql_setString d (oc_prep_getBanData oc) 1 UIDName))) (\<lambda>_.
        thenE (onSnd (callE (sql_executeQuery d (oc_prep_getBanData oc)))) (\<lambda>res.
        thenE (onSnd (callE (sql_next d res))) (\<lambda>_.
        thenE (onSnd (callE (sql_getInt64 d res ''Ditch''))) (\<lambda>v.
        thenE (setE (\<lambda>act. act\<lparr>act_left := v\<rparr>)) (\<lambda>_.
        thenE (read_ban_field d res 0 4 (\<lambda>v act. act\<lparr>act_year := v\<rparr>)) (\<lambda>_.
        thenE (read_ban_field d res 5 2 (\<lambda>v act. act\<lparr>act_month := v\<rparr>)) (\<lambda>_.
        thenE (read_ban_field d res 8 2 (\<lambda>v act. act\<lparr>act_day := v\<rparr>)) (\<lambda>_.
        thenE (read_ban_field d res 11 2 (\<lambda>v act. act\<lparr>act_hour := v\<rparr>)) (\<lambda>_.
        thenE (read_ban_field d res 14 2 (\<lambda>v act. act\<lparr>act_minute := v\<rparr>)) (\<lambda>_.
        thenE (read_ban_field d res 17 2 (\<lambda>v act. act\<lparr>act_second := v\<rparr>)) (\<lambda>_.
        thenE (onSnd (updE (sql_deleteResultSet d res))) (\<lambda>_. retE True))))))))))))))
       (retE False)"

section \<open>Updates\<close>

definition CreateAccount ::
  "('w, 'con, 'st, 'rs) sql \<Rightarrow> ('con, 'st) OPFL_CON \<Rightarrow> string \<Rightarrow> ('w, bool) eff" where
  "CreateAccount d con UIDName =
     catch_sql
       (thenE (derefE con) (\<lambda>oc.
        thenE (callE (sql_setString d (oc_prep_createAccount oc) 1 UIDName)) (\<lambda>_.
        thenE (callE (sql_executeUpdate d (oc_prep_createAccount oc))) (\<lambda>_. retE True))))
       (retE False)"

definition CreateBanData ::
  "('w, 'con, 'st, 'rs) sql \<Rightarrow> ('con, 'st) OPFL_CON \<Rightarrow> string \<Rightarrow> ('w, bool) eff" where
  "CreateBanData d con UIDName =
     catch_sql
       (thenE (derefE con) (\<lambda>oc.
        thenE (callE (sql_setString d (oc_prep_createBanData oc) 1 UIDName)) (\<lambda>_.
        thenE (callE (sql_executeUpdate d (oc_prep_createBanData oc))) (\<lambda>_. retE True))))
       (retE False)"

definition WriteKills ::
  "('w, 'con, 'st, 'rs) sql \<Rightarrow> ('con, 'st) OPFL_CON \<Rightarrow> string \<Rightarrow> u64 \<Rightarrow> ('w, bool) eff" where
  "WriteKills d con UIDName kills =
     catch_sql
       (thenE (derefE con) (\<lambda>oc.
        thenE (callE (sql_setInt64 d (oc_prep_writeKills oc) 1 kills)) (\<lambda>_.
        thenE (callE (sql_setString d (oc_prep_writeKills oc) 2 UIDName)) (\<lambda>_.
        thenE (callE (sql_executeUpdate d (oc_prep_writeKills oc))) (\<lambda>_. retE True)))))
       (retE False)"

definition WriteChickens ::
  "('w, 'con, 'st, 'rs) sql \<Rightarrow> ('con, 'st) OPFL_CON \<Rightarrow> string \<Rightarrow> u64 \<Rightarrow> ('w, bool) eff" where
  "WriteChickens d con UIDName chickens =
     catch_sql
       (thenE (derefE con) (\<lambda>oc.
        thenE (callE (sql_setInt64 d (oc_prep_writeChickens oc) 1 chickens)) (\<lambda>_.
        thenE (callE (sql_setString d (oc_prep_writeChickens oc) 2 UIDName)) (\<lambda>_.
        thenE (callE (sql_executeUpdate d (oc_prep_writeChickens oc))) (\<lambda>_. retE True)))))
       (retE False)"

definition WriteAccount ::
  "('w, 'con, 'st, 'rs) sql \<Rightarrow> ('con, 'st) OPFL_CON \<Rightarrow> opfl_account \<Rightarrow> ('w, bool) eff" where
  "WriteAccount d con account =
     catch_sql
       (thenE (derefE con) (\<lambda>oc. let st = oc_prep_writeAccount oc in
        thenE (callE (sql_setInt d st 1 (act_rank account))) (\<lambda>_.
        thenE (callE (sql_setInt d st 2 (act_level account))) (\<lambda>_.
        thenE (callE (sql_setInt64 d st 3 (act_matches account))) (\<lambda>_.
        thenE (callE (sql_setInt64 d st 4 (act_wins account))) (\<lambda>_.
        thenE (callE (sql_setInt64 d st 5 (act_losses account))) (\<lambda>_.
        thenE (callE (sql_setInt64 d st 6 (act_kills account))) (\<lambda>_.
        thenE (callE (sql_setInt64 d st 7 (act_chickens account))) (\<lambda>_.
        thenE (callE (sql_setString d st 8 (act_UIDName account))) (\<lambda>_.
        thenE (callE (sql_executeUpdate d st)) (\<lambda>_. retE True)))))))))))
       (retE False)"

text \<open>The date as \<open>WriteBanData\<close> prints it; \<open>setw\<close> only pads what is shorter.\<close>

definition ban_text :: "opfl_account \<Rightarrow> string" where
  "ban_text account =
     pad 4 CHR ''0'' (show_i64 (act_year account)) @ ''-'' @ pad 2 CHR ''0'' (show_i64 (act_month account)) @ ''-'' @
     pad 2 CHR ''0'' (show_i64 (act_day account)) @ '' '' @ pad 2 CHR ''0'' (show_i64 (act_hour account)) @ '':'' @
     pad 2 CHR ''0'' (show_i64 (act_minute account)) @ '':'' @ pad 2 CHR ''0'' (show_i64 (act_second account))"

definition WriteBanData ::
  "('w, 'con, 'st, 'rs) sql \<Rightarrow> ('con, 'st) OPFL_CON \<Rightarrow> opfl_account \<Rightarrow> ('w, bool) eff" where
  "WriteBanData d con account =
     catch_sql
       (thenE (derefE con) (\<lambda>oc. let st = oc_prep_writeBanData oc in
        thenE (callE (sql_setInt64 d st 1 (act_left account))) (\<lambda>_.
        thenE (callE (sql_setString d st 2 (ban_text account))) (\<lambda>_.
        thenE (callE (sql_setString d st 3 (act_UIDName account))) (\<lambda>_.
        thenE (callE (sql_executeUpdate d st)) (\<lambda>_. retE True))))))
       (retE False)"

end
