(* ===== verification/DB_Rules.thy ===== *)
theory DB_Rules
  imports DB_Connector
begin

text \<open>
  What the functions of the connector promise their callers: which failures reach them, and that the
  date of a ban survives being written and read back.
\<close>

section \<open>Failures\<close>

abbreviation sql_failures :: "failure set" where
  "sql_failures \<equiv> {Thrown (SQLException msg) | msg. True}"

lemma raises_callE [raises_intros]: "sql_failures \<subseteq> E \<Longrightarrow> raises E (callE c)"
  by (auto simp: raises_def callE_def split: prod.splits sum.splits)

lemma raises_derefE [raises_intros]: "raises E (derefE (Some x))"
  by (simp add: raises_def derefE_def)

lemma raises_setE [raises_intros]: "raises E (setE f)"
  unfolding setE_def by (rule raises_updE)

lemma raises_ban_field [raises_intros]:
  assumes "{Thrown (StdException e) | e. True} \<subseteq> E"
  shows "raises E (ban_field s pos n)"
proof -
  have "of_std r = Inl e \<Longrightarrow> e \<in> E" for e and r :: "std_exc + u64"
    using assms by (cases r) auto
  then show ?thesis by (auto simp: raises_def ban_field_def)
qed

lemma derefE_Some [simp]: "thenE (derefE (Some x)) f = f x"
  by (rule ext) (simp add: derefE_def)

lemma raises_read_ban_field [raises_intros]:
  assumes "sql_failures \<subseteq> E" and "{Thrown (StdException e) | e. True} \<subseteq> E"
  shows "raises E (read_ban_field d res pos n upd)"
  unfolding read_ban_field_def using assms by (intro raises_intros) auto

lemmas db_update_defs =
  CommitData_def Close_def CreateAccount_def CreateBanData_def WriteKills_def WriteChickens_def
  WriteAccount_def WriteBanData_def

lemma updates_raise_nothing:
  assumes "oc_con oc = Some c"
  shows "raises {} (CommitData d (Some oc))" and "raises {} (Close d (Some oc))"
    and "raises {} (CreateAccount d (Some oc) uid)" and "raises {} (CreateBanData d (Some oc) uid)"
    and "raises {} (WriteKills d (Some oc) uid n)" and "raises {} (WriteChickens d (Some oc) uid n)"
    and "raises {} (WriteAccount d (Some oc) act)" and "raises {} (WriteBanData d (Some oc) act)"
    and "raises {} (GetAccount d (Some oc) uid)"
  using assms unfolding db_update_defs GetAccount_def Let_def by (simp_all, (intro raises_intros; simp)+)

lemma raises_nothing_returns: "raises {} m \<Longrightarrow> \<exists>b. fst (m s) = Inr b"
  by (cases "m s"; cases "fst (m s)") (auto simp: raises_def)

lemma GetBanData_raises:
  "raises {Thrown (StdException e) | e. True} (GetBanData d (Some oc) uid)"
  unfolding GetBanData_def derefE_Some by (intro raises_intros) auto

lemma GetBanData_fails:
  "GetBanData d (Some oc) uid s = (Inl e, t) \<Longrightarrow> \<exists>x. e = Thrown (StdException x)"
  using GetBanData_raises [of d oc uid] unfolding raises_def by blast

section \<open>The date of a ban as text\<close>

definition ban_num :: "nat \<Rightarrow> u64 \<Rightarrow> bool" where
  "ban_num k v \<longleftrightarrow> 0 \<le> sint v \<and> sint v < 10 ^ k"

definition ban_date_ok :: "opfl_account \<Rightarrow> bool" where
  "ban_date_ok a \<longleftrightarrow> ban_num 4 (act_year a) \<and> ban_num 2 (act_month a) \<and> ban_num 2 (act_day a) \<and>
     ban_num 2 (act_hour a) \<and> ban_num 2 (act_minute a) \<and> ban_num 2 (act_second a)"

definition field_text :: "nat \<Rightarrow> u64 \<Rightarrow> string" where
  "field_text k v = pad k CHR ''0'' (show_i64 v)"

lemma field_text_pad:
  assumes "ban_num k v"
  shows "field_text k v = pad k CHR ''0'' (show_nat (nat (sint v)))"
  using assms by (simp add: field_text_def ban_num_def show_i64_def show_int_def)

lemma length_field_text [simp]: "ban_num k v \<Longrightarrow> 0 < k \<Longrightarrow> length (field_text k v) = k"
proof -
  assume v: "ban_num k v" and k: "0 < k"
  then have "nat (sint v) < 10 ^ k" by (simp add: ban_num_def nat_less_iff)
  with v k length_show_nat [OF k, of "nat (sint v)"] show ?thesis by (simp add: field_text_pad)
qed

lemma stoll_field_text [simp]:
  assumes "ban_num k v" and "k \<le> 18"
  shows "stoll (field_text k v) = Inr v"
proof -
  let ?s = "field_text k v"
  have s: "?s = pad k CHR ''0'' (show_nat (nat (sint v)))" using assms(1) by (rule field_text_pad)
  then have digits: "\<And>c. c \<in> set ?s \<Longrightarrow> is_digit c" using pad_digits by simp
  have ne: "?s \<noteq> []" by (simp add: s pad_def)
  have all: "takeWhile is_digit ?s = ?s" using digits by (rule takeWhile_all)
  have "(10 :: int) ^ k \<le> 10 ^ 18" using assms(2) by (intro power_increasing) simp_all
  then have less: "sint v < 2 ^ 63" using assms(1) by (simp add: ban_num_def)
  have num: "int (read_nat ?s) = sint v" using assms(1) by (simp add: s ban_num_def)
  have sign: "take_sign (dropWhile isspace ?s) = (False, ?s)" using ne digits by (rule sign_digits)
  have ge: "0 \<le> sint v" using assms(1) by (simp add: ban_num_def)
  show ?thesis using ne less ge unfolding stoll_def by (simp add: sign all num Let_def)
qed

lemma substr_at:
  "length pre = pos \<Longrightarrow> length x = n \<Longrightarrow> substr (pre @ x @ post) pos n = Inr x"
  by (simp add: substr_def)

lemma ban_text_fields:
  "ban_text a = field_text 4 (act_year a) @ CHR ''-'' # field_text 2 (act_month a) @ CHR ''-'' #
     field_text 2 (act_day a) @ CHR '' '' # field_text 2 (act_hour a) @ CHR '':'' #
     field_text 2 (act_minute a) @ CHR '':'' # field_text 2 (act_second a)"
  by (simp add: ban_text_def field_text_def)

lemma substr_ban_text:
  assumes "ban_date_ok a"
  shows "substr (ban_text a) 0 4 = Inr (field_text 4 (act_year a))"
    and "substr (ban_text a) 5 2 = Inr (field_text 2 (act_month a))"
    and "substr (ban_text a) 8 2 = Inr (field_text 2 (act_day a))"
    and "substr (ban_text a) 11 2 = Inr (field_text 2 (act_hour a))"
    and "substr (ban_text a) 14 2 = Inr (field_text 2 (act_minute a))"
    and "substr (ban_text a) 17 2 = Inr (field_text 2 (act_second a))"
  using assms by (simp_all add: substr_def ban_text_fields ban_date_ok_def)

lemma ban_field_text:
  assumes "ban_date_ok a"
  shows "ban_field (ban_text a) 0 4 s = (Inr (act_year a), s)"
    and "ban_field (ban_text a) 5 2 s = (Inr (act_month a), s)"
    and "ban_field (ban_text a) 8 2 s = (Inr (act_day a), s)"
    and "ban_field (ban_text a) 11 2 s = (Inr (act_hour a), s)"
    and "ban_field (ban_text a) 14 2 s = (Inr (act_minute a), s)"
    and "ban_field (ban_text a) 17 2 s = (Inr (act_second a), s)"
  using assms substr_ban_text [OF assms] by (simp_all add: ban_field_def ban_date_ok_def)

section \<open>Reading a row\<close>

text \<open>
  \<open>ban_row\<close>: the query of \<open>GetBanData\<close> for a player succeeds, and the row found has these two values.
\<close>

definition ban_row ::
  "('w, 'con, 'st, 'rs) sql \<Rightarrow> ('con, 'st) opfl_connection \<Rightarrow> string \<Rightarrow> 'w \<Rightarrow> 'rs \<Rightarrow> u64 \<Rightarrow> string \<Rightarrow> 'w \<Rightarrow> bool" where
  "ban_row d oc uid w res left s w' \<longleftrightarrow>
     (\<exists>w1 w2 w3 b. sql_setString d (oc_prep_getBanData oc) 1 uid w = (Inr (), w1) \<and>
        sql_executeQuery d (oc_prep_getBanData oc) w1 = (Inr res, w2) \<and> sql_next d res w2 = (Inr b, w3) \<and>
        sql_getInt64 d res ''Ditch'' w3 = (Inr left, w') \<and> sql_getString d res ''Banned'' w' = (Inr s, w'))"

lemma callE_simps [simp]:
  "c w = (Inr x, w') \<Longrightarrow> callE c w = (Inr x, w')"
  "c w = (Inl msg, w') \<Longrightarrow> callE c w = (Inl (Thrown (SQLException msg)), w')"
  by (simp_all add: callE_def)

lemma thenE_onSnd [simp]:
  "m w = (Inr x, w') \<Longrightarrow> thenE (onSnd m) f (a, w) = f x (a, w')"
  by (simp add: thenE_def)

lemma thenE_setE [simp]: "thenE (setE g) f (a, w) = f () (g a, w)"
  by (simp add: thenE_def setE_def)

lemma thenE_read_ban_field:
  assumes "sql_getString d res ''Banned'' w = (Inr s, w)" and "ban_field s pos n (act, w) = (Inr v, (act, w))"
  shows "thenE (read_ban_field d res pos n upd) f (act, w) = f () (upd v act, w)"
  using assms by (simp add: read_ban_field_def thenE_assoc)

lemma GetBanData_row:
  assumes "ban_row d oc uid w res left (ban_text a) w'" and "ban_date_ok a"
  shows "GetBanData d (Some oc) uid (act, w) =
    (Inr True, (act\<lparr>act_left := left, act_year := act_year a, act_month := act_month a, act_day := act_day a,
       act_hour := act_hour a, act_minute := act_minute a, act_second := act_second a\<rparr>, sql_deleteResultSet d res w'))"
proof -
  note fields = thenE_read_ban_field [OF _ ban_field_text(1) [OF assms(2)]]
    thenE_read_ban_field [OF _ ban_field_text(2) [OF assms(2)]]
    thenE_read_ban_field [OF _ ban_field_text(3) [OF assms(2)]]
    thenE_read_ban_field [OF _ ban_field_text(4) [OF assms(2)]]
    thenE_read_ban_field [OF _ ban_field_text(5) [OF assms(2)]]
    thenE_read_ban_field [OF _ ban_field_text(6) [OF assms(2)]]
  show ?thesis
    using assms(1) unfolding ban_row_def GetBanData_def
    by (elim exE conjE) (intro catch_sql_simps(1), simp add: fields)
qed

text \<open>A date that is too short or not a number: the exception is none the handler catches.\<close>

lemma thenE_read_ban_field_bad:
  assumes "sql_getString d res ''Banned'' w = (Inr s, w)" and "bindE (substr s pos n) stoll = Inl e"
  shows "thenE (read_ban_field d res pos n upd) f (act, w) = (Inl (Thrown (StdException e)), (act, w))"
  using assms by (simp add: read_ban_field_def thenE_assoc) (simp add: thenE_def ban_field_def)

text \<open>The database keeps what an update of a ban stores.\<close>

definition stores_bans :: "('w, 'con, 'st, 'rs) sql \<Rightarrow> ('con, 'st) opfl_connection \<Rightarrow> bool" where
  "stores_bans d oc \<longleftrightarrow>
     (\<forall>a uid w w1 w2 w3 w4. ban_date_ok a \<longrightarrow>
        sql_setInt64 d (oc_prep_writeBanData oc) 1 (act_left a) w = (Inr (), w1) \<longrightarrow>
        sql_setString d (oc_prep_writeBanData oc) 2 (ban_text a) w1 = (Inr (), w2) \<longrightarrow>
        sql_setString d (oc_prep_writeBanData oc) 3 uid w2 = (Inr (), w3) \<longrightarrow>
        sql_executeUpdate d (oc_prep_writeBanData oc) w3 = (Inr (), w4) \<longrightarrow>
        (\<exists>res w5. ban_row d oc uid w4 res (act_left a) (ban_text a) w5))"

lemma callE_Inr: "callE c w = (Inr x, w') \<longleftrightarrow> c w = (Inr x, w')"
  by (auto simp: callE_def split: prod.splits sum.splits)

lemma catch_sql_True: "catch_sql m (retE False) w = (Inr True, w') \<Longrightarrow> m w = (Inr True, w')"
  by (auto simp: catch_sql_def split: prod.splits sum.splits failure.splits exc.splits)

lemma WriteBanData_True:
  assumes "WriteBanData d (Some oc) a w = (Inr True, w')"
  shows "\<exists>w1 w2 w3. sql_setInt64 d (oc_prep_writeBanData oc) 1 (act_left a) w = (Inr (), w1) \<and>
    sql_setString d (oc_prep_writeBanData oc) 2 (ban_text a) w1 = (Inr (), w2) \<and>
    sql_setString d (oc_prep_writeBanData oc) 3 (act_UIDName a) w2 = (Inr (), w3) \<and>
    sql_executeUpdate d (oc_prep_writeBanData oc) w3 = (Inr (), w')"
  using catch_sql_True [OF assms [unfolded WriteBanData_def derefE_Some]]
  by (auto simp: Let_def thenE_Inr_iff callE_Inr)

section \<open>Properties\<close>

text \<open>
  C28: On a valid connection no error of the database reaches the caller of a function that has a handler:
  each returns, false when the driver threw. \<open>GetBanData\<close> alone can fail, and only with the exception
  of a conversion.
\<close>

theorem connector_reports_errors:
  assumes "oc_con oc = Some c"
  shows "(\<exists>b. fst (CommitData d (Some oc) w) = Inr b) \<and> (\<exists>b. fst (Close d (Some oc) w) = Inr b) \<and>
    (\<exists>b. fst (CreateAccount d (Some oc) uid w) = Inr b) \<and> (\<exists>b. fst (CreateBanData d (Some oc) uid w) = Inr b) \<and>
    (\<exists>b. fst (WriteKills d (Some oc) uid n w) = Inr b) \<and> (\<exists>b. fst (WriteChickens d (Some oc) uid n w) = Inr b) \<and>
    (\<exists>b. fst (WriteAccount d (Some oc) act w) = Inr b) \<and> (\<exists>b. fst (WriteBanData d (Some oc) act w) = Inr b) \<and>
    (\<exists>b. fst (GetAccount d (Some oc) uid (act, w)) = Inr b) \<and>
    (\<forall>e. fst (GetBanData d (Some oc) uid (act, w)) = Inl e \<longrightarrow> (\<exists>x. e = Thrown (StdException x)))"
proof -
  note raises = updates_raise_nothing [OF assms, of d]
  have "\<forall>e. fst (GetBanData d (Some oc) uid (act, w)) = Inl e \<longrightarrow> (\<exists>x. e = Thrown (StdException x))"
    using GetBanData_fails [of d oc uid] by (cases "GetBanData d (Some oc) uid (act, w)") fastforce
  with raises_nothing_returns [OF raises(1)] raises_nothing_returns [OF raises(2)]
    raises_nothing_returns [OF raises(3)] raises_nothing_returns [OF raises(4)]
    raises_nothing_returns [OF raises(5)] raises_nothing_returns [OF raises(6)]
    raises_nothing_returns [OF raises(7)] raises_nothing_returns [OF raises(8)]
    raises_nothing_returns [OF raises(9)]
  show ?thesis by blast
qed

text \<open>The smallest database: one table of bans, the parameters of the statement to come.\<close>

type_synonym mem_db = "u64 \<times> (nat \<Rightarrow> string) \<times> (string \<Rightarrow> u64 \<times> string)"

definition mem_sql :: "(mem_db, unit, unit, string) sql" where
  "mem_sql =
     \<lparr>sql_driver = 0, sql_connect = \<lambda>_ _ _ w. (Inr (), w), sql_setTransactionIsolation = \<lambda>_ _ w. (Inr (), w),
      sql_setSchema = \<lambda>_ _ w. (Inr (), w), sql_setAutoCommit = \<lambda>_ _ w. (Inr (), w),
      sql_prepareStatement = \<lambda>_ _ w. (Inr (), w), sql_commit = \<lambda>_ w. (Inr (), w), sql_close = \<lambda>_ w. (Inr (), w),
      sql_deleteConnection = \<lambda>_ w. w, sql_threadInit = \<lambda>w. (Inr (), w), sql_threadEnd = \<lambda>w. (Inr (), w),
      sql_setString = \<lambda>_ i s (p, ps, t). (Inr (), (p, ps(i := s), t)), sql_setInt = \<lambda>_ _ _ w. (Inr (), w),
      sql_setInt64 = \<lambda>_ _ v (p, ps, t). (Inr (), (v, ps, t)), sql_executeQuery = \<lambda>_ (p, ps, t). (Inr (ps 1), (p, ps, t)),
      sql_executeUpdate = \<lambda>_ (p, ps, t). (Inr (), (p, ps, t(ps 3 := (p, ps 2)))), sql_deleteStatement = \<lambda>_ w. w,
      sql_next = \<lambda>_ w. (Inr True, w), sql_getBoolean = \<lambda>_ _ w. (Inr True, w), sql_getInt = \<lambda>_ _ w. (Inr 0, w),
      sql_getInt64 = \<lambda>rs _ (p, ps, t). (Inr (fst (t rs)), (p, ps, t)),
      sql_getString = \<lambda>rs _ (p, ps, t). (Inr (snd (t rs)), (p, ps, t)), sql_deleteResultSet = \<lambda>_ w. w\<rparr>"

definition mem_connection :: "(unit, unit) opfl_connection" where
  "mem_connection = \<lparr>oc_con = Some (), oc_driver = 0, oc_prep_createAccount = (), oc_prep_createBanData = (),
     oc_prep_writeAccount = (), oc_prep_writeBanData = (), oc_prep_writeKills = (), oc_prep_writeChickens = (),
     oc_prep_getAccount = (), oc_prep_getBanData = (), oc_prep_exists = ()\<rparr>"

definition mem_account :: opfl_account where
  "mem_account = \<lparr>act_second = 9, act_minute = 5, act_hour = 23, act_day = 7, act_month = 4, act_year = 2017,
     act_left = 5, act_chickens = 0, act_kills = 0, act_matches = 0, act_wins = 0, act_losses = 0,
     act_rank = 1, act_level = 0, act_UIDName = ''joe''\<rparr>"

lemma connector_reports_errors_witness:
  "\<exists>b. fst (CommitData mem_sql (Some mem_connection) (0, (\<lambda>_. []), (\<lambda>_. (0, [])))) = Inr b"
proof -
  have "oc_con mem_connection = Some ()" by (simp add: mem_connection_def)
  from connector_reports_errors [OF this, of mem_sql] show ?thesis by blast
qed


lemma mem_account_ok: "ban_date_ok mem_account"
  by (simp add: ban_date_ok_def ban_num_def mem_account_def)

lemma mem_stores_bans: "stores_bans mem_sql mem_connection"
  by (auto simp: stores_bans_def ban_row_def mem_sql_def)


text \<open>
  C38: A date the database returns that is too short or does not start with a number makes \<open>GetBanData\<close> throw
  an exception its handler does not catch, after the count was already stored in the account.
\<close>

theorem unreadable_ban_date_escapes:
  assumes "ban_row d oc uid w res left s w'" and "bindE (substr s 0 4) stoll = Inl e"
  shows "GetBanData d (Some oc) uid (act, w) = (Inl (Thrown (StdException e)), (act\<lparr>act_left := left\<rparr>, w'))"
proof -
  show ?thesis
    using assms(1) unfolding ban_row_def GetBanData_def
    by (elim exE conjE) (simp add: catch_sql_def thenE_read_ban_field_bad [OF _ assms(2)])
qed

lemma unreadable_ban_date_escapes_witness:
  "\<exists>w'. GetBanData mem_sql (Some mem_connection) ''joe'' (mem_account, (0, (\<lambda>_. []), (\<lambda>_. (3, []))))
     = (Inl (Thrown (StdException InvalidArgument)), (mem_account\<lparr>act_left := 3\<rparr>, w'))"
proof -
  have "\<exists>w'. ban_row mem_sql mem_connection ''joe'' (0, (\<lambda>_. []), (\<lambda>_. (3, []))) ''joe'' 3 [] w'"
    by (simp add: ban_row_def mem_sql_def) (rule exI [of _ True], rule TrueI)
  moreover have "bindE (substr [] 0 4) stoll = Inl InvalidArgument"
    by (simp add: substr_def stoll_def)
  ultimately show ?thesis by (auto dest: unreadable_ban_date_escapes)
qed

end
