(* ===== verification/Conn_Pool.thy ===== *)
theory Conn_Pool
  imports Effect
begin

text \<open>
  \<open>active911::ConnectionPool\<close> of \<^verbatim>\<open>OPFL/ConnectionPool.h\<close>: a queue of free connections and the set of
  those lent out. Every operation holds the mutex of the pool, so it is one step. A \<open>shared_ptr\<close> is
  the identity of the connection it points to (\<open>'c\<close>, ordered as the set is); how many copies of it
  exist outside the pool is the argument \<open>held\<close>. What the pool asks of its factory is the locale
  \<open>connection_source\<close>; what it promises its clients is proved there once.
\<close>

record 'c pool =
  cp_pool_size :: nat
  cp_pool :: "'c list"
  cp_borrowed :: "'c list"

section \<open>Operations\<close>

text \<open>The set of borrowed connections, in its order; inserting and erasing.\<close>

fun set_insert :: "'c :: linorder \<Rightarrow> 'c list \<Rightarrow> 'c list" where
  "set_insert c [] = [c]"
| "set_insert c (x # xs) = (if c < x then c # x # xs else if c = x then x # xs else x # set_insert c xs)"

definition set_erase :: "'c \<Rightarrow> 'c list \<Rightarrow> 'c list" where
  "set_erase c xs = filter (\<lambda>x. x \<noteq> c) xs"

definition updFst :: "('p \<Rightarrow> 'p) \<Rightarrow> ('p \<times> 's, unit) eff" where
  "updFst f = updE (\<lambda>(p, s). (f p, s))"

definition use_count :: "('c \<Rightarrow> nat) \<Rightarrow> 'c pool \<Rightarrow> 'c \<Rightarrow> nat" where
  "use_count held p c = count_list (cp_pool p) c + count_list (cp_borrowed p) c + held c"

definition get_stats :: "'c pool \<Rightarrow> nat \<times> nat" where
  "get_stats p = (length (cp_pool p), length (cp_borrowed p))"

text \<open>The constructor; the first argument of the loop is what is left to create.\<close>

fun fill_loop :: "nat \<Rightarrow> ('s, 'c) eff \<Rightarrow> ('c pool \<times> 's, unit) eff" where
  "fill_loop 0 create = retE ()"
| "fill_loop (Suc n) create =
     thenE (onSnd create) (\<lambda>c.
     thenE (updFst (\<lambda>p. p\<lparr>cp_pool := cp_pool p @ [c]\<rparr>)) (\<lambda>_. fill_loop n create))"

definition pool_new :: "nat \<Rightarrow> ('s, 'c) eff \<Rightarrow> ('s, 'c pool) eff" where
  "pool_new pool_size create s =
     (case fill_loop pool_size create (\<lparr>cp_pool_size = pool_size, cp_pool = [], cp_borrowed = []\<rparr>, s) of
        (Inr _, p, s) \<Rightarrow> (Inr p, s)
      | (Inl e, p, s) \<Rightarrow> (Inl e, s))"

text \<open>
  The search of \<open>borrow\<close> for a connection nobody but the set refers to. Erasing it from the set
  destroys it, after the new one was created.
\<close>

definition replace ::
  "('s, 'c :: linorder) eff \<Rightarrow> ('c \<Rightarrow> ('s, unit) eff) \<Rightarrow> 'c \<Rightarrow> ('c pool \<times> 's, 'c) eff" where
  "replace create destroy it =
     catch_any
       (thenE (onSnd create) (\<lambda>conn.
        thenE (updFst (\<lambda>p. p\<lparr>cp_borrowed := set_erase it (cp_borrowed p)\<rparr>)) (\<lambda>_.
        thenE (onSnd (destroy it)) (\<lambda>_.
        thenE (updFst (\<lambda>p. p\<lparr>cp_borrowed := set_insert conn (cp_borrowed p)\<rparr>)) (\<lambda>_.
          retE conn)))))
       (\<lambda>e. failE (Thrown ConnectionImpossible))"

fun borrow_loop ::
  "('s, 'c :: linorder) eff \<Rightarrow> ('c \<Rightarrow> ('s, unit) eff) \<Rightarrow> ('c \<Rightarrow> nat) \<Rightarrow> 'c list \<Rightarrow> ('c pool \<times> 's, 'c) eff" where
  "borrow_loop create destroy held [] = failE (Thrown ConnectionUnavailable)"
| "borrow_loop create destroy held (it # its) =
     thenE getE (\<lambda>(p, s).
       if use_count held p it = 1 then replace create destroy it
       else borrow_loop create destroy held its)"

definition borrow ::
  "('s, 'c :: linorder) eff \<Rightarrow> ('c \<Rightarrow> ('s, unit) eff) \<Rightarrow> ('c \<Rightarrow> nat) \<Rightarrow> ('c pool \<times> 's, 'c) eff" where
  "borrow create destroy held =
     thenE getE (\<lambda>(p, s).
       case cp_pool p of
         [] \<Rightarrow> borrow_loop create destroy held (cp_borrowed p)
       | conn # rest \<Rightarrow>
           thenE (updFst (\<lambda>p. p\<lparr>cp_pool := rest\<rparr>)) (\<lambda>_.
           thenE (updFst (\<lambda>p. p\<lparr>cp_borrowed := set_insert conn (cp_borrowed p)\<rparr>)) (\<lambda>_.
             retE conn)))"

definition unborrow :: "'c \<Rightarrow> 'c pool \<Rightarrow> 'c pool" where
  "unborrow conn p =
     p\<lparr>cp_pool := cp_pool p @ [conn], cp_borrowed := set_erase conn (cp_borrowed p)\<rparr>"

section \<open>The set\<close>

lemma set_set_insert [simp]: "set (set_insert c xs) = insert c (set xs)"
  by (induction xs) auto

lemma set_set_erase [simp]: "set (set_erase c xs) = set xs - {c}"
  by (auto simp: set_erase_def)

lemma sorted_set_insert [simp]: "sorted_wrt (<) xs \<Longrightarrow> sorted_wrt (<) (set_insert c xs)"
  by (induction xs) (auto simp: not_less_iff_gr_or_eq)

lemma sorted_set_erase [simp]: "sorted_wrt (<) xs \<Longrightarrow> sorted_wrt (<) (set_erase c xs)"
  by (simp add: set_erase_def sorted_wrt_filter)

lemma distinct_sorted: "sorted_wrt (<) (xs :: 'c :: linorder list) \<Longrightarrow> distinct xs"
  by (induction xs) auto

lemma length_set_insert: "c \<notin> set xs \<Longrightarrow> length (set_insert c xs) = Suc (length xs)"
  by (induction xs) auto

lemma length_set_erase:
  assumes "distinct xs" and "c \<in> set xs"
  shows "Suc (length (set_erase c xs)) = length xs"
proof -
  have "set_erase c xs = remove1 c xs"
    using distinct_remove1_removeAll [OF assms(1), of c] by (simp add: set_erase_def removeAll_filter_not_eq eq_commute)
  with assms(2) length_pos_if_in_set [OF assms(2)] show ?thesis by (simp add: length_remove1)
qed

lemma count_list_zero [simp]: "count_list xs c = 0 \<longleftrightarrow> c \<notin> set xs"
  by (induction xs) auto

lemma updFst_simp [simp]: "updFst f (p, s) = (Inr (), (f p, s))"
  by (simp add: updFst_def)

section \<open>Clients\<close>

text \<open>
  The invariant of the pool; \<open>alive\<close> are the connections that exist. Every connection is either free
  or borrowed, and there are always as many as the pool was made with.
\<close>

definition pool_ok :: "('s \<Rightarrow> 'c set) \<Rightarrow> 'c :: linorder pool \<Rightarrow> 's \<Rightarrow> bool" where
  "pool_ok alive p s \<longleftrightarrow> distinct (cp_pool p) \<and> sorted_wrt (<) (cp_borrowed p) \<and>
     set (cp_pool p) \<inter> set (cp_borrowed p) = {} \<and> set (cp_pool p) \<union> set (cp_borrowed p) \<subseteq> alive s \<and>
     length (cp_pool p) + length (cp_borrowed p) = cp_pool_size p"

text \<open>
  Any number of clients use the pool: each borrows, returns what it borrowed or lets it go out of
  scope, in any order. \<open>lent\<close> are the copies the clients hold, which is what the use counts see.
\<close>

definition lent_count :: "('i \<times> 'c) list \<Rightarrow> 'c \<Rightarrow> nat" where
  "lent_count lent c = count_list (map snd lent) c"

inductive pool_step ::
  "('s, 'c :: linorder) eff \<Rightarrow> ('c \<Rightarrow> ('s, unit) eff) \<Rightarrow>
   'c pool \<times> 's \<times> ('i \<times> 'c) list \<Rightarrow> 'c pool \<times> 's \<times> ('i \<times> 'c) list \<Rightarrow> bool" for create destroy where
  borrows: "borrow create destroy (lent_count lent) (p, s) = (Inr c, (p', s')) \<Longrightarrow>
     pool_step create destroy (p, s, lent) (p', s', (i, c) # lent)"
| refused: "borrow create destroy (lent_count lent) (p, s) = (Inl e, (p', s')) \<Longrightarrow>
     pool_step create destroy (p, s, lent) (p', s', lent)"
| returns: "(i, c) \<in> set lent \<Longrightarrow>
     pool_step create destroy (p, s, lent) (unborrow c p, s, remove1 (i, c) lent)"
| drops: "(i, c) \<in> set lent \<Longrightarrow>
     pool_step create destroy (p, s, lent) (p, s, remove1 (i, c) lent)"

inductive pool_reach ::
  "nat \<Rightarrow> ('s, 'c :: linorder) eff \<Rightarrow> ('c \<Rightarrow> ('s, unit) eff) \<Rightarrow> 's \<Rightarrow>
   'c pool \<times> 's \<times> ('i \<times> 'c) list \<Rightarrow> bool" for n create destroy s0 where
  made: "pool_new n create s0 = (Inr p, s) \<Longrightarrow> pool_reach n create destroy s0 (p, s, [])"
| step: "pool_reach n create destroy s0 x \<Longrightarrow> pool_step create destroy x y \<Longrightarrow> pool_reach n create destroy s0 y"

inductive_cases pool_stepE: "pool_step create destroy (p, s, lent) y"

lemma count_list_distinct: "distinct xs \<Longrightarrow> count_list xs c = (if c \<in> set xs then 1 else 0)"
  by (induction xs) auto

lemma use_count_borrowed:
  assumes "pool_ok alive p s" and "c \<in> set (cp_borrowed p)"
  shows "use_count held p c = 1 + held c"
proof -
  have "distinct (cp_borrowed p)" using assms(1) by (simp add: pool_ok_def distinct_sorted)
  moreover have "c \<notin> set (cp_pool p)" using assms by (auto simp: pool_ok_def)
  ultimately show ?thesis using assms(2) by (simp add: use_count_def count_list_distinct)
qed

text \<open>What \<open>borrow\<close> does, by the first entry of the pool or the first connection nobody holds.\<close>

lemma borrow_loop_eq:
  "borrow_loop create destroy held its (p, s) =
     (case find (\<lambda>c. use_count held p c = 1) its of
        None \<Rightarrow> (Inl (Thrown ConnectionUnavailable), (p, s))
      | Some it \<Rightarrow> replace create destroy it (p, s))"
  by (induction its) (simp_all add: thenE_def)

lemma borrow_Nil:
  "cp_pool p = [] \<Longrightarrow> borrow create destroy held (p, s) = borrow_loop create destroy held (cp_borrowed p) (p, s)"
  by (simp add: borrow_def thenE_def)

lemma borrow_Cons:
  "cp_pool p = c # cs \<Longrightarrow> borrow create destroy held (p, s) =
     (Inr c, (p\<lparr>cp_pool := cs, cp_borrowed := set_insert c (cp_borrowed p)\<rparr>, s))"
  by (simp add: borrow_def thenE_def)

lemma borrow_abandoned:
  assumes "pool_ok alive p s" and "cp_pool p = []"
  shows "borrow create destroy held (p, s) =
     (case find (\<lambda>c. held c = 0) (cp_borrowed p) of
        None \<Rightarrow> (Inl (Thrown ConnectionUnavailable), (p, s))
      | Some it \<Rightarrow> replace create destroy it (p, s))"
proof -
  have "find (\<lambda>c. use_count held p c = 1) (cp_borrowed p) = find (\<lambda>c. held c = 0) (cp_borrowed p)"
    using use_count_borrowed [OF assms(1)] by (intro find_cong) auto
  then show ?thesis unfolding borrow_Nil [of p, OF assms(2)] borrow_loop_eq by (rule arg_cong)
qed

lemma unborrow_ok:
  assumes "pool_ok alive p s" and "c \<in> set (cp_borrowed p)"
  shows "pool_ok alive (unborrow c p) s"
proof -
  have "distinct (cp_borrowed p)" using assms(1) by (simp add: pool_ok_def distinct_sorted)
  from length_set_erase [OF this assms(2)] assms show ?thesis
    by (auto simp: pool_ok_def unborrow_def)
qed

lemma lent_remove:
  assumes "distinct (map snd lent)" and "(i, c) \<in> set lent"
  shows "distinct (map snd (remove1 (i, c) lent)) \<and> snd ` set (remove1 (i, c) lent) = snd ` set lent - {c}"
proof -
  have d: "distinct lent" and inj: "inj_on snd (set lent)" using assms(1) by (simp_all add: distinct_map)
  then have set: "set (remove1 (i, c) lent) = set lent - {(i, c)}" by simp
  have "inj_on snd (set lent - {(i, c)})" using inj by (rule inj_on_diff)
  moreover have "snd ` (set lent - {(i, c)}) = snd ` set lent - snd ` {(i, c)}"
    using inj assms(2) by (intro inj_on_image_set_diff) auto
  ultimately show ?thesis using d by (simp add: distinct_map set)
qed

section \<open>The contract of the factory\<close>

text \<open>
  A new connection is none of those alive; a failure to create one is an exception and leaves them as
  they are; destroying one that is alive does not fail.
\<close>

locale connection_source =
  fixes create :: "('s, 'c :: linorder) eff"
    and destroy :: "'c \<Rightarrow> ('s, unit) eff"
    and alive :: "'s \<Rightarrow> 'c set"
  assumes create_fresh: "create s = (Inr c, s') \<Longrightarrow> c \<notin> alive s \<and> alive s' = insert c (alive s)"
    and create_fails: "create s = (Inl e, s') \<Longrightarrow> (\<exists>x. e = Thrown x) \<and> alive s' = alive s"
    and destroy_alive: "c \<in> alive s \<Longrightarrow> destroy c s = (r, s') \<Longrightarrow> r = Inr () \<and> alive s' = alive s - {c}"
begin

lemma fill_loop_ok:
  assumes "fill_loop n create (p, s) = (Inr u, (p', s'))"
    and "distinct (cp_pool p)" and "set (cp_pool p) \<subseteq> alive s" and "cp_borrowed p = []"
    and "length (cp_pool p) + n = cp_pool_size p"
  shows "pool_ok alive p' s' \<and> cp_borrowed p' = [] \<and> cp_pool_size p' = cp_pool_size p"
  using assms
proof (induction n arbitrary: p s)
  case 0
  then show ?case by (simp add: pool_ok_def)
next
  case (Suc n)
  then obtain c s1 where c: "create s = (Inr c, s1)"
    "fill_loop n create (p\<lparr>cp_pool := cp_pool p @ [c]\<rparr>, s1) = (Inr u, (p', s'))"
    by (cases "create s"; cases "fst (create s)") (auto simp: thenE_def)
  from create_fresh [OF c(1)] Suc.prems have "c \<notin> set (cp_pool p)" "set (cp_pool p) \<subseteq> alive s1" "c \<in> alive s1" by auto
  with Suc.IH [OF c(2)] Suc.prems show ?case by auto
qed

lemma pool_new_ok:
  assumes "pool_new n create s = (Inr p, s')"
  shows "pool_ok alive p s' \<and> cp_borrowed p = [] \<and> cp_pool_size p = n"
  using assms fill_loop_ok [of n "\<lparr>cp_pool_size = n, cp_pool = [], cp_borrowed = []\<rparr>" s]
  by (auto simp: pool_new_def split: prod.splits sum.splits)

lemma replace_cases:
  assumes "pool_ok alive p s" and "it \<in> set (cp_borrowed p)"
  shows "(\<exists>e s'. create s = (Inl e, s') \<and> replace create destroy it (p, s) = (Inl (Thrown ConnectionImpossible), (p, s'))) \<or>
    (\<exists>c s1 s'. create s = (Inr c, s1) \<and> destroy it s1 = (Inr (), s') \<and>
       replace create destroy it (p, s) =
         (Inr c, (p\<lparr>cp_borrowed := set_insert c (set_erase it (cp_borrowed p))\<rparr>, s')))"
proof (cases "create s")
  case (Pair r s1)
  show ?thesis
  proof (cases r)
    case (Inl e)
    with Pair create_fails [of s e s1] show ?thesis by (auto simp: replace_def catch_any_def thenE_def)
  next
    case (Inr c)
    with Pair create_fresh [of s c s1] assms have "it \<in> alive s1" by (auto simp: pool_ok_def)
    then obtain s' where "destroy it s1 = (Inr (), s')" using destroy_alive by (cases "destroy it s1") blast
    with Pair Inr show ?thesis by (auto simp: replace_def catch_any_def thenE_def)
  qed
qed

lemma replaced_ok:
  assumes "pool_ok alive p s" and "it \<in> set (cp_borrowed p)"
    and "create s = (Inr c, s1)" and "destroy it s1 = (Inr (), s')"
  shows "pool_ok alive (p\<lparr>cp_borrowed := set_insert c (set_erase it (cp_borrowed p))\<rparr>) s'"
proof -
  from create_fresh [OF assms(3)] assms(1,2) have c: "c \<notin> alive s" "alive s1 = insert c (alive s)" "it \<in> alive s1"
    by (auto simp: pool_ok_def)
  from destroy_alive [OF c(3) assms(4)] c(2) have s': "alive s' = insert c (alive s) - {it}" by simp
  have d: "distinct (cp_borrowed p)" using assms(1) by (simp add: pool_ok_def distinct_sorted)
  from c(1) assms(1,2) have "c \<notin> set (set_erase it (cp_borrowed p))" "c \<notin> set (cp_pool p)" "c \<noteq> it" by (auto simp: pool_ok_def)
  with length_set_insert [of c "set_erase it (cp_borrowed p)"] length_set_erase [OF d assms(2)] s' assms(1,2)
  show ?thesis by (auto simp: pool_ok_def)
qed

text \<open>What a client sees of \<open>borrow\<close>.\<close>

lemma borrow_cases:
  assumes "pool_ok alive p s" and "borrow create destroy held (p, s) = (r, (p', s'))"
  shows "pool_ok alive p' s' \<and> cp_pool_size p' = cp_pool_size p \<and>
    (case r of Inr c \<Rightarrow> c \<in> set (cp_borrowed p') \<and> c \<notin> set (cp_borrowed p) \<and>
                  (\<forall>x \<in> set (cp_borrowed p). held x \<noteq> 0 \<longrightarrow> x \<in> set (cp_borrowed p'))
     | Inl e \<Rightarrow> p' = p \<and> cp_pool p = [] \<and> e \<in> {Thrown ConnectionUnavailable, Thrown ConnectionImpossible})"
proof (cases "cp_pool p")
  case (Cons c cs)
  with assms have "c \<notin> set (cp_borrowed p)" by (auto simp: pool_ok_def)
  with assms Cons show ?thesis by (auto simp: borrow_Cons pool_ok_def length_set_insert)
next
  case Nil
  show ?thesis
  proof (cases "find (\<lambda>c. held c = 0) (cp_borrowed p)")
    case None
    with assms(2) borrow_abandoned [OF assms(1) Nil, of create destroy held] assms(1) Nil show ?thesis by auto
  next
    case (Some it)
    then have it: "it \<in> set (cp_borrowed p)" "held it = 0" by (auto simp: find_Some_iff)
    have eq: "replace create destroy it (p, s) = (r, (p', s'))"
      using assms(2) borrow_abandoned [OF assms(1) Nil, of create destroy held] Some by simp
    from replace_cases [OF assms(1) it(1)] show ?thesis
    proof (elim disjE exE conjE)
      fix e s'' assume "create s = (Inl e, s'')" "replace create destroy it (p, s) = (Inl (Thrown ConnectionImpossible), (p, s''))"
      with eq Nil assms(1) create_fails [of s e s''] show ?thesis by (auto simp: pool_ok_def)
    next
      fix c s1 s'' assume new: "create s = (Inr c, s1)" "destroy it s1 = (Inr (), s'')"
        and "replace create destroy it (p, s) = (Inr c, (p\<lparr>cp_borrowed := set_insert c (set_erase it (cp_borrowed p))\<rparr>, s''))"
      with eq have r: "r = Inr c" "s' = s''" "p' = p\<lparr>cp_borrowed := set_insert c (set_erase it (cp_borrowed p))\<rparr>" by auto
      from create_fresh [OF new(1)] assms(1) have "c \<notin> set (cp_borrowed p)" by (auto simp: pool_ok_def)
      with r replaced_ok [OF assms(1) it(1) new] it(2) show ?thesis by auto
    qed
  qed
qed

text \<open>The invariant of the pool and its clients.\<close>

definition lending :: "nat \<Rightarrow> 'c pool \<times> 's \<times> ('i \<times> 'c) list \<Rightarrow> bool" where
  "lending n x = (case x of (p, s, lent) \<Rightarrow>
     pool_ok alive p s \<and> cp_pool_size p = n \<and> distinct (map snd lent) \<and> snd ` set lent \<subseteq> set (cp_borrowed p))"

lemma lending_step: "pool_step create destroy x y \<Longrightarrow> lending n x \<Longrightarrow> lending n y"
proof (induction rule: pool_step.induct)
  case (borrows lent p s c p' s' i)
  then have inv: "pool_ok alive p s" "distinct (map snd lent)" "snd ` set lent \<subseteq> set (cp_borrowed p)" "cp_pool_size p = n"
    by (simp_all add: lending_def)
  have "lent_count lent x \<noteq> 0" if "x \<in> snd ` set lent" for x using that by (simp add: lent_count_def)
  with borrow_cases [OF inv(1) borrows(1)] inv show ?case by (auto simp: lending_def)
next
  case (refused lent p s e p' s')
  then have "pool_ok alive p s" by (simp add: lending_def)
  from borrow_cases [OF this refused(1)] refused(2) show ?case by (auto simp: lending_def)
next
  case (returns i c lent p s)
  then have inv: "pool_ok alive p s" "distinct (map snd lent)" "snd ` set lent \<subseteq> set (cp_borrowed p)" "cp_pool_size p = n"
    by (simp_all add: lending_def)
  then have "c \<in> set (cp_borrowed p)" using returns(1) by force
  from unborrow_ok [OF inv(1) this] lent_remove [OF inv(2) returns(1)] inv(3,4) show ?case
    by (auto simp: lending_def unborrow_def)
next
  case (drops i c lent p s)
  then have inv: "distinct (map snd lent)" by (simp add: lending_def)
  from lent_remove [OF inv drops(1)] drops(2) show ?case by (auto simp: lending_def)
qed

lemma lending_reach: "pool_reach n create destroy s0 x \<Longrightarrow> lending n x"
proof (induction rule: pool_reach.induct)
  case (made p s)
  then show ?case using pool_new_ok by (auto simp: lending_def)
qed (rule lending_step)

end

end
