(* ===== verification/OPFL_Conn.thy ===== *)
theory OPFL_Conn
  imports DB_Rules Conn_Pool Linked_Heap
begin

text \<open>
  \<open>OPFLConnection\<close> and its factory, \<^verbatim>\<open>OPFL/OPFLConnection.h\<close>: the objects the pool lends, each around one
  connection of the connector. They live on a heap; the state of an operation is that heap and the
  outside world. The factory keeps the contract \<open>connection_source\<close> whatever the driver does, so the
  results on the pool hold for it.
\<close>

type_synonym ('con, 'st) conns = "('con, 'st) OPFL_CON heap"

section \<open>Operations\<close>

definition conn_new ::
  "('w, 'con, 'st, 'rs) sql \<Rightarrow> string \<Rightarrow> string \<Rightarrow> string \<Rightarrow> (('con, 'st) conns \<times> 'w, addr) eff" where
  "conn_new d server username password =
     thenE (onSnd (Connect d server username password DATABASE False)) (\<lambda>opflcon.
     thenE getE (\<lambda>(mem, w). let (a, mem) = alloc opflcon mem in
     thenE (updE (\<lambda>(_, w). (mem, w))) (\<lambda>_. retE a)))"

text \<open>A method: the object is looked up and its connection handed to the connector.\<close>

definition withConn ::
  "(('con, 'st) OPFL_CON \<Rightarrow> ('w, 'b) eff) \<Rightarrow> addr option \<Rightarrow> (('con, 'st) conns \<times> 'w, 'b) eff" where
  "withConn f this =
     thenE getE (\<lambda>(mem, w). thenE (pureE (of_mem (deref this mem))) (\<lambda>opflcon. onSnd (f opflcon)))"

text \<open>The destructor; it is \<open>noexcept\<close>, so an exception ends the process.\<close>

definition conn_destroy ::
  "('w, 'con, 'st, 'rs) sql \<Rightarrow> addr \<Rightarrow> (('con, 'st) conns \<times> 'w, unit) eff" where
  "conn_destroy d this =
     catch_any
       (thenE (withConn (\<lambda>opflcon. if opflcon \<noteq> None
               then thenE (Close d opflcon) (\<lambda>_. thenE (DeleteConnection d opflcon) (\<lambda>_. retE ()))
               else retE ()) (Some this)) (\<lambda>_.
        updE (\<lambda>(mem, w). (mem[this := None], w))))
       (\<lambda>e. failE (Ended ''terminate''))"

definition conn_ThreadInit :: "('w, 'con, 'st, 'rs) sql \<Rightarrow> addr option \<Rightarrow> (('con, 'st) conns \<times> 'w, unit) eff" where
  "conn_ThreadInit d = withConn (ThreadInit d)"

definition conn_ThreadEnd :: "('w, 'con, 'st, 'rs) sql \<Rightarrow> addr option \<Rightarrow> (('con, 'st) conns \<times> 'w, unit) eff" where
  "conn_ThreadEnd d = withConn (ThreadEnd d)"

definition conn_CommitData :: "('w, 'con, 'st, 'rs) sql \<Rightarrow> addr option \<Rightarrow> (('con, 'st) conns \<times> 'w, bool) eff" where
  "conn_CommitData d = withConn (CommitData d)"

definition conn_Exists :: "('w, 'con, 'st, 'rs) sql \<Rightarrow> addr option \<Rightarrow> string \<Rightarrow> (('con, 'st) conns \<times> 'w, bool) eff" where
  "conn_Exists d this UIDName = withConn (\<lambda>c. Exists d c UIDName) this"

definition conn_CreateAccount ::
  "('w, 'con, 'st, 'rs) sql \<Rightarrow> addr option \<Rightarrow> string \<Rightarrow> (('con, 'st) conns \<times> 'w, bool) eff" where
  "conn_CreateAccount d this UIDName = withConn (\<lambda>c. CreateAccount d c UIDName) this"

definition conn_CreateBanData ::
  "('w, 'con, 'st, 'rs) sql \<Rightarrow> addr option \<Rightarrow> string \<Rightarrow> (('con, 'st) conns \<times> 'w, bool) eff" where
  "conn_CreateBanData d this UIDName = withConn (\<lambda>c. CreateBanData d c UIDName) this"

definition conn_WriteKills ::
  "('w, 'con, 'st, 'rs) sql \<Rightarrow> addr option \<Rightarrow> string \<Rightarrow> u64 \<Rightarrow> (('con, 'st) conns \<times> 'w, bool) eff" where
  "conn_WriteKills d this UIDName kills = withConn (\<lambda>c. WriteKills d c UIDName kills) this"

definition conn_WriteChickens ::
  "('w, 'con, 'st, 'rs) sql \<Rightarrow> addr option \<Rightarrow> string \<Rightarrow> u64 \<Rightarrow> (('con, 'st) conns \<times> 'w, bool) eff" where
  "conn_WriteChickens d this UIDName chickens = withConn (\<lambda>c. WriteChickens d c UIDName chickens) this"

definition conn_WriteAccount ::
  "('w, 'con, 'st, 'rs) sql \<Rightarrow> addr option \<Rightarrow> opfl_account \<Rightarrow> (('con, 'st) conns \<times> 'w, bool) eff" where
  "conn_WriteAccount d this account = withConn (\<lambda>c. WriteAccount d c account) this"

definition conn_WriteBanData ::
  "('w, 'con, 'st, 'rs) sql \<Rightarrow> addr option \<Rightarrow> opfl_account \<Rightarrow> (('con, 'st) conns \<times> 'w, bool) eff" where
  "conn_WriteBanData d this account = withConn (\<lambda>c. WriteBanData d c account) this"

text \<open>The queries get the account by reference: it is handed in and out.\<close>

definition withAccount :: "(opfl_account \<times> 'w, bool) eff \<Rightarrow> opfl_account \<Rightarrow> ('w, bool \<times> opfl_account) eff" where
  "withAccount m act w = (case m (act, w) of (Inr b, act, w) \<Rightarrow> (Inr (b, act), w) | (Inl e, act, w) \<Rightarrow> (Inl e, w))"

definition conn_GetAccount ::
  "('w, 'con, 'st, 'rs) sql \<Rightarrow> addr option \<Rightarrow> string \<Rightarrow> opfl_account \<Rightarrow>
   (('con, 'st) conns \<times> 'w, bool \<times> opfl_account) eff" where
  "conn_GetAccount d this UIDName act = withConn (\<lambda>c. withAccount (GetAccount d c UIDName) act) this"

definition conn_GetBanData ::
  "('w, 'con, 'st, 'rs) sql \<Rightarrow> addr option \<Rightarrow> string \<Rightarrow> opfl_account \<Rightarrow>
   (('con, 'st) conns \<times> 'w, bool \<times> opfl_account) eff" where
  "conn_GetBanData d this UIDName act = withConn (\<lambda>c. withAccount (GetBanData d c UIDName) act) this"

section \<open>The factory\<close>

record factory =
  fac_server :: string
  fac_username :: string
  fac_password :: string

definition factory_new :: "string \<Rightarrow> string \<Rightarrow> string \<Rightarrow> factory" where
  "factory_new server username password =
     \<lparr>fac_server = server, fac_username = username, fac_password = password\<rparr>"

definition mysql_connection_factory :: factory where
  "mysql_connection_factory = factory_new DBHOST USER PASSWORD"

definition factory_create ::
  "('w, 'con, 'st, 'rs) sql \<Rightarrow> factory \<Rightarrow> (('con, 'st) conns \<times> 'w, addr) eff" where
  "factory_create d f = conn_new d (c_str (fac_server f)) (c_str (fac_username f)) (c_str (fac_password f))"

section \<open>The contract\<close>

text \<open>The objects whose connection can be closed and deleted.\<close>

definition sound_con :: "('con, 'st) OPFL_CON \<Rightarrow> bool" where
  "sound_con c \<longleftrightarrow> (case c of None \<Rightarrow> False | Some oc \<Rightarrow> oc_con oc \<noteq> None)"

definition conn_alive :: "('con, 'st) conns \<times> 'w \<Rightarrow> addr set" where
  "conn_alive s = {a. \<exists>c. node_at (fst s) a = Some c \<and> sound_con c}"

lemma Connect_cases:
  "(\<exists>msg. fst (Connect d h u p s a w) = Inl (Thrown (SQLException msg))) \<or>
   (\<exists>c. fst (Connect d h u p s a w) = Inr c \<and> sound_con c)"
proof (cases "Connect d h u p s a w")
  case (Pair r w')
  have "raises sql_failures (Connect d h u p s a)"
    unfolding Connect_def by (intro raises_intros) auto
  with Pair have "r = Inl e \<Longrightarrow> e \<in> sql_failures" for e unfolding raises_def by blast
  moreover have "sound_con c" if "r = Inr c" for c
    using Pair that unfolding Connect_def by (auto simp: thenE_Inr_iff sound_con_def)
  ultimately show ?thesis using Pair by (cases r) auto
qed

lemma conn_new_eq:
  "conn_new d h u p (mem, w) =
     (case Connect d h u p DATABASE False w of
        (Inl e, w) \<Rightarrow> (Inl e, (mem, w))
      | (Inr c, w) \<Rightarrow> (Inr (length mem), (mem @ [Some c], w)))"
  by (simp add: conn_new_def thenE_def alloc_def Let_def split: prod.split sum.split)

lemma sound_destroy:
  assumes "node_at mem a = Some c" and "sound_con c"
  shows "\<exists>w'. conn_destroy d a (mem, w) = (Inr (), (mem[a := None], w'))"
proof -
  from assms(2) obtain oc con where c: "c = Some oc" "oc_con oc = Some con"
    by (auto simp: sound_con_def split: option.splits)
  obtain b w1 where "Close d c w = (Inr b, w1)"
    using raises_nothing_returns [OF updates_raise_nothing(2) [OF c(2)], of d w] c(1)
    by (cases "Close d c w") auto
  moreover obtain w2 where "DeleteConnection d c w1 = (Inr True, w2)"
    by (simp add: DeleteConnection_def c thenE_def)
  ultimately show ?thesis
    using assms(1) c(1) by (simp add: conn_destroy_def withConn_def thenE_def catch_any_def)
qed

interpretation opfl: connection_source "factory_create d f" "conn_destroy d" conn_alive
  for d :: "('w, 'con, 'st, 'rs) sql" and f :: factory
proof unfold_locales
  fix s s' :: "('con, 'st) conns \<times> 'w" and c
  assume "factory_create d f s = (Inr c, s')"
  then show "c \<notin> conn_alive s \<and> conn_alive s' = insert c (conn_alive s)"
    using Connect_cases [of d "c_str (fac_server f)" "c_str (fac_username f)" "c_str (fac_password f)" DATABASE False "snd s"]
    by (cases s) (auto simp: factory_create_def conn_new_eq conn_alive_def split: prod.splits sum.splits if_splits)
next
  fix s s' :: "('con, 'st) conns \<times> 'w" and e
  assume "factory_create d f s = (Inl e, s')"
  then show "(\<exists>x. e = Thrown x) \<and> conn_alive s' = conn_alive s"
    using Connect_cases [of d "c_str (fac_server f)" "c_str (fac_username f)" "c_str (fac_password f)" DATABASE False "snd s"]
    by (cases s) (auto simp: factory_create_def conn_new_eq conn_alive_def split: prod.splits sum.splits)
next
  fix s s' :: "('con, 'st) conns \<times> 'w" and c r
  assume c: "c \<in> conn_alive s" and r: "conn_destroy d c s = (r, s')"
  obtain mem w where s: "s = (mem, w)" by (cases s)
  from c s obtain x where "node_at mem c = Some x" "sound_con x" by (auto simp: conn_alive_def)
  with sound_destroy [OF this, of d w] r s show "r = Inr () \<and> conn_alive s' = conn_alive s - {c}"
    by (auto simp: conn_alive_def dest: node_at_less split: if_splits)
qed

end
