(* ===== verification/Hive_QueueC.thy ===== *)
theory Hive_QueueC
  imports Fifo_Interface
begin

text \<open>
  \<open>HiveQueueC<T>\<close> of \<^verbatim>\<open>OPFL/ThreadHive.h\<close>: the message queue of every thread handle, a
  circular buffer that starts with 50 cells and grows by 50 when it is full. The record has the
  members of the class; every array access is checked, so a bad index would show as a value \<open>Inl\<close>.
  The invariant \<open>hqc_wf\<close> relates the indices, \<open>hqc_contents\<close> reads off the queued messages, and
  the class is an instance of \<open>bounded_fifo\<close>.
\<close>

record 'a hqc =
  hqc_count :: u32
  hqc_aSize :: u32
  hqc_tail :: u32
  hqc_head :: u32
  hqc_queue :: "'a cells"

definition HQ_INIT_SIZE :: u32 where
  "HQ_INIT_SIZE = 50"

definition hqc_new :: "'a hqc" where
  "hqc_new = \<lparr>hqc_count = 0, hqc_aSize = HQ_INIT_SIZE, hqc_tail = 0, hqc_head = 0,
              hqc_queue = new_array HQ_INIT_SIZE\<rparr>"

section \<open>Growing\<close>

text \<open>The two copying loops of \<open>grow\<close>: from the head to the end, then from 0 to the tail.\<close>

function grow_above :: "u32 \<Rightarrow> u32 \<Rightarrow> u32 \<Rightarrow> 'a cells \<Rightarrow> 'a cells \<Rightarrow> mem_error + u32 \<times> 'a cells" where
  "grow_above aSize i j queue temp =
     (if i < aSize
      then bindE (cell queue i) (\<lambda>c. bindE (store temp j c) (\<lambda>temp'.
             grow_above aSize (i + 1) (j + 1) queue temp'))
      else Inr (j, temp))"
  by pat_completeness auto
termination
  by (relation "measure (\<lambda>(aSize, i, j, queue, temp). unat aSize - unat i)")
    (auto simp: unat_u32_inc_less u32_less_iff)

function grow_below :: "u32 \<Rightarrow> u32 \<Rightarrow> u32 \<Rightarrow> 'a cells \<Rightarrow> 'a cells \<Rightarrow> mem_error + u32 \<times> 'a cells" where
  "grow_below tail i j queue temp =
     (if i \<noteq> tail
      then bindE (cell queue i) (\<lambda>c. bindE (store temp j c) (\<lambda>temp'.
             grow_below tail (i + 1) (j + 1) queue temp'))
      else Inr (j, temp))"
  by pat_completeness auto
termination
proof (relation "measure (\<lambda>(tail, i, j, queue, temp). unat (tail - i))", goal_cases)
  case (2 tail i j queue temp x xa)
  then have "tail - i \<noteq> 0" by simp
  then have "unat (tail - i - 1) < unat (tail - i)"
    by (metis unat_u32_dec diff_less less_one unat_eq_zero gr0I)
  then show ?case by (simp add: algebra_simps)
qed simp

declare grow_above.simps [simp del] grow_below.simps [simp del]

definition hqc_grow :: "u32 \<Rightarrow> 'a hqc \<Rightarrow> mem_error + bool \<times> 'a hqc" where
  "hqc_grow newSize q =
     (let temp = new_array newSize
      in if newSize \<le> hqc_aSize q then Inr (False, q)
         else bindE (grow_above (hqc_aSize q) (hqc_head q) 0 (hqc_queue q) temp) (\<lambda>(j, temp).
              bindE (if hqc_tail q \<le> hqc_head q
                     then grow_below (hqc_tail q) 0 j (hqc_queue q) temp
                     else Inr (j, temp)) (\<lambda>(j, temp).
              Inr (True, q\<lparr>hqc_tail := j, hqc_head := 0, hqc_aSize := newSize, hqc_queue := temp\<rparr>))))"

lemma hqc_grow_True:
  assumes "hqc_grow n q = Inr (True, q')"
  shows "hqc_aSize q' = n \<and> hqc_aSize q < n"
  using assms by (auto simp: hqc_grow_def Let_def bindE_Inr_iff split: if_splits)

section \<open>The operations\<close>

text \<open>
  A full queue grows and pushes again, and reports success whatever that second call returned.
  \<open>new_array\<close> does not run out of memory here; the wrap-around of \<open>aSize + 50\<close> is what stops the
  growth.
\<close>

function hqc_push :: "'a \<Rightarrow> 'a hqc \<Rightarrow> mem_error + bool \<times> 'a hqc" where
  "hqc_push msg q =
     (if hqc_count q < 1
      then bindE (store (hqc_queue q) 0 (Some msg)) (\<lambda>a.
             Inr (True, q\<lparr>hqc_tail := 1, hqc_count := 1, hqc_head := 0, hqc_queue := a\<rparr>))
      else if hqc_count q < hqc_aSize q
      then bindE (store (hqc_queue q) (hqc_tail q) (Some msg)) (\<lambda>a.
             Inr (True, q\<lparr>hqc_queue := a,
                          hqc_tail := (if hqc_aSize q \<le> hqc_tail q + 1 then 0 else hqc_tail q + 1),
                          hqc_count := hqc_count q + 1\<rparr>))
      else bindE (hqc_grow (hqc_aSize q + HQ_INIT_SIZE) q) (\<lambda>(ok, q').
             if ok then bindE (hqc_push msg q') (\<lambda>(_, q''). Inr (True, q''))
             else Inr (False, q')))"
  by pat_completeness auto
termination
  by (relation "measure (\<lambda>(msg, q). 4294967296 - unat (hqc_aSize q))")
    (auto dest!: hqc_grow_True simp: u32_less_iff intro: diff_less_mono2)

declare hqc_push.simps [simp del]

definition hqc_remove :: "'a hqc \<Rightarrow> bool \<times> 'a hqc" where
  "hqc_remove q =
     (if 0 < hqc_count q
      then (True, q\<lparr>hqc_head := (if hqc_head q < hqc_aSize q - 1 then hqc_head q + 1 else 0),
                    hqc_count := hqc_count q - 1\<rparr>)
      else (False, q))"

definition hqc_peek :: "'a hqc \<Rightarrow> mem_error + 'a option" where
  "hqc_peek q =
     (if hqc_count q < 1 then Inr None
      else bindE (load (hqc_queue q) (hqc_head q)) (\<lambda>msg. Inr (Some msg)))"

definition hqc_pop :: "'a hqc \<Rightarrow> mem_error + 'a option \<times> 'a hqc" where
  "hqc_pop q =
     bindE (hqc_peek q) (\<lambda>m. case m of
       Some msg \<Rightarrow> (let (ok, q') = hqc_remove q in Inr (if ok then Some msg else None, q'))
     | None \<Rightarrow> Inr (None, q))"

definition hqc_size :: "'a hqc \<Rightarrow> u32" where
  "hqc_size q = hqc_count q"

section \<open>Invariant and contents\<close>

definition hqc_live :: "'a hqc \<Rightarrow> 'a cells" where
  "hqc_live q = take (unat (hqc_count q)) (rotate (unat (hqc_head q)) (hqc_queue q))"

definition hqc_contents :: "'a hqc \<Rightarrow> 'a list" where
  "hqc_contents q = map the (hqc_live q)"

definition hqc_cap :: nat where
  "hqc_cap = 4294967250"

definition hqc_wf :: "'a hqc \<Rightarrow> bool" where
  "hqc_wf q \<longleftrightarrow>
     length (hqc_queue q) = unat (hqc_aSize q) \<and>
     50 \<le> unat (hqc_aSize q) \<and> 50 dvd unat (hqc_aSize q) \<and>
     unat (hqc_count q) \<le> unat (hqc_aSize q) \<and>
     (0 < unat (hqc_count q) \<longrightarrow>
        unat (hqc_head q) < unat (hqc_aSize q) \<and>
        unat (hqc_tail q) = (unat (hqc_head q) + unat (hqc_count q)) mod unat (hqc_aSize q)) \<and>
     None \<notin> set (hqc_live q)"

lemmas hqc_defs = hqc_wf_def hqc_contents_def hqc_live_def hqc_size_def

lemma hqc_wf_new: "hqc_wf hqc_new" and hqc_contents_new [simp]: "hqc_contents hqc_new = []"
  by (simp_all add: hqc_defs hqc_new_def HQ_INIT_SIZE_def)

lemma length_hqc_contents: "hqc_wf q \<Longrightarrow> length (hqc_contents q) = unat (hqc_count q)"
  by (simp add: hqc_defs)

lemma hqc_live_eq: "hqc_wf q \<Longrightarrow> hqc_live q = map Some (hqc_contents q)"
  using map_Some_the [of "hqc_live q"] by (simp add: hqc_contents_def hqc_wf_def)

lemma hqc_aSize_le_cap: "hqc_wf q \<Longrightarrow> unat (hqc_aSize q) \<le> hqc_cap"
proof -
  assume "hqc_wf q"
  then obtain k where "unat (hqc_aSize q) = 50 * k" by (auto simp: hqc_wf_def)
  then show ?thesis using unat_u32_lt [of "hqc_aSize q"] by (simp add: hqc_cap_def)
qed

section \<open>Growing keeps the messages\<close>

lemma grow_above_blit:
  assumes "unat aSize \<le> length queue" and "unat i \<le> unat aSize"
    and "unat j + (unat aSize - unat i) \<le> length temp" and "length temp < 4294967296"
  shows "grow_above aSize i j queue temp =
    Inr (j + (aSize - i), blit queue (unat i) (unat aSize - unat i) temp (unat j))"
  using assms
proof (induction aSize i j queue temp rule: grow_above.induct)
  case (1 aSize i j queue temp)
  show ?case
  proof (cases "i < aSize")
    case True
    then have i: "unat i < unat aSize" "unat (i + 1) = Suc (unat i)"
      by (simp_all add: u32_less_iff unat_u32_inc_less)
    with "1.prems" have j: "unat j < length temp" "unat (j + 1) = Suc (unat j)"
      by (simp_all add: unat_u32_plus)
    let ?temp = "temp[unat j := queue ! unat i]"
    have "grow_above aSize (i + 1) (j + 1) queue ?temp =
      Inr (j + 1 + (aSize - (i + 1)), blit queue (Suc (unat i)) (unat aSize - Suc (unat i)) ?temp (Suc (unat j)))"
      using "1.IH" [OF True, of "queue ! unat i" ?temp] "1.prems" i j by simp
    moreover have "blit queue (Suc (unat i)) (unat aSize - Suc (unat i)) ?temp (Suc (unat j))
      = blit queue (unat i) (unat aSize - unat i) temp (unat j)"
      using blit_Suc [of "unat i" queue "unat j" temp] i(1) j(1) "1.prems"(1) by (simp add: Suc_diff_Suc)
    ultimately show ?thesis
      using True i j "1.prems"(1) by (simp add: grow_above.simps [of aSize i j])
  next
    case False
    with "1.prems"(2) have "i = aSize" by (simp add: u32_less_iff u32_eq_iff)
    then show ?thesis by (simp add: grow_above.simps)
  qed
qed

lemma grow_below_blit:
  assumes "unat tail \<le> length queue" and "unat i \<le> unat tail"
    and "unat j + (unat tail - unat i) \<le> length temp" and "length temp < 4294967296"
  shows "grow_below tail i j queue temp =
    Inr (j + (tail - i), blit queue (unat i) (unat tail - unat i) temp (unat j))"
  using assms
proof (induction tail i j queue temp rule: grow_below.induct)
  case (1 tail i j queue temp)
  show ?case
  proof (cases "i = tail")
    case False
    with "1.prems"(2) have "i < tail" by (simp add: u32_less_iff u32_eq_iff)
    then have i: "unat i < unat tail" "unat (i + 1) = Suc (unat i)"
      by (simp_all add: u32_less_iff unat_u32_inc_less)
    with "1.prems" have j: "unat j < length temp" "unat (j + 1) = Suc (unat j)"
      by (simp_all add: unat_u32_plus)
    let ?temp = "temp[unat j := queue ! unat i]"
    have "grow_below tail (i + 1) (j + 1) queue ?temp =
      Inr (j + 1 + (tail - (i + 1)), blit queue (Suc (unat i)) (unat tail - Suc (unat i)) ?temp (Suc (unat j)))"
      using "1.IH" [OF False, of "queue ! unat i" ?temp] "1.prems" i j by simp
    moreover have "blit queue (Suc (unat i)) (unat tail - Suc (unat i)) ?temp (Suc (unat j))
      = blit queue (unat i) (unat tail - unat i) temp (unat j)"
      using blit_Suc [of "unat i" queue "unat j" temp] i(1) j(1) "1.prems"(1) by (simp add: Suc_diff_Suc)
    ultimately show ?thesis
      using False i j "1.prems"(1) by (simp add: grow_below.simps [of tail i j])
  qed (simp add: grow_below.simps)
qed

text \<open>A full buffer starts and ends at the same index; after \<open>grow\<close> it starts at 0.\<close>

lemma hqc_full_tail:
  assumes "hqc_wf q" and "hqc_count q = hqc_aSize q"
  shows "hqc_tail q = hqc_head q" and "unat (hqc_head q) < unat (hqc_aSize q)"
  using assms by (auto simp: hqc_wf_def u32_eq_iff)

lemma hqc_grow_full:
  assumes wf: "hqc_wf q" and full: "hqc_count q = hqc_aSize q"
    and new: "unat (hqc_aSize q) < unat n"
  shows "hqc_grow n q = Inr (True, q\<lparr>hqc_tail := hqc_count q, hqc_head := 0, hqc_aSize := n,
    hqc_queue := rotate (unat (hqc_head q)) (hqc_queue q) @ replicate (unat n - unat (hqc_aSize q)) None\<rparr>)"
proof -
  let ?h = "unat (hqc_head q)" and ?a = "unat (hqc_aSize q)" and ?Q = "hqc_queue q"
  let ?t1 = "drop ?h ?Q @ drop (?a - ?h) (new_array n)"
  have len: "length ?Q = ?a" using wf by (simp add: hqc_wf_def)
  note ends = hqc_full_tail [OF wf full]
  have above: "grow_above (hqc_aSize q) (hqc_head q) 0 ?Q (new_array n) = Inr (hqc_aSize q - hqc_head q, ?t1)"
    using ends(2) new len by (subst grow_above_blit) (auto simp: blit_def)
  have j: "unat (hqc_aSize q - hqc_head q) = ?a - ?h"
    using ends(2) by (simp add: unat_u32_sub)
  have "grow_below (hqc_head q) 0 (hqc_aSize q - hqc_head q) ?Q ?t1
      = Inr (hqc_aSize q, blit ?Q 0 ?h ?t1 (?a - ?h))"
    using ends(2) new len j by (subst grow_below_blit) auto
  moreover have "blit ?Q 0 ?h ?t1 (?a - ?h) = rotate ?h ?Q @ replicate (unat n - ?a) None"
    using ends(2) len by (simp add: blit_def rotate_drop_take new_array_def)
  ultimately show ?thesis
    using above new ends(1) full by (simp add: hqc_grow_def u32_le_iff not_le)
qed

lemma hqc_grow_full_wf:
  assumes wf: "hqc_wf q" and full: "hqc_count q = hqc_aSize q"
    and new: "unat (hqc_aSize q) < unat n" "50 dvd unat n"
  shows "\<exists>q'. hqc_grow n q = Inr (True, q') \<and> hqc_wf q' \<and> hqc_contents q' = hqc_contents q \<and>
           hqc_count q' = hqc_count q \<and> hqc_aSize q' = n"
proof -
  have len: "length (hqc_queue q) = unat (hqc_aSize q)" using wf by (simp add: hqc_wf_def)
  let ?q = "q\<lparr>hqc_tail := hqc_count q, hqc_head := 0, hqc_aSize := n,
    hqc_queue := rotate (unat (hqc_head q)) (hqc_queue q) @ replicate (unat n - unat (hqc_aSize q)) None\<rparr>"
  have "hqc_live ?q = hqc_live q" using len full by (simp add: hqc_live_def)
  moreover from this have "hqc_wf ?q" using wf new full by (simp add: hqc_wf_def)
  ultimately show ?thesis
    using hqc_grow_full [OF wf full new(1)] by (simp add: hqc_contents_def)
qed

section \<open>The operations keep the invariant and act as list operations\<close>

lemma hqc_push_empty:
  assumes wf: "hqc_wf q" and empty: "hqc_count q = 0"
  shows "\<exists>q'. hqc_push x q = Inr (True, q') \<and> hqc_wf q' \<and> hqc_contents q' = [x]"
proof -
  let ?q = "q\<lparr>hqc_tail := 1, hqc_count := 1, hqc_head := 0, hqc_queue := (hqc_queue q)[0 := Some x]\<rparr>"
  have len: "length (hqc_queue q) = unat (hqc_aSize q)" "50 \<le> unat (hqc_aSize q)"
    using wf by (simp_all add: hqc_wf_def)
  then have "hqc_live ?q = [Some x]"
    using take_Suc_update [of 0 "hqc_queue q" "Some x"] by (simp add: hqc_live_def)
  moreover from this have "hqc_wf ?q" using wf by (auto simp: hqc_wf_def)
  moreover have "hqc_push x q = Inr (True, ?q)" using len empty by (subst hqc_push.simps) simp
  ultimately show ?thesis by (simp add: hqc_contents_def)
qed

lemma hqc_push_room:
  assumes wf: "hqc_wf q" and some: "hqc_count q \<noteq> 0" and room: "hqc_count q < hqc_aSize q"
  shows "\<exists>q'. hqc_push x q = Inr (True, q') \<and> hqc_wf q' \<and> hqc_contents q' = hqc_contents q @ [x]"
proof -
  let ?c = "unat (hqc_count q)" and ?a = "unat (hqc_aSize q)" and ?h = "unat (hqc_head q)"
    and ?t = "unat (hqc_tail q)" and ?Q = "hqc_queue q"
  let ?tail = "if hqc_aSize q \<le> hqc_tail q + 1 then 0 else hqc_tail q + 1"
  let ?q = "q\<lparr>hqc_queue := ?Q[?t := Some x], hqc_tail := ?tail, hqc_count := hqc_count q + 1\<rparr>"
  have c: "0 < ?c" "?c < ?a" using some room by (auto simp: u32_less_iff unat_eq_zero intro: gr0I)
  have len: "length ?Q = ?a" "50 \<le> ?a" and h: "?h < ?a" and t: "?t = (?h + ?c) mod ?a"
    using wf c by (simp_all add: hqc_wf_def)
  have ta: "?t < ?a" using t c by simp
  have c1: "unat (hqc_count q + 1) = Suc ?c" using room by (rule unat_u32_inc_less)
  have t1: "unat (hqc_tail q + 1) = Suc ?t"
    using ta unat_u32_inc_less [of "hqc_tail q" "hqc_aSize q"] by (simp add: u32_less_iff)
  have tail: "unat ?tail = (?h + Suc ?c) mod ?a"
    using t ta t1 by (auto simp: u32_le_iff mod_Suc)
  have "hqc_live ?q = hqc_live q @ [Some x]"
    using rotate_update [of ?c ?Q ?h "Some x"] take_Suc_update [of ?c "rotate ?h ?Q" "Some x"] len c c1 t
    by (simp add: hqc_live_def)
  moreover from this have "hqc_wf ?q" using wf c c1 h tail by (auto simp: hqc_wf_def)
  moreover have "hqc_push x q = Inr (True, ?q)"
    using len ta some room by (subst hqc_push.simps) (simp add: word_less_1)
  ultimately show ?thesis by (simp add: hqc_contents_def)
qed

lemma hqc_push_grow:
  assumes wf: "hqc_wf q" and full: "hqc_count q = hqc_aSize q" and below: "unat (hqc_aSize q) < hqc_cap"
  shows "\<exists>q'. hqc_push x q = Inr (True, q') \<and> hqc_wf q' \<and> hqc_contents q' = hqc_contents q @ [x]"
proof -
  obtain k where k: "unat (hqc_aSize q) = 50 * k" and "50 \<le> unat (hqc_aSize q)"
    using wf by (auto simp: hqc_wf_def)
  then have n: "unat (hqc_aSize q + HQ_INIT_SIZE) = unat (hqc_aSize q) + 50"
    using below by (simp add: unat_u32_plus HQ_INIT_SIZE_def hqc_cap_def)
  have "50 dvd unat (hqc_aSize q + HQ_INIT_SIZE)" using wf n by (simp add: hqc_wf_def)
  then obtain q1 where q1: "hqc_grow (hqc_aSize q + HQ_INIT_SIZE) q = Inr (True, q1)" "hqc_wf q1"
      "hqc_contents q1 = hqc_contents q" "hqc_count q1 = hqc_count q"
      "hqc_aSize q1 = hqc_aSize q + HQ_INIT_SIZE"
    using hqc_grow_full_wf [OF wf full, of "hqc_aSize q + HQ_INIT_SIZE"] n by auto
  have some: "hqc_count q \<noteq> 0" using full wf by (auto simp: hqc_wf_def)
  have "hqc_count q1 < hqc_aSize q1" using q1(4,5) n full by (simp add: u32_less_iff)
  from hqc_push_room [OF q1(2) _ this, of x] obtain q2
    where q2: "hqc_push x q1 = Inr (True, q2)" "hqc_wf q2" "hqc_contents q2 = hqc_contents q @ [x]"
    using q1(3,4) some by auto
  then have "hqc_push x q = Inr (True, q2)"
    using q1(1) full some by (subst hqc_push.simps) (simp add: word_less_1)
  with q2 show ?thesis by blast
qed

lemma hqc_push_at_cap:
  assumes wf: "hqc_wf q" and full: "unat (hqc_count q) = hqc_cap"
  shows "hqc_push x q = Inr (False, q)"
proof -
  have c: "unat (hqc_count q) = unat (hqc_aSize q)"
    using hqc_aSize_le_cap [OF wf] full wf by (simp add: hqc_wf_def)
  have "unat (hqc_aSize q + HQ_INIT_SIZE) = 4"
    using c full by (simp add: unat_u32_plus HQ_INIT_SIZE_def hqc_cap_def)
  then have "hqc_grow (hqc_aSize q + HQ_INIT_SIZE) q = Inr (False, q)"
    using c full by (simp add: hqc_grow_def u32_le_iff hqc_cap_def)
  moreover have "\<not> hqc_count q < 1" "\<not> hqc_count q < hqc_aSize q"
    using c full by (auto simp: u32_less_iff hqc_cap_def)
  ultimately show ?thesis by (subst hqc_push.simps) simp
qed

lemma hqc_pop_empty:
  assumes "hqc_wf q" and "hqc_contents q = []"
  shows "hqc_pop q = Inr (None, q)"
  using assms length_hqc_contents [OF assms(1)]
  by (simp add: hqc_pop_def hqc_peek_def u32_less_iff)

lemma hqc_pop_cons:
  assumes wf: "hqc_wf q" and cons: "hqc_contents q = x # xs"
  shows "\<exists>q'. hqc_pop q = Inr (Some x, q') \<and> hqc_wf q' \<and> hqc_contents q' = xs"
proof -
  let ?c = "unat (hqc_count q)" and ?a = "unat (hqc_aSize q)" and ?h = "unat (hqc_head q)"
    and ?Q = "hqc_queue q"
  let ?head = "if hqc_head q < hqc_aSize q - 1 then hqc_head q + 1 else 0"
  let ?q = "q\<lparr>hqc_head := ?head, hqc_count := hqc_count q - 1\<rparr>"
  have c: "0 < ?c" using length_hqc_contents [OF wf] cons by simp
  have len: "length ?Q = ?a" "50 \<le> ?a" "?c \<le> ?a" and h: "?h < ?a"
    and t: "unat (hqc_tail q) = (?h + ?c) mod ?a"
    using wf c by (simp_all add: hqc_wf_def)
  have a1: "unat (hqc_aSize q - 1) = ?a - 1" and c1: "unat (hqc_count q - 1) = ?c - 1"
    using c len by (auto simp: unat_u32_dec u32_eq_iff)
  have head: "unat ?head = Suc ?h mod ?a"
    using h a1 unat_u32_inc_less [of "hqc_head q" "hqc_aSize q"]
    by (auto simp: u32_less_iff not_less mod_Suc)
  have live: "hqc_live q = Some x # map Some xs" using hqc_live_eq [OF wf] cons by simp
  have "?Q ! ?h = hd (hqc_live q)"
    using len c h hd_rotate_conv_nth [of ?Q ?h] by (fastforce simp: hqc_live_def hd_take)
  then have peek: "hqc_peek q = Inr (Some x)"
    using c live len h by (simp add: hqc_peek_def u32_less_iff load_def)
  have "hqc_live ?q = tl (hqc_live q)"
    using take_rotate_Suc [OF c, of ?Q ?h] rotate_conv_mod [of "Suc ?h" ?Q] len c1 head
    by (simp add: hqc_live_def)
  then have live': "hqc_live ?q = map Some xs" using live by simp
  have "Suc ?h + (?c - 1) = ?h + ?c" using c by simp
  then have "unat (hqc_tail q) = (unat ?head + (?c - 1)) mod ?a"
    using t head mod_add_left_eq [of "Suc ?h" ?a "?c - 1"] by (simp only:)
  then have "hqc_wf ?q" using wf c1 c head live' len by (auto simp: hqc_wf_def)
  moreover have "hqc_pop q = Inr (Some x, ?q)"
    using peek c by (simp add: hqc_pop_def hqc_remove_def u32_less_iff)
  ultimately show ?thesis using live' by (simp add: hqc_contents_def)
qed

interpretation hqc: bounded_fifo hqc_push hqc_pop hqc_size hqc_contents hqc_wf hqc_cap
proof
  fix q :: "'a hqc" and x :: 'a
  assume wf: "hqc_wf q"
  note len = length_hqc_contents [OF wf]
  show "hqc_size q = of_nat (length (hqc_contents q))" using len by (simp add: hqc_size_def)
  show "length (hqc_contents q) \<le> hqc_cap"
    using len hqc_aSize_le_cap [OF wf] wf by (simp add: hqc_wf_def)
  show "\<exists>q'. hqc_push x q = Inr (True, q') \<and> hqc_wf q' \<and> hqc_contents q' = hqc_contents q @ [x]"
    if room: "length (hqc_contents q) < hqc_cap"
  proof -
    consider "hqc_count q = 0" | "hqc_count q \<noteq> 0" "hqc_count q < hqc_aSize q" | "hqc_count q = hqc_aSize q"
      using wf unfolding hqc_wf_def by (metis u32_less_iff u32_eq_iff le_neq_implies_less)
    then show ?thesis
    proof cases
      case 1
      with hqc_push_empty [OF wf] len show ?thesis by simp
    next
      case 3
      with hqc_push_grow [OF wf] len room show ?thesis by simp
    qed (rule hqc_push_room [OF wf])
  qed
  show "hqc_push x q = Inr (False, q)" if "length (hqc_contents q) = hqc_cap"
    using that len by (simp add: hqc_push_at_cap [OF wf])
qed (blast intro: hqc_pop_empty hqc_pop_cons)+

section \<open>Properties\<close>

text \<open>
  C16: Any sequence of \<open>push\<close>, \<open>pop\<close> and \<open>size\<close> calls on a new \<open>HiveQueueC\<close> runs without a bad memory
  access and returns what the same calls return on a plain list bounded at 4294967250 messages;
  the buffer's invariant holds afterwards and its contents are the list's.
\<close>

theorem hqc_refines_bounded_list:
  "\<exists>q'. run_ops hqc_push hqc_pop hqc_size ops hqc_new = Inr (fst (spec_ops hqc_cap ops []), q') \<and>
        hqc_wf q' \<and> hqc_contents q' = snd (spec_ops hqc_cap ops [])"
  using hqc.run_ops_refines [OF hqc_wf_new, of ops] by simp

text \<open>\<open>grow\<close> on a full buffer, wherever its head is, relocates all messages without losing or
  reordering one, and leaves a well-formed buffer of the new size.
\<close>

lemma hqc_grow_keeps_messages:
  assumes "hqc_wf q" and "hqc_count q = hqc_aSize q"
    and "unat (hqc_aSize q) < unat n" and "50 dvd unat n"
  shows "\<exists>q'. hqc_grow n q = Inr (True, q') \<and> hqc_wf q' \<and> hqc_contents q' = hqc_contents q \<and>
              hqc_count q' = hqc_count q \<and> hqc_aSize q' = n"
  using hqc_grow_full_wf [OF assms] .

definition hqc_example :: "nat hqc" where
  "hqc_example = \<lparr>hqc_count = 50, hqc_aSize = 50, hqc_tail = 10, hqc_head = 10,
                  hqc_queue = map Some [0..<50]\<rparr>"

lemma hqc_example_wf: "hqc_wf hqc_example"
  by code_simp

lemma hqc_grow_keeps_messages_witness:
  "\<exists>q'. hqc_grow 100 hqc_example = Inr (True, q') \<and> hqc_contents q' = hqc_contents hqc_example"
  using hqc_grow_keeps_messages [OF hqc_example_wf, of 100] by (auto simp: hqc_example_def)

text \<open>
  A push is refused exactly when the buffer holds 4294967250 messages, the largest multiple
  of 50 that fits the 32-bit size, and a refused push leaves the buffer as it was.
\<close>

lemma hqc_push_refused_iff:
  assumes "hqc_wf q"
  shows "(\<exists>q'. hqc_push x q = Inr (False, q')) \<longleftrightarrow> unat (hqc_count q) = 4294967250"
proof
  assume "unat (hqc_count q) = 4294967250"
  then show "\<exists>q'. hqc_push x q = Inr (False, q')"
    using hqc_push_at_cap [OF assms, of x] by (simp add: hqc_cap_def)
next
  assume "\<exists>q'. hqc_push x q = Inr (False, q')"
  then have "\<not> length (hqc_contents q) < hqc_cap" using hqc.push_ok [OF assms, of x] by auto
  then show "unat (hqc_count q) = 4294967250"
    using hqc.contents_le [OF assms] length_hqc_contents [OF assms] by (simp add: hqc_cap_def)
qed

lemma hqc_push_refused_iff_witness:
  "\<not> (\<exists>q'. hqc_push (7 :: nat) hqc_new = Inr (False, q'))"
  using hqc_push_refused_iff [OF hqc_wf_new, of "7 :: nat"] by (simp add: hqc_new_def)

end
