(* ===== verification/Thread_Hive.thy ===== *)
theory Thread_Hive
  imports Hive_QueueC Linked_Heap
begin

text \<open>
  \<open>ThreadHandle\<close> and \<open>ThreadHive\<close> of \<^verbatim>\<open>OPFL/ThreadHive.h\<close>: the registry of named threads, a linked
  list shared by all \<open>ThreadHive\<close> objects of the process, and the messages the threads send each
  other through the queue of a handle. Every public operation holds one mutex from its first access
  to its last, so an execution is a sequence of whole operations; the operations below take the
  shared state and return it changed. \<open>None\<close> as an outcome is a call that does not return: a loop
  over a list that has no end, or a blocking receive on an empty queue.
\<close>

record ('m, 'c) thandle =
  th_shares :: u32
  th_msgQueue :: "'m hqc option"
  th_callBack :: "'c option"
  th_hiveThread :: bool
  th_parameters :: "string option"
  th_threadName :: string
  th_finished :: bool
  th_success :: bool
  th_running :: bool
  th_next :: "addr option"

text \<open>The static members of \<open>ThreadHive\<close>, with the heap of handles.\<close>

record ('m, 'c) registry =
  rg_i :: int
  rg_threadCount :: int
  rg_head :: "addr option"
  rg_tail :: "addr option"
  rg_mem :: "('m, 'c) thandle heap"

text \<open>A \<open>ThreadHive\<close> object.\<close>

record 'm hive =
  hv_myThreadHandle :: "addr option"
  hv_currentMsg :: "'m option"
  hv_isMain :: bool

section \<open>The registry\<close>

definition registry_new :: "('m, 'c) registry" where
  "registry_new = \<lparr>rg_i = 6, rg_threadCount = 0, rg_head = None, rg_tail = None, rg_mem = []\<rparr>"

text \<open>The constructor never assigns \<open>shares\<close>: it starts as \<open>junk\<close>, what the memory held before.\<close>

definition mkThreadHandle :: "u32 \<Rightarrow> string \<Rightarrow> ('m, 'c) thandle" where
  "mkThreadHandle junk threadName =
     \<lparr>th_shares = junk, th_msgQueue = None, th_callBack = None, th_hiveThread = False,
      th_parameters = None, th_threadName = threadName, th_finished = False, th_success = False,
      th_running = False, th_next = None\<rparr>"

text \<open>
  The destructor of a handle clears its pointers; the queue goes with its array. It owns nothing else:
  by then the thread has been detached, or is left running.
\<close>

definition thandle_destroy :: "('m, 'c) thandle \<Rightarrow> ('m, 'c) thandle" where
  "thandle_destroy n =
     (let n = (if th_hiveThread n then n\<lparr>th_hiveThread := False\<rparr> else n);
          n = (if th_msgQueue n \<noteq> None then n\<lparr>th_msgQueue := None\<rparr> else n);
          n = (if th_callBack n \<noteq> None then n\<lparr>th_callBack := None\<rparr> else n)
      in if th_parameters n \<noteq> None then n\<lparr>th_parameters := None\<rparr> else n)"

definition delete_handle :: "addr option \<Rightarrow> ('m, 'c) thandle heap \<Rightarrow> mem_error + ('m, 'c) thandle heap" where
  "delete_handle th mem =
     (if th = None then Inr mem else bindE (assign th thandle_destroy mem) (delete th))"

lemma delete_handle_eq [simp]: "delete_handle th mem = delete th mem"
proof (cases "deref th mem")
  case (Inr n)
  then obtain a where "th = Some a" "node_at mem a = Some n" by (auto simp: deref_Inr_iff)
  then show ?thesis using node_at_less [of mem a n] by (simp add: delete_handle_def delete_def)
qed (simp add: delete_handle_def delete_def assign_def)

definition hive_new :: "'m hive" where
  "hive_new = \<lparr>hv_myThreadHandle = None, hv_currentMsg = None, hv_isMain = True\<rparr>"

text \<open>The other constructor sets the static member; the object stays as the memory was, \<open>junk\<close>.\<close>

definition hive_new_int :: "'m hive \<Rightarrow> int \<Rightarrow> ('m, 'c) registry \<Rightarrow> 'm hive \<times> ('m, 'c) registry" where
  "hive_new_int junk a rg = (junk, rg\<lparr>rg_i := a\<rparr>)"

definition hive_push :: "u32 \<Rightarrow> string \<Rightarrow> ('m, 'c) registry \<Rightarrow> mem_error + addr option \<times> ('m, 'c) registry" where
  "hive_push junk threadName rg =
     (let (a, mem) = alloc (mkThreadHandle junk threadName) (rg_mem rg);
          newTH = Some a
      in bindE (if rg_tail rg = None
                then Inr (rg\<lparr>rg_mem := mem, rg_tail := newTH, rg_head := newTH\<rparr>)
                else bindE (assign (rg_tail rg) (\<lambda>n. n\<lparr>th_next := newTH\<rparr>) mem) (\<lambda>mem.
                       Inr (rg\<lparr>rg_mem := mem, rg_tail := newTH\<rparr>)))
           (\<lambda>rg. Inr (newTH, rg\<lparr>rg_threadCount := rg_threadCount rg + 1\<rparr>)))"

definition addThread ::
  "u32 \<Rightarrow> string \<Rightarrow> 'c option \<Rightarrow> string option \<Rightarrow> 'm hive \<Rightarrow> ('m, 'c) registry \<Rightarrow>
   mem_error + bool \<times> 'm hive \<times> ('m, 'c) registry" where
  "addThread junk threadName callBack parameters hv rg =
     (if hv_myThreadHandle hv = None
      then bindE (hive_push junk threadName rg) (\<lambda>(myTH, rg).
             bindE (assign myTH (\<lambda>n. n\<lparr>th_callBack := callBack, th_parameters := parameters,
                      th_msgQueue := Some hqc_new, th_shares := th_shares n + 1\<rparr>) (rg_mem rg)) (\<lambda>mem.
             Inr (True, hv\<lparr>hv_myThreadHandle := myTH\<rparr>, rg\<lparr>rg_mem := mem\<rparr>)))
      else Inr (False, hv, rg))"

text \<open>The search for the predecessor in the destructor, and the destructor.\<close>

partial_function (option) unlink_loop ::
  "addr option \<Rightarrow> addr option \<Rightarrow> addr option \<Rightarrow> ('m, 'c) thandle heap \<Rightarrow>
   (mem_error + addr option \<times> addr option) option" where
  "unlink_loop my temp current mem =
     (if my = current then Some (Inr (temp, current))
      else case deref current mem of
             Inl e \<Rightarrow> Some (Inl e)
           | Inr n \<Rightarrow> (case deref temp mem of
                Inl e \<Rightarrow> Some (Inl e)
              | Inr t \<Rightarrow> unlink_loop my (th_next t) (th_next n) mem))"

definition hive_unlink_head ::
  "('m, 'c) registry \<Rightarrow> mem_error + addr option \<times> ('m, 'c) registry" where
  "hive_unlink_head rg =
     bindE (deref (rg_head rg) (rg_mem rg)) (\<lambda>h.
     bindE (assign (rg_head rg) (\<lambda>n. n\<lparr>th_next := None\<rparr>) (rg_mem rg)) (\<lambda>mem.
       Inr (rg_head rg, rg\<lparr>rg_head := th_next h, rg_mem := mem\<rparr>)))"

definition hive_unlink_inner ::
  "addr option \<Rightarrow> ('m, 'c) registry \<Rightarrow> (mem_error + addr option \<times> ('m, 'c) registry) option" where
  "hive_unlink_inner my rg =
     (case deref (rg_head rg) (rg_mem rg) of
        Inl e \<Rightarrow> Some (Inl e)
      | Inr h \<Rightarrow> map_option (\<lambda>r. bindE r (\<lambda>(temp, current).
          let rg = (if rg_tail rg = current then rg\<lparr>rg_tail := temp\<rparr> else rg)
          in bindE (deref temp (rg_mem rg)) (\<lambda>t.
             bindE (deref (th_next t) (rg_mem rg)) (\<lambda>c.
             bindE (assign temp (\<lambda>n. n\<lparr>th_next := th_next c\<rparr>) (rg_mem rg)) (\<lambda>mem.
             bindE (assign current (\<lambda>n. n\<lparr>th_next := None\<rparr>) mem) (\<lambda>mem.
               Inr (current, rg\<lparr>rg_mem := mem\<rparr>)))))))
          (unlink_loop my (rg_head rg) (th_next h) (rg_mem rg)))"

definition hive_release ::
  "'m hive \<Rightarrow> addr option \<times> ('m, 'c) registry \<Rightarrow> mem_error + 'm hive \<times> ('m, 'c) registry" where
  "hive_release hv cr =
     (let (current, rg) = cr;
          rg = rg\<lparr>rg_threadCount := rg_threadCount rg - 1\<rparr>;
          rg = (if rg_head rg = None then rg\<lparr>rg_tail := None\<rparr> else rg)
      in bindE (delete_handle current (rg_mem rg)) (\<lambda>mem.
           Inr (hv\<lparr>hv_myThreadHandle := None\<rparr>, rg\<lparr>rg_mem := mem\<rparr>)))"

definition hive_destroy ::
  "'m hive \<Rightarrow> ('m, 'c) registry \<Rightarrow> (mem_error + 'm hive \<times> ('m, 'c) registry) option" where
  "hive_destroy hv rg =
     (let my = hv_myThreadHandle hv in
      if my = None then Some (Inr (hv, rg))
      else case assign my (\<lambda>n. n\<lparr>th_shares := th_shares n - 1\<rparr>) (rg_mem rg) of
        Inl e \<Rightarrow> Some (Inl e)
      | Inr mem \<Rightarrow>
          let rg = rg\<lparr>rg_mem := mem\<rparr> in
          case deref my mem of
            Inl e \<Rightarrow> Some (Inl e)
          | Inr n \<Rightarrow>
              if th_shares n < 1
              then map_option (\<lambda>r. bindE r (hive_release hv))
                     (if rg_head rg = my then Some (hive_unlink_head rg) else hive_unlink_inner my rg)
              else Some (Inr (hv, rg)))"

partial_function (option) get_loop ::
  "string \<Rightarrow> addr option \<Rightarrow> addr option \<Rightarrow> ('m, 'c) thandle heap \<Rightarrow> (mem_error + addr option) option" where
  "get_loop threadName th current mem =
     (if th = current then Some (Inr th)
      else case deref current mem of
             Inl e \<Rightarrow> Some (Inl e)
           | Inr n \<Rightarrow> if threadName = th_threadName n then get_loop threadName current current mem
                     else get_loop threadName th (th_next n) mem)"

definition getThreadHandle :: "string \<Rightarrow> ('m, 'c) registry \<Rightarrow> (mem_error + addr option) option" where
  "getThreadHandle threadName rg =
     (if rg_head rg = None then Some (Inr None) else get_loop threadName None (rg_head rg) (rg_mem rg))"

definition hasThread :: "'m hive \<Rightarrow> bool" where
  "hasThread hv = (hv_myThreadHandle hv \<noteq> None)"

definition getMyThreadHandle :: "'m hive \<Rightarrow> addr option" where
  "getMyThreadHandle hv = hv_myThreadHandle hv"

definition hive_increment :: "('m, 'c) registry \<Rightarrow> int \<times> ('m, 'c) registry" where
  "hive_increment rg = (rg_i rg + 1, rg\<lparr>rg_i := rg_i rg + 1\<rparr>)"

text \<open>What \<open>displayI\<close> writes to the output.\<close>

definition displayI :: "('m, 'c) registry \<Rightarrow> string" where
  "displayI rg = show_int (rg_i rg) @ [CHR 0x0A]"

section \<open>Messages\<close>

text \<open>The queue behind a handle: both pointers are followed.\<close>

definition queue_of :: "addr option \<Rightarrow> ('m, 'c) registry \<Rightarrow> mem_error + 'm hqc" where
  "queue_of th rg =
     bindE (deref th (rg_mem rg)) (\<lambda>n.
       case th_msgQueue n of None \<Rightarrow> Inl NullDeref | Some q \<Rightarrow> Inr q)"

definition set_queue :: "addr option \<Rightarrow> 'm hqc \<Rightarrow> ('m, 'c) registry \<Rightarrow> mem_error + ('m, 'c) registry" where
  "set_queue th q rg =
     bindE (assign th (\<lambda>n. n\<lparr>th_msgQueue := Some q\<rparr>) (rg_mem rg)) (\<lambda>mem. Inr (rg\<lparr>rg_mem := mem\<rparr>))"

definition sendMsg ::
  "addr option \<Rightarrow> 'm \<Rightarrow> ('m, 'c) registry \<Rightarrow> mem_error + bool \<times> ('m, 'c) registry" where
  "sendMsg th msg rg =
     bindE (queue_of th rg) (\<lambda>q. bindE (hqc_push msg q) (\<lambda>(result, q).
     bindE (set_queue th q rg) (\<lambda>rg. Inr (result, rg))))"

text \<open>\<open>sendAll\<close> returns the result of its last push, \<open>False\<close> for no messages.\<close>

fun send_loop ::
  "addr option \<Rightarrow> 'm list \<Rightarrow> bool \<Rightarrow> ('m, 'c) registry \<Rightarrow> mem_error + bool \<times> ('m, 'c) registry" where
  "send_loop th [] result rg = Inr (result, rg)"
| "send_loop th (msg # msgs) result rg =
     bindE (queue_of th rg) (\<lambda>q. bindE (hqc_push msg q) (\<lambda>(result, q).
     bindE (set_queue th q rg) (\<lambda>rg. send_loop th msgs result rg)))"

definition sendAll ::
  "addr option \<Rightarrow> 'm list \<Rightarrow> ('m, 'c) registry \<Rightarrow> mem_error + bool \<times> ('m, 'c) registry" where
  "sendAll th messages rg =
     bindE (deref th (rg_mem rg)) (\<lambda>_. send_loop th messages False rg)"

definition loadMsg ::
  "'m hive \<Rightarrow> ('m, 'c) registry \<Rightarrow> mem_error + bool \<times> 'm hive \<times> ('m, 'c) registry" where
  "loadMsg hv rg =
     bindE (queue_of (hv_myThreadHandle hv) rg) (\<lambda>q.
       if 0 < hqc_size q
       then bindE (hqc_pop q) (\<lambda>(r, q).
            bindE (set_queue (hv_myThreadHandle hv) q rg) (\<lambda>rg.
              case r of Some msg \<Rightarrow> Inr (True, hv\<lparr>hv_currentMsg := Some msg\<rparr>, rg)
                      | None \<Rightarrow> Inr (False, hv, rg)))
       else Inr (False, hv, rg))"

text \<open>\<open>PredicateFunctor\<close> around \<open>loadMsg\<close>, which the condition variable calls.\<close>

definition PredicateFunctor :: "'s \<Rightarrow> ('s \<Rightarrow> 'r) \<Rightarrow> 'r" where
  "PredicateFunctor myTarget pt2Member = pt2Member myTarget"

lemma PredicateFunctor_eq [simp]: "PredicateFunctor s f = f s"
  by (simp add: PredicateFunctor_def)

text \<open>
  \<open>receiveMsg\<close>: the message is \<open>None\<close> where the caller's variable is left as it was. A blocking call
  waits until \<open>loadMsg\<close> returns true.
\<close>

definition receiveMsg ::
  "bool \<Rightarrow> 'm hive \<Rightarrow> ('m, 'c) registry \<Rightarrow>
   (mem_error + bool \<times> 'm option \<times> 'm hive \<times> ('m, 'c) registry) option" where
  "receiveMsg blocking hv rg =
     (if blocking
      then case PredicateFunctor hv loadMsg rg of
             Inl e \<Rightarrow> Some (Inl e)
           | Inr (ok, hv, rg) \<Rightarrow> if ok then Some (Inr (True, hv_currentMsg hv, hv, rg)) else None
      else case loadMsg hv rg of
             Inl e \<Rightarrow> Some (Inl e)
           | Inr (ok, hv, rg) \<Rightarrow> Some (Inr (ok, (if ok then hv_currentMsg hv else None), hv, rg)))"

lemma hqc_remove_count:
  "hqc_remove q = (True, q') \<Longrightarrow> unat (hqc_count q') < unat (hqc_count q)"
  using u32_dec_below [of 0 "hqc_count q"] by (auto simp: hqc_remove_def split: if_splits)

lemma hqc_pop_count:
  assumes "hqc_pop q = Inr (Some x, q')"
  shows "unat (hqc_count q') < unat (hqc_count q)"
proof -
  have "hqc_remove q = (True, q')"
    using assms unfolding hqc_pop_def
    by (cases "hqc_peek q"; cases "hqc_remove q") (simp_all split: option.splits if_splits)
  then show ?thesis by (rule hqc_remove_count)
qed

lemma loadMsg_True:
  assumes "loadMsg hv rg = Inr (True, hv', rg')"
  shows "\<exists>q q'. hv_myThreadHandle hv' = hv_myThreadHandle hv \<and>
    queue_of (hv_myThreadHandle hv) rg = Inr q \<and> queue_of (hv_myThreadHandle hv) rg' = Inr q' \<and>
    unat (hqc_count q') < unat (hqc_count q)"
proof -
  from assms obtain q x q' where q: "queue_of (hv_myThreadHandle hv) rg = Inr q" "hqc_pop q = Inr (Some x, q')"
    "set_queue (hv_myThreadHandle hv) q' rg = Inr rg'" "hv' = hv\<lparr>hv_currentMsg := Some x\<rparr>"
    by (auto simp: loadMsg_def bindE_Inr_iff split: if_splits option.splits)
  then have "queue_of (hv_myThreadHandle hv) rg' = Inr q'"
    by (auto simp: queue_of_def set_queue_def assign_def bindE_Inr_iff deref_Inr_iff dest: node_at_less)
  with q hqc_pop_count [OF q(2)] show ?thesis by auto
qed

text \<open>
  The copying loop of \<open>receiveAll\<close>, which runs until the queue is empty. The \<open>int\<close> index of the source
  and the 32-bit one agree as long as the array has at most 2147483648 cells.
\<close>

function drain_loop ::
  "u32 \<Rightarrow> 'm cells \<Rightarrow> 'm hive \<Rightarrow> ('m, 'c) registry \<Rightarrow> mem_error + 'm cells \<times> 'm hive \<times> ('m, 'c) registry" where
  "drain_loop i messages hv rg =
     bindE (loadMsg hv rg) (\<lambda>(ok, hv', rg').
       if ok
       then bindE (store messages i (hv_currentMsg hv')) (\<lambda>messages.
              drain_loop (i + 1) messages hv' rg')
       else Inr (messages, hv', rg'))"
  by pat_completeness auto
termination
proof (relation "measure (\<lambda>(i, messages, hv, rg).
    case queue_of (hv_myThreadHandle hv) rg of Inr q \<Rightarrow> unat (hqc_count q) | Inl _ \<Rightarrow> 0)", goal_cases)
  case (2 i messages hv rg r ok rest hv' rg' messages')
  then have "loadMsg hv rg = Inr (True, hv', rg')" by simp
  from loadMsg_True [OF this] show ?case by auto
qed simp

declare drain_loop.simps [simp del]

definition receiveAll ::
  "bool \<Rightarrow> 'm hive \<Rightarrow> ('m, 'c) registry \<Rightarrow>
   (mem_error + bool \<times> 'm cells \<times> u32 \<times> 'm hive \<times> ('m, 'c) registry) option" where
  "receiveAll blocking hv rg =
     (if blocking
      then case PredicateFunctor hv loadMsg rg of
        Inl e \<Rightarrow> Some (Inl e)
      | Inr (ok, hv, rg) \<Rightarrow>
          if ok
          then Some (bindE (queue_of (hv_myThreadHandle hv) rg) (\<lambda>q.
                 let size = hqc_size q + 1 in
                 bindE (store (new_array size) 0 (hv_currentMsg hv)) (\<lambda>messages.
                 bindE (drain_loop 1 messages hv rg) (\<lambda>(messages, hv, rg).
                   Inr (True, messages, size, hv, rg)))))
          else None
      else Some (bindE (queue_of (hv_myThreadHandle hv) rg) (\<lambda>q.
             let size = hqc_size q in
             bindE (drain_loop 0 (new_array size) hv rg) (\<lambda>(messages, hv, rg).
               Inr (0 < size, messages, size, hv, rg)))))"

section \<open>Running a thread\<close>

definition isFinished :: "addr option \<Rightarrow> ('m, 'c) registry \<Rightarrow> mem_error + bool" where
  "isFinished th rg = bindE (deref th (rg_mem rg)) (\<lambda>n. Inr (th_finished n))"

definition isSuccess :: "addr option \<Rightarrow> ('m, 'c) registry \<Rightarrow> mem_error + bool" where
  "isSuccess th rg = bindE (deref th (rg_mem rg)) (\<lambda>n. Inr (th_success n))"

definition isRunning :: "addr option \<Rightarrow> ('m, 'c) registry \<Rightarrow> mem_error + bool" where
  "isRunning th rg = bindE (deref th (rg_mem rg)) (\<lambda>n. Inr (th_running n))"

text \<open>
  \<open>spawnThread\<close> starts a thread on a copy of the object; \<open>hive_finish\<close> is what that thread does when
  its callback has returned. \<open>th_hiveThread\<close> tells whether the handle owns a \<open>std::thread\<close>.
\<close>

definition spawnThread :: "'m hive \<Rightarrow> ('m, 'c) registry \<Rightarrow> mem_error + bool \<times> 'm hive \<times> ('m, 'c) registry" where
  "spawnThread hv rg =
     bindE (assign (hv_myThreadHandle hv) (\<lambda>n. n\<lparr>th_shares := th_shares n + 1, th_running := True,
              th_finished := False, th_success := False, th_hiveThread := True\<rparr>) (rg_mem rg)) (\<lambda>mem.
       Inr (True, hv, rg\<lparr>rg_mem := mem\<rparr>))"

definition hive_finish ::
  "bool \<Rightarrow> 'm hive \<Rightarrow> ('m, 'c) registry \<Rightarrow> mem_error + 'm hive \<times> ('m, 'c) registry" where
  "hive_finish result hv rg =
     bindE (deref (hv_myThreadHandle hv) (rg_mem rg)) (\<lambda>n.
       if th_hiveThread n
       then bindE (assign (hv_myThreadHandle hv) (\<lambda>n. n\<lparr>th_finished := True, th_success := result,
                     th_running := False, th_hiveThread := False\<rparr>) (rg_mem rg)) (\<lambda>mem.
              Inr (hv\<lparr>hv_isMain := False\<rparr>, rg\<lparr>rg_mem := mem\<rparr>))
       else Inl NullDeref)"

text \<open>
  \<open>jdThread\<close> joins and deletes the thread if it is joinable; either way the handle loses it.
\<close>

definition jdThread :: "addr option \<Rightarrow> ('m, 'c) registry \<Rightarrow> mem_error + ('m, 'c) registry" where
  "jdThread th rg =
     bindE (deref th (rg_mem rg)) (\<lambda>n.
       if th_hiveThread n
       then bindE (assign th (\<lambda>n. n\<lparr>th_hiveThread := False\<rparr>) (rg_mem rg)) (\<lambda>mem. Inr (rg\<lparr>rg_mem := mem\<rparr>))
       else Inl NullDeref)"

end
