(* ===== verification/Arma_Data.thy ===== *)
theory Arma_Data
  imports Arma_Text
begin

text \<open>
  \<open>ArmaData\<close> and \<open>ArmaMessage\<close> of \<^verbatim>\<open>OPFL/ThreadHive.h\<close>: the values the game and the library
  exchange as text, their parser \<open>BuildData\<close> and their printer \<open>DeparseArmaData\<close>. The iterator of
  the parser is the text that remains. A parse error ends the process (\<open>ThrowError\<close> with
  \<open>closePrg\<close>), a conversion can throw, and reading the end iterator is undefined: each is an error
  value of its own. The conversions between text and \<open>float\<close> depend on the run-time library and are
  parameters: \<open>stof\<close>, and \<open>fixed\<close> for the fixed notation with a given number of decimals.
\<close>

section \<open>Values\<close>

datatype ad_error = Terminate string | EndDeref | Throws std_exc

definition parseErrorType :: string where
  "parseErrorType = ''ParseArmaData, could not parse data type''"
definition parseErrorExpected :: string where
  "parseErrorExpected = ''ParseArmaData, more data expected''"
definition parseErrorEnd :: string where
  "parseErrorEnd = ''ParseArmaData, end of array expected''"

definition AD_STRING :: char where "AD_STRING = CHR ''$''"
definition AD_FLOAT :: char where "AD_FLOAT = CHR ''#''"
definition AD_UNSIGNED :: char where "AD_UNSIGNED = CHR ''+''"
definition AD_SIGNED :: char where "AD_SIGNED = CHR ''-''"
definition AD_ADDRESS :: char where "AD_ADDRESS = CHR ''*''"
definition AD_ARRAY :: char where "AD_ARRAY = CHR ''@''"
definition AD_NULL :: char where "AD_NULL = CHR 0x00"
definition AD_SEPERATOR :: char where "AD_SEPERATOR = CHR '',''"
definition AD_AS_RIGHT :: char where "AD_AS_RIGHT = CHR '']''"
definition AD_AS_LEFT :: char where "AD_AS_LEFT = CHR ''[''"
definition AD_UNIT :: char where "AD_UNIT = CHR 0x1F"

lemmas ad_chars = AD_STRING_def AD_FLOAT_def AD_UNSIGNED_def AD_SIGNED_def AD_ADDRESS_def AD_ARRAY_def
  AD_NULL_def AD_SEPERATOR_def AD_AS_RIGHT_def AD_AS_LEFT_def AD_UNIT_def

text \<open>
  An object: what \<open>data\<close> points to (the constructor is \<open>type\<close>), \<open>hasData\<close>, \<open>precision\<close> (\<open>None\<close> while
  unassigned) and \<open>dataProtection\<close>.
\<close>

datatype 'f adata = AData (ad_data: "'f avalue") (ad_hasData: bool) (ad_precision: "u16 option") (ad_protection: bool)
  and 'f avalue = VNull | VString string | VFloat 'f | VSigned u64 | VUnsigned u64 | VAddress u64
    | VArray "'f adata list"

fun value_type :: "'f avalue \<Rightarrow> char" where
  "value_type VNull = AD_NULL"
| "value_type (VString s) = AD_STRING"
| "value_type (VFloat f) = AD_FLOAT"
| "value_type (VSigned i) = AD_SIGNED"
| "value_type (VUnsigned u) = AD_UNSIGNED"
| "value_type (VAddress a) = AD_ADDRESS"
| "value_type (VArray es) = AD_ARRAY"

definition ad_GetType :: "'f adata \<Rightarrow> char" where
  "ad_GetType d = value_type (ad_data d)"

definition ad_new :: "'f adata" where
  "ad_new = AData VNull False None False"

text \<open>\<open>ClearData\<close>; the case of an array falls through to the default, which returns false.\<close>

definition ad_ClearData :: "'f adata \<Rightarrow> bool \<times> 'f adata" where
  "ad_ClearData d =
     (case ad_data d of VArray _ \<Rightarrow> False | VNull \<Rightarrow> False | _ \<Rightarrow> True,
      AData VNull False (ad_precision d) (ad_protection d))"

definition ad_SetData :: "'f avalue \<Rightarrow> 'f adata \<Rightarrow> bool \<times> 'f adata" where
  "ad_SetData v d =
     (let d = (if ad_hasData d then snd (ad_ClearData d) else d)
      in (True, AData v True (ad_precision d) (ad_protection d)))"

definition ad_SetPrecision :: "u16 \<Rightarrow> 'f adata \<Rightarrow> 'f adata" where
  "ad_SetPrecision p d = AData (ad_data d) (ad_hasData d) (Some p) (ad_protection d)"

definition ad_SetDataProtection :: "bool \<Rightarrow> 'f adata \<Rightarrow> 'f adata" where
  "ad_SetDataProtection on d = AData (ad_data d) (ad_hasData d) (ad_precision d) on"

text \<open>\<open>AsType<Type>()\<close>, one function for each of the types it is used at.\<close>

definition AsType_error :: "ad_error + 'b" where
  "AsType_error = Inl (Terminate ''T_HIVE_ERROR: AsType, can not return data as type.'')"

definition as_string :: "'f adata \<Rightarrow> ad_error + string" where
  "as_string d = (case ad_data d of VString s \<Rightarrow> Inr s | _ \<Rightarrow> AsType_error)"

definition as_float :: "'f adata \<Rightarrow> ad_error + 'f" where
  "as_float d = (case ad_data d of VFloat f \<Rightarrow> Inr f | _ \<Rightarrow> AsType_error)"

definition as_signed :: "'f adata \<Rightarrow> ad_error + u64" where
  "as_signed d = (case ad_data d of VSigned i \<Rightarrow> Inr i | _ \<Rightarrow> AsType_error)"

definition as_unsigned :: "'f adata \<Rightarrow> ad_error + u64" where
  "as_unsigned d = (case ad_data d of VUnsigned u \<Rightarrow> Inr u | _ \<Rightarrow> AsType_error)"

definition as_address :: "'f adata \<Rightarrow> ad_error + u64" where
  "as_address d = (case ad_data d of VAddress a \<Rightarrow> Inr a | _ \<Rightarrow> AsType_error)"

definition as_array :: "'f adata \<Rightarrow> ad_error + 'f adata list" where
  "as_array d = (case ad_data d of VArray es \<Rightarrow> Inr es | _ \<Rightarrow> AsType_error)"

section \<open>The parser\<close>

text \<open>\<open>RemoveChar\<close> erases at the iterator or moves it.\<close>

fun RemoveChar :: "string \<Rightarrow> char \<Rightarrow> string" where
  "RemoveChar [] remove = []"
| "RemoveChar (c # cs) remove = (if c = remove then RemoveChar cs remove else c # RemoveChar cs remove)"

text \<open>\<open>DecimalPlaces\<close> runs from the last character back to a point.\<close>

fun decimal_loop :: "u32 \<Rightarrow> string \<Rightarrow> u32" where
  "decimal_loop i [] = 0"
| "decimal_loop i (c # cs) = (if c = CHR ''.'' then i else decimal_loop (i + 1) cs)"

definition DecimalPlaces :: "string \<Rightarrow> u32" where
  "DecimalPlaces floatStr = decimal_loop 0 (rev floatStr)"

text \<open>\<open>new ArmaData(temp)\<close> for an element of an array; \<open>p\<close> is the constructor.\<close>

definition new_element :: "(string \<Rightarrow> ad_error + 'f adata) \<Rightarrow> string \<Rightarrow> ad_error + 'f adata" where
  "new_element p temp =
     bindE (p temp) (\<lambda>d. if ad_GetType d = AD_NULL then Inl (Terminate parseErrorType) else Inr d)"

text \<open>
  What follows a nested array that is complete: the separator, or the bracket that ends the array.
  It returns the text after it.
\<close>

fun after_nested :: "string \<Rightarrow> ad_error + string" where
  "after_nested [] = Inl (Terminate parseErrorType)"
| "after_nested (x # xs) =
     (if x \<noteq> AD_AS_RIGHT
      then (if xs = [] then Inl (Terminate parseErrorExpected)
            else if hd xs = AD_AS_RIGHT then Inl (Terminate parseErrorExpected)
            else Inr xs)
      else if xs \<noteq> [] then Inl (Terminate parseErrorEnd)
      else Inr xs)"

text \<open>
  The loop over a nested array: \<open>L\<close> and \<open>R\<close> count the brackets. \<open>L\<close> is positive from the start and
  set to 0 when the array is complete, which ends the loop. The elements found and the text that
  remains are returned.
\<close>

fun nest_loop ::
  "(string \<Rightarrow> ad_error + 'f adata) \<Rightarrow> string \<Rightarrow> bool \<Rightarrow> nat \<Rightarrow> nat \<Rightarrow> 'f adata list \<Rightarrow> string \<Rightarrow>
   ad_error + 'f adata list \<times> string" where
  "nest_loop p temp ignore L R arr [] = Inl EndDeref"
| "nest_loop p temp ignore L R arr (c # cs) =
     (let ignore = (if c = AD_UNIT then \<not> ignore else ignore);
          temp = temp @ [c];
          L = (if \<not> ignore \<and> c = AD_AS_LEFT then L + 1 else L);
          R = (if \<not> ignore \<and> c = AD_AS_RIGHT then R + 1 else R)
      in if \<not> ignore \<and> L = R
         then bindE (new_element p temp) (\<lambda>d. bindE (after_nested cs) (\<lambda>rest. Inr (arr @ [d], rest)))
         else nest_loop p temp ignore L R arr cs)"

text \<open>
  The loop over elements that are not arrays, up to an \<open>@\<close>. The first component tells that the whole
  array is done.
\<close>

fun flat_loop ::
  "(string \<Rightarrow> ad_error + 'f adata) \<Rightarrow> string \<Rightarrow> bool \<Rightarrow> 'f adata list \<Rightarrow> string \<Rightarrow>
   ad_error + bool \<times> 'f adata list \<times> string" where
  "flat_loop p temp ignore arr [] = Inl EndDeref"
| "flat_loop p temp ignore arr (c # cs) =
     (if c = AD_ARRAY then Inr (False, arr, c # cs)
      else
        let (ignore, temp) = (if c = AD_UNIT then (\<not> ignore, temp) else (ignore, temp @ [c]))
        in if \<not> ignore
           then (case cs of
                   [] \<Rightarrow> Inl EndDeref
                 | x # xs \<Rightarrow>
                     if x = AD_SEPERATOR \<or> x = AD_AS_RIGHT
                     then bindE (new_element p temp) (\<lambda>d.
                            if x = AD_AS_RIGHT
                            then (if xs = [] then Inr (True, arr @ [d], []) else Inl (Terminate parseErrorEnd))
                            else if xs = [] then Inl (Terminate parseErrorExpected)
                            else flat_loop p [] ignore (arr @ [d]) xs)
                     else flat_loop p temp ignore arr cs)
           else (if cs = [] then Inl (Terminate parseErrorExpected)
                 else flat_loop p temp ignore arr cs))"

lemma after_nested_shorter: "after_nested cs = Inr rest \<Longrightarrow> length rest < length cs"
  by (cases cs) (auto split: if_splits)

lemma nest_loop_shorter:
  "nest_loop p temp ignore L R arr rest = Inr (arr', rest') \<Longrightarrow> length rest' < length rest"
proof (induction rest arbitrary: temp ignore L R)
  case (Cons c cs)
  show ?case
    using Cons.prems
    by (auto simp: Let_def bindE_Inr_iff split: if_splits dest!: Cons.IH after_nested_shorter)
qed simp

lemma flat_loop_step:
  assumes "c \<noteq> AD_ARRAY" and "flat_loop p temp ignore arr (c # cs) = Inr r"
  shows "(\<exists>temp' ignore'. flat_loop p temp' ignore' arr cs = Inr r) \<or>
    (\<exists>x xs d ignore'. cs = x # xs \<and> flat_loop p [] ignore' (arr @ [d]) xs = Inr r) \<or>
    (\<exists>arr'. r = (True, arr', []))"
proof -
  have "flat_loop p temp ignore arr (c # cs) = Inr r" by fact
  then show ?thesis
    unfolding flat_loop.simps(2) [of p temp ignore arr c cs] using assms(1)
    by (cases cs; cases "c = AD_UNIT"; cases ignore)
      (simp_all add: bindE_Inr_iff del: flat_loop.simps split: if_splits; blast)+
qed

lemma flat_loop_shorter:
  "flat_loop p temp ignore arr rest = Inr (b, arr', rest') \<Longrightarrow>
   length rest' \<le> length rest \<and> (\<not> b \<longrightarrow> (\<exists>cs. rest' = AD_ARRAY # cs))"
proof (induction rest arbitrary: temp ignore arr rule: length_induct)
  case (1 rest)
  show ?case
  proof (cases rest)
    case (Cons c cs)
    show ?thesis
    proof (cases "c = AD_ARRAY")
      case False
      from flat_loop_step [OF this "1.prems" [unfolded Cons]] "1.IH" show ?thesis
        unfolding Cons by (elim disjE exE conjE) (force dest: spec [of _ cs], force dest: spec [of _ "tl cs"], simp)
    qed (use "1.prems" Cons in auto)
  qed (use "1.prems" in simp)
qed

lemma flat_loop_shrinks:
  assumes "c \<noteq> AD_ARRAY" and "flat_loop p temp ignore arr (c # cs) = Inr (False, arr', rest')"
  shows "length rest' < length (c # cs)"
  using flat_loop_step [OF assms] by (auto dest!: flat_loop_shorter)

text \<open>The outer loop, entered after the opening bracket.\<close>

function arr_loop ::
  "(string \<Rightarrow> ad_error + 'f adata) \<Rightarrow> 'f adata list \<Rightarrow> string \<Rightarrow> ad_error + 'f adata list" where
  "arr_loop p arr rest =
     (case rest of
        [] \<Rightarrow> Inr arr
      | c # cs \<Rightarrow>
          if c = AD_ARRAY
          then (case cs of
                  [] \<Rightarrow> Inl EndDeref
                | x # xs \<Rightarrow>
                    if x = AD_AS_LEFT \<and> xs \<noteq> []
                    then bindE (nest_loop p [c, x] False 1 0 arr xs) (\<lambda>(arr, rest). arr_loop p arr rest)
                    else Inl (Terminate parseErrorExpected))
          else bindE (flat_loop p [] False arr rest) (\<lambda>(done, arr, rest).
                 if done then Inr arr else arr_loop p arr rest))"
  by pat_completeness auto
termination
proof (relation "measure (\<lambda>(p, arr, rest). length rest)", goal_cases)
  case (2 p arr rest c cs x xs r arr' rest')
  then have "nest_loop p [c, x] False 1 0 arr xs = Inr (arr', rest')" by simp
  from nest_loop_shorter [OF this] 2 show ?case by auto
next
  case (3 p arr rest c cs r b q arr' rest')
  then have "flat_loop p [] False arr (c # cs) = Inr (False, arr', rest')" by simp
  from flat_loop_shrinks [OF _ this] 3 show ?case by auto
qed simp

declare arr_loop.simps [simp del]

text \<open>The loops call the element parser on texts no longer than what they were given.\<close>

lemma nest_loop_cong:
  "(\<And>t. length t \<le> length temp + length rest \<Longrightarrow> p t = p' t) \<Longrightarrow>
   nest_loop p temp ignore L R arr rest = nest_loop p' temp ignore L R arr rest"
proof (induction rest arbitrary: temp ignore L R)
  case (Cons c cs)
  have "new_element p (temp @ [c]) = new_element p' (temp @ [c])"
    using Cons.prems by (simp add: new_element_def)
  moreover have "nest_loop p (temp @ [c]) i l r arr cs = nest_loop p' (temp @ [c]) i l r arr cs" for i l r
    using Cons.prems by (intro Cons.IH) simp
  ultimately show ?case unfolding nest_loop.simps(2) by (simp only: Let_def)
qed simp

lemma flat_loop_cong:
  "(\<And>t. length t \<le> length temp + length rest \<Longrightarrow> p t = p' t) \<Longrightarrow>
   flat_loop p temp ignore arr rest = flat_loop p' temp ignore arr rest"
proof (induction rest arbitrary: temp ignore arr rule: length_induct)
  case (1 rest)
  show ?case
  proof (cases rest)
    case (Cons c cs)
    have new: "new_element p t = new_element p' t" if "length t \<le> Suc (length temp)" for t
      using "1.prems" that Cons by (simp add: new_element_def)
    have IH: "flat_loop p t i a cs = flat_loop p' t i a cs" if "length t \<le> Suc (length temp)" for t i a
      using "1.prems" that Cons by (intro "1.IH" [rule_format]) simp_all
    show ?thesis
    proof (cases cs)
      case Nil
      with Cons show ?thesis by simp
    next
      case (Cons x xs)
      have IH2: "flat_loop p [] i a xs = flat_loop p' [] i a xs" for i a
        using "1.prems" Cons \<open>rest = c # cs\<close> by (intro "1.IH" [rule_format]) simp_all
      show ?thesis
        unfolding \<open>rest = c # cs\<close> flat_loop.simps(2)
        using new [of temp] new [of "temp @ [c]"] IH [of temp] IH [of "temp @ [c]"] IH2
        by (simp add: Cons del: flat_loop.simps cong: if_cong)
    qed
  qed simp
qed

lemma arr_loop_cong [fundef_cong]:
  assumes "arr = arr'" and "rest = rest'" and "\<And>t. length t \<le> length rest' \<Longrightarrow> p t = p' t"
  shows "arr_loop p arr rest = arr_loop p' arr' rest'"
  unfolding assms(1,2)
  using assms(3)
proof (induction p' arr' rest' rule: arr_loop.induct)
  case (1 p' arr' rest')
  show ?case
  proof (cases rest')
    case Nil
    then show ?thesis by (simp add: arr_loop.simps)
  next
    case (Cons c cs)
    show ?thesis
    proof (cases "c = AD_ARRAY")
      case True
      show ?thesis
      proof (cases "\<exists>x xs. cs = x # xs \<and> x = AD_AS_LEFT \<and> xs \<noteq> []")
        case False
        then show ?thesis using Cons True by (auto simp: arr_loop.simps split: list.split)
      next
        case left: True
        then obtain xs where cs: "cs = AD_AS_LEFT # xs" "xs \<noteq> []" by blast
        have nest: "nest_loop p [c, AD_AS_LEFT] False 1 0 arr' xs = nest_loop p' [c, AD_AS_LEFT] False 1 0 arr' xs"
          using "1.prems" Cons cs by (intro nest_loop_cong) simp
        have rec: "arr_loop p a r = arr_loop p' a r"
          if r: "nest_loop p' [c, AD_AS_LEFT] False 1 0 arr' xs = Inr (a, r)" for a r
          using "1.IH"(1) [OF Cons True cs(1) _ r refl] cs "1.prems" nest_loop_shorter [OF r] Cons by simp
        show ?thesis
          unfolding Cons cs arr_loop.simps [of _ arr' "c # AD_AS_LEFT # xs"]
          using True cs(2) nest rec by (auto intro!: bindE_cong)
      qed
    next
      case False
      have flat: "flat_loop p [] False arr' rest' = flat_loop p' [] False arr' rest'"
        using "1.prems" by (intro flat_loop_cong) simp
      have rec: "arr_loop p a r = arr_loop p' a r"
        if r: "flat_loop p' [] False arr' rest' = Inr (False, a, r)" for a r
        using "1.IH"(2) [OF Cons False r refl refl] "1.prems" flat_loop_shorter [OF r] by simp
      show ?thesis
        using False flat rec unfolding Cons arr_loop.simps [of _ arr' "c # cs"]
        by (auto intro!: bindE_cong)
    qed
  qed
qed

text \<open>
  \<open>BuildData\<close> on the text from the iterator on: the data built (\<open>VNull\<close> where it returns false) and
  the precision it assigned. The caller has already read the first character for the type.
  \<open>ad_store\<close> is the object after it. The program parses into an object once, when it makes it: a
  message parsed a second time after a bare name, which has data that \<open>hasData\<close> denies, would keep
  its old type here if \<open>BuildData\<close> returned false.
\<close>

definition ad_store :: "'f avalue \<Rightarrow> u16 option \<Rightarrow> 'f adata \<Rightarrow> 'f adata" where
  "ad_store v pr d =
     AData v (case v of VNull \<Rightarrow> False | _ \<Rightarrow> True) (case pr of None \<Rightarrow> ad_precision d | Some p \<Rightarrow> Some p)
       (ad_protection d)"

function BuildData :: "(string \<Rightarrow> std_exc + 'f) \<Rightarrow> string \<Rightarrow> ad_error + 'f avalue \<times> u16 option" where
  "BuildData stof s =
     (case s of
        [] \<Rightarrow> Inl EndDeref
      | type # r \<Rightarrow>
          if r = [] then Inl (Terminate parseErrorType)
          else if type = AD_STRING then Inr (VString r, None)
          else if type = AD_FLOAT then
            (case stof r of Inl e \<Rightarrow> Inl (Throws e)
             | Inr f \<Rightarrow> Inr (VFloat f, Some (ucast (DecimalPlaces r))))
          else if type = AD_SIGNED then
            (case stoll r of Inl e \<Rightarrow> Inl (Throws e) | Inr i \<Rightarrow> Inr (VSigned i, None))
          else if type = AD_UNSIGNED then
            (case stoull r of Inl e \<Rightarrow> Inl (Throws e) | Inr u \<Rightarrow> Inr (VUnsigned u, None))
          else if type = AD_ARRAY then
            (if hd r = AD_AS_LEFT
             then bindE (arr_loop (\<lambda>t. if t = [] then Inr ad_new
                                       else bindE (BuildData stof t) (\<lambda>(v, pr). Inr (ad_store v pr ad_new)))
                           [] (tl r)) (\<lambda>arr. Inr (VArray arr, None))
             else Inr (VNull, None))
          else if type = AD_ADDRESS then Inr (VAddress (stream_hex r), None)
          else Inl (Terminate parseErrorType))"
  by pat_completeness auto
termination
proof (relation "measure (\<lambda>(stof, s). length s)", goal_cases)
  case (2 stof s type r t)
  then have "length t < length r" by (cases r) auto
  with 2 show ?case by simp
qed simp

declare BuildData.simps [simp del]

text \<open>The constructor \<open>ArmaData(std::string)\<close>, \<open>ParseData\<close> and \<open>ParseArmaData\<close>.\<close>

definition parse_new :: "(string \<Rightarrow> std_exc + 'f) \<Rightarrow> string \<Rightarrow> ad_error + 'f adata" where
  "parse_new stof t =
     (if t = [] then Inr ad_new
      else bindE (BuildData stof t) (\<lambda>(v, pr). Inr (ad_store v pr ad_new)))"

definition ad_ParseData ::
  "(string \<Rightarrow> std_exc + 'f) \<Rightarrow> string \<Rightarrow> string \<Rightarrow> 'f adata \<Rightarrow> ad_error + bool \<times> 'f adata" where
  "ad_ParseData stof armaData rest d =
     (if armaData = [] then Inr (False, d)
      else let d = (if ad_hasData d then snd (ad_ClearData d) else d)
           in bindE (BuildData stof rest) (\<lambda>(v, pr).
                let d = ad_store v pr d in Inr (ad_hasData d, d)))"

definition ad_ParseArmaData ::
  "(string \<Rightarrow> std_exc + 'f) \<Rightarrow> string \<Rightarrow> 'f adata \<Rightarrow> ad_error + bool \<times> 'f adata" where
  "ad_ParseArmaData stof armaData d = ad_ParseData stof armaData armaData d"

lemma BuildData_array:
  "BuildData stof (AD_ARRAY # AD_AS_LEFT # r) =
     bindE (arr_loop (parse_new stof) [] r) (\<lambda>arr. Inr (VArray arr, None))"
  unfolding BuildData.simps [of stof "AD_ARRAY # AD_AS_LEFT # r"] parse_new_def [abs_def]
  by (simp add: ad_chars)

section \<open>The printer\<close>

text \<open>
  \<open>DeparseArmaData\<close> appends to a string; this is the text appended. The precision is only read for a
  \<open>float\<close>: \<open>None\<close> there is a read of a member nothing was ever assigned to.
\<close>

fun Deparse :: "(u16 option \<Rightarrow> 'f \<Rightarrow> string) \<Rightarrow> 'f adata \<Rightarrow> string"
  and Deparse_value :: "(u16 option \<Rightarrow> 'f \<Rightarrow> string) \<Rightarrow> u16 option \<Rightarrow> 'f avalue \<Rightarrow> string"
  and Deparse_elements :: "(u16 option \<Rightarrow> 'f \<Rightarrow> string) \<Rightarrow> 'f adata list \<Rightarrow> string" where
  "Deparse fixed (AData v h pr prot) = (if h then value_type v # Deparse_value fixed pr v else [])"
| "Deparse_value fixed pr VNull = []"
| "Deparse_value fixed pr (VString s) = AD_UNIT # s @ [AD_UNIT]"
| "Deparse_value fixed pr (VFloat f) = fixed pr f"
| "Deparse_value fixed pr (VSigned i) = show_i64 i"
| "Deparse_value fixed pr (VUnsigned u) = show_u64 u"
| "Deparse_value fixed pr (VAddress a) = show_hex (unat a)"
| "Deparse_value fixed pr (VArray es) =
     (let out = AD_AS_LEFT # Deparse_elements fixed es
      in (if es \<noteq> [] then butlast out else out) @ [AD_AS_RIGHT])"
| "Deparse_elements fixed [] = []"
| "Deparse_elements fixed (e # es) =
     (if ad_hasData e then Deparse fixed e @ [AD_SEPERATOR] else []) @ Deparse_elements fixed es"

definition ad_DeparseArmaData ::
  "(u16 option \<Rightarrow> 'f \<Rightarrow> string) \<Rightarrow> 'f adata \<Rightarrow> string \<Rightarrow> bool \<times> string" where
  "ad_DeparseArmaData fixed d armaData = (ad_hasData d, armaData @ Deparse fixed d)"

section \<open>ArmaMessage\<close>

record 'f amessage =
  am_name :: string
  am_hasFunc :: bool
  am_data :: "'f adata"

definition am_new :: "'f amessage" where
  "am_new = \<lparr>am_name = [], am_hasFunc = False, am_data = ad_new\<rparr>"

definition am_ParseArmaData ::
  "(string \<Rightarrow> std_exc + 'f) \<Rightarrow> string \<Rightarrow> 'f amessage \<Rightarrow> ad_error + bool \<times> 'f amessage" where
  "am_ParseArmaData stof armaData m =
     (case armaData of
        [] \<Rightarrow> Inr (False, m)
      | c # cs \<Rightarrow>
          let nullFunc = (c = AD_STRING \<or> c = AD_FLOAT \<or> c = AD_SIGNED \<or> c = AD_UNSIGNED \<or> c = AD_ADDRESS \<or>
                          c = AD_ARRAY);
              m = m\<lparr>am_hasFunc := \<not> nullFunc\<rparr>
          in if nullFunc
             then bindE (ad_ParseData stof armaData armaData (am_data m)) (\<lambda>(ok, d). Inr (ok, m\<lparr>am_data := d\<rparr>))
             else
               let m = m\<lparr>am_name := takeWhile (\<lambda>c. c \<noteq> AD_SEPERATOR) armaData\<rparr>;
                   rest = dropWhile (\<lambda>c. c \<noteq> AD_SEPERATOR) armaData
               in if rest = []
                  then Inr (True, m\<lparr>am_data := AData (ad_data (am_data m)) False (ad_precision (am_data m))
                                      (ad_protection (am_data m))\<rparr>)
                  else bindE (ad_ParseData stof armaData (tl rest) (am_data m)) (\<lambda>(ok, d).
                         Inr (ok, m\<lparr>am_data := d\<rparr>)))"

text \<open>The constructor \<open>ArmaMessage(std::string)\<close>.\<close>

definition am_of :: "(string \<Rightarrow> std_exc + 'f) \<Rightarrow> string \<Rightarrow> ad_error + 'f amessage" where
  "am_of stof armaData = bindE (am_ParseArmaData stof armaData am_new) (\<lambda>(ok, m). Inr m)"

definition am_DeparseArmaData ::
  "(u16 option \<Rightarrow> 'f \<Rightarrow> string) \<Rightarrow> 'f amessage \<Rightarrow> string \<Rightarrow> bool \<times> string" where
  "am_DeparseArmaData fixed m armaData =
     (let armaData =
        (if am_hasFunc m
         then armaData @ am_name m @ (if ad_hasData (am_data m) then [AD_SEPERATOR] else [])
         else armaData)
      in ad_DeparseArmaData fixed (am_data m) armaData)"

end
