(* ===== verification/Session.thy ===== *)
theory Session
  imports OPFL_Conn Thread_Hive Arma_Data DT_Between
begin

text \<open>
  The thread of one player, \<open>mycallback\<close> of \<^verbatim>\<open>OPFL/OPFL.cpp\<close>, with \<open>IsBanned\<close>. It takes two connections
  from the pool, loads the account, reports it to the game and serves the messages of the game until
  the one that commits. The threads share the pool, the registries and the database: the callback is
  a machine whose state \<open>ss_pc\<close> is the place it has reached, and one step runs to its next access to
  the pool or to a mailbox. Other threads run between steps. \<open>None\<close> as an outcome is a step that
  waits.
\<close>

section \<open>Failures of values\<close>

fun of_ad :: "ad_error + 'a \<Rightarrow> failure + 'a" where
  "of_ad (Inl (Terminate msg)) = Inl (Ended msg)"
| "of_ad (Inl EndDeref) = Inl (Crashed OutOfBounds)"
| "of_ad (Inl (Throws e)) = Inl (Thrown (StdException e))"
| "of_ad (Inr x) = Inr x"

text \<open>\<open>AsType<ARMA_ARRAY>()->at(i)\<close>.\<close>

definition arg :: "nat \<Rightarrow> 'f adata \<Rightarrow> failure + 'f adata" where
  "arg i d = bindE (of_ad (as_array d)) (\<lambda>es.
     if i < length es then Inr (es ! i) else Inl (Thrown (StdException OutOfRange)))"

definition arg_string :: "nat \<Rightarrow> 'f adata \<Rightarrow> failure + string" where
  "arg_string i d = bindE (arg i d) (\<lambda>e. of_ad (as_string e))"

definition arg_signed :: "nat \<Rightarrow> 'f adata \<Rightarrow> failure + u64" where
  "arg_signed i d = bindE (arg i d) (\<lambda>e. of_ad (as_signed e))"

definition arg_unsigned :: "nat \<Rightarrow> 'f adata \<Rightarrow> failure + u64" where
  "arg_unsigned i d = bindE (arg i d) (\<lambda>e. of_ad (as_unsigned e))"

definition arg_address :: "nat \<Rightarrow> 'f adata \<Rightarrow> failure + u64" where
  "arg_address i d = bindE (arg i d) (\<lambda>e. of_ad (as_address e))"

section \<open>The clock\<close>

text \<open>
  \<open>time\<close>, \<open>gmtime_s\<close> and \<open>mktime\<close> of the C library. \<open>difftime\<close> is a difference of \<open>double\<close>s: exact, as
  the times of the calendar are integers far below 2^53.
\<close>

record 'w clib =
  c_time :: "'w \<Rightarrow> int"
  c_gmtime :: "int \<Rightarrow> ctm"
  c_mktime :: "ctm \<Rightarrow> int"

definition to_int :: "u64 \<Rightarrow> int" where
  "to_int v = sint (ucast v :: u32)"

definition IsBanned :: "'w clib \<Rightarrow> u64 \<Rightarrow> u64 \<Rightarrow> u64 \<Rightarrow> u64 \<Rightarrow> u64 \<Rightarrow> u64 \<Rightarrow> u64 \<Rightarrow> 'w \<Rightarrow> bool" where
  "IsBanned cl year mon day hour minute sec banHours w =
     (let end = c_mktime cl (c_gmtime cl (c_time cl w));
          begin = c_mktime cl \<lparr>tm_sec = to_int sec, tm_min = to_int minute, tm_hour = to_int hour,
                    tm_mday = to_int day, tm_mon = to_int (mon - 1), tm_year = to_int (year - 1900), tm_isdst = 0\<rparr>
      in end - begin < sint (3600 * banHours))"

section \<open>The count of desertions\<close>

text \<open>What a rejoining player has left, and the punishment at the commit.\<close>

definition rejoin_left :: "bool \<Rightarrow> u64 \<Rightarrow> u64" where
  "rejoin_left isBanned left =
     (if 0 < sint left then (if 4 < sint left \<and> \<not> isBanned then 0 else left - 1) else 0)"

definition punish :: "ctm \<Rightarrow> opfl_account \<Rightarrow> opfl_account" where
  "punish t act =
     (if 4 < sint (act_left act) then act\<lparr>act_left := 1\<rparr>
      else if 3 < sint (act_left act)
      then act\<lparr>act_left := 5, act_year := word_of_int (tm_year t + 1900), act_month := word_of_int (tm_mon t + 1),
             act_day := word_of_int (tm_mday t), act_hour := word_of_int (tm_hour t),
             act_minute := word_of_int (tm_min t), act_second := word_of_int (tm_sec t)\<rparr>
      else act\<lparr>act_left := act_left act + 1\<rparr>)"

text \<open>The texts sent to the game: the account, and the names of a session that crashed.\<close>

definition quoted :: "string \<Rightarrow> string" where
  "quoted s = AD_STRING # AD_UNIT # s @ [AD_UNIT]"

definition signed_text :: "string \<Rightarrow> string" where
  "signed_text s = CHR '','' # CHR ''-'' # s"

definition report_text :: "string \<Rightarrow> opfl_account \<Rightarrow> bool \<Rightarrow> string" where
  "report_text actName act isBanned =
     ''@['' @ quoted (c_str actName) @ signed_text (show_int (sint (act_rank act))) @
     signed_text (show_int (sint (act_level act))) @ signed_text (show_i64 (act_matches act)) @
     signed_text (show_i64 (act_wins act)) @ signed_text (show_i64 (act_losses act)) @
     signed_text (show_i64 (act_kills act)) @ signed_text (show_i64 (act_chickens act)) @
     signed_text (show_i64 (act_left act)) @ signed_text (show_i64 (act_year act)) @
     signed_text (show_i64 (act_month act)) @ signed_text (show_i64 (act_day act)) @
     signed_text (show_i64 (act_hour act)) @ signed_text (show_i64 (act_minute act)) @
     signed_text (show_i64 (act_second act)) @ '',+'' @
     show_nat (if isBanned \<and> 4 < sint (act_left act) then 1 else 0) @ '']''"

definition cleanup_text :: "string \<Rightarrow> string \<Rightarrow> string \<Rightarrow> string" where
  "cleanup_text inputName outputName actName =
     ''@['' @ quoted inputName @ '','' @ quoted outputName @ '','' @ quoted actName @ '']''"

section \<open>The shared state\<close>

datatype callback = Mycallback | CleanupThreads

text \<open>
  The two instances of \<open>ThreadHive\<close> have registries of their own. \<open>mysql_pool\<close> is null until the cleanup
  thread has made it. \<open>wd_refs\<close> counts the copies of each connection's \<open>shared_ptr\<close> the threads hold.
\<close>

record ('f, 'w, 'con, 'st) world =
  wd_elem :: "('f amessage, callback) registry"
  wd_str :: "(string, callback) registry"
  wd_pool :: "addr pool option"
  wd_refs :: "addr \<Rightarrow> nat"
  wd_conns :: "('con, 'st) conns"
  wd_out :: 'w

definition w_conn :: "(('con, 'st) conns \<times> 'w, 'a) eff \<Rightarrow> (('f, 'w, 'con, 'st) world, 'a) eff" where
  "w_conn m wd = (case m (wd_conns wd, wd_out wd) of (r, mem, w) \<Rightarrow> (r, wd\<lparr>wd_conns := mem, wd_out := w\<rparr>))"

definition w_borrow :: "('w, 'con, 'st, 'rs) sql \<Rightarrow> (('f, 'w, 'con, 'st) world, addr) eff" where
  "w_borrow d wd =
     (case wd_pool wd of
        None \<Rightarrow> (Inl (Crashed NullDeref), wd)
      | Some p \<Rightarrow>
          (case borrow (factory_create d mysql_connection_factory) (conn_destroy d) (wd_refs wd)
                  (p, (wd_conns wd, wd_out wd)) of
             (r, p, mem, w) \<Rightarrow> (r, wd\<lparr>wd_pool := Some p, wd_conns := mem, wd_out := w\<rparr>)))"

text \<open>Only connections that were borrowed are given back, so the pointer is never null here.\<close>

definition w_unborrow :: "addr option \<Rightarrow> (('f, 'w, 'con, 'st) world, unit) eff" where
  "w_unborrow c wd =
     (case (wd_pool wd, c) of
        (Some p, Some a) \<Rightarrow> (Inr (), wd\<lparr>wd_pool := Some (unborrow a p)\<rparr>)
      | _ \<Rightarrow> (Inl (Crashed NullDeref), wd))"

text \<open>A \<open>shared_ptr\<close> that is assigned \<open>new\<close> lets go of \<open>old\<close>.\<close>

definition retain :: "addr option \<Rightarrow> (addr \<Rightarrow> nat) \<Rightarrow> addr \<Rightarrow> nat" where
  "retain c refs = (case c of None \<Rightarrow> refs | Some a \<Rightarrow> refs(a := refs a + 1))"

definition release :: "addr option \<Rightarrow> (addr \<Rightarrow> nat) \<Rightarrow> addr \<Rightarrow> nat" where
  "release c refs = (case c of None \<Rightarrow> refs | Some a \<Rightarrow> refs(a := refs a - 1))"

definition reassign :: "addr option \<Rightarrow> addr option \<Rightarrow> ('f, 'w, 'con, 'st) world \<Rightarrow> ('f, 'w, 'con, 'st) world" where
  "reassign old new wd = wd\<lparr>wd_refs := release old (retain new (wd_refs wd))\<rparr>"

text \<open>\<open>com.sendMsg(com.getThreadHandle(name), text)\<close>; \<open>None\<close> if the search does not end.\<close>

definition w_send :: "string \<Rightarrow> string \<Rightarrow> ('f, 'w, 'con, 'st) world \<Rightarrow> ((failure + unit) \<times> ('f, 'w, 'con, 'st) world) option" where
  "w_send name msg wd =
     (case getThreadHandle name (wd_str wd) of
        None \<Rightarrow> None
      | Some (Inl e) \<Rightarrow> Some (Inl (Crashed e), wd)
      | Some (Inr th) \<Rightarrow>
          (case sendMsg th msg (wd_str wd) of
             Inl e \<Rightarrow> Some (Inl (Crashed e), wd)
           | Inr (ok, rg) \<Rightarrow> Some (Inr (), wd\<lparr>wd_str := rg\<rparr>)))"

section \<open>The callback\<close>

datatype pc = PStart | PBorrow | PBorrow2 | PInit | PPoll | PStop2 | PStop1 | PSetup | PReport | PServe
  | PPunish | PGive2 | PCommit | PCleanup | PEnd | PReturn | PExit | PDone

record 'f session =
  ss_pc :: pc
  ss_hive :: "'f amessage hive"
  ss_inputName :: string
  ss_outputName :: string
  ss_actName :: string
  ss_rejoin :: bool
  ss_opflcon :: "addr option"
  ss_opflcon2 :: "addr option"
  ss_retry :: bool
  ss_stable :: bool
  ss_isBanned :: bool
  ss_act :: opfl_account
  ss_out :: string

text \<open>The locals as they start; \<open>junk\<close> is what the stack holds in place of \<open>act\<close>.\<close>

definition session_new :: "opfl_account \<Rightarrow> 'f amessage hive \<Rightarrow> 'f session" where
  "session_new junk hv =
     \<lparr>ss_pc = PStart, ss_hive = hv, ss_inputName = [], ss_outputName = [], ss_actName = [], ss_rejoin = False,
      ss_opflcon = None, ss_opflcon2 = None, ss_retry = True, ss_stable = True, ss_isBanned = False, ss_act = junk,
      ss_out = []\<rparr>"

text \<open>The outcome of a step: where the session goes on, or how it failed.\<close>

type_synonym ('f, 'w, 'con, 'st) outcome = "((failure + 'f session) \<times> ('f, 'w, 'con, 'st) world) option"

text \<open>\<open>myHive->receiveMsg(msg, blocking)\<close>; the message is \<open>None\<close> when there was none.\<close>

definition ss_receive ::
  "bool \<Rightarrow> 'f session \<Rightarrow> ('f, 'w, 'con, 'st) world \<Rightarrow>
   ('f amessage option \<Rightarrow> 'f session \<Rightarrow> ('f, 'w, 'con, 'st) world \<Rightarrow> ('f, 'w, 'con, 'st) outcome) \<Rightarrow>
   ('f, 'w, 'con, 'st) outcome" where
  "ss_receive blocking ss wd k =
     (case receiveMsg blocking (ss_hive ss) (wd_elem wd) of
        None \<Rightarrow> None
      | Some (Inl e) \<Rightarrow> Some (Inl (Crashed e), wd)
      | Some (Inr (ok, msg, hv, rg)) \<Rightarrow> k msg (ss\<lparr>ss_hive := hv\<rparr>) (wd\<lparr>wd_elem := rg\<rparr>))"

definition goto :: "pc \<Rightarrow> 'f session \<Rightarrow> ('f, 'w, 'con, 'st) world \<Rightarrow> ('f, 'w, 'con, 'st) outcome" where
  "goto p ss wd = Some (Inr (ss\<lparr>ss_pc := p\<rparr>), wd)"

text \<open>The first message brings the names; without it \<open>msg\<close> is not initialised.\<close>

definition step_start :: "'f session \<Rightarrow> ('f, 'w, 'con, 'st) world \<Rightarrow> ('f, 'w, 'con, 'st) outcome" where
  "step_start ss wd =
     ss_receive False ss wd (\<lambda>msg ss wd.
       case msg of
         None \<Rightarrow> Some (Inl (Crashed Uninitialised), wd)
       | Some m \<Rightarrow>
           Some (bindE (arg_string 0 (am_data m)) (\<lambda>inputName.
                 bindE (arg_string 1 (am_data m)) (\<lambda>outputName.
                 bindE (arg_string 2 (am_data m)) (\<lambda>actName.
                 bindE (arg_unsigned 3 (am_data m)) (\<lambda>rejoin.
                   Inr (ss\<lparr>ss_pc := PBorrow, ss_inputName := inputName, ss_outputName := outputName,
                          ss_actName := actName, ss_rejoin := (rejoin \<noteq> 0)\<rparr>))))), wd))"

text \<open>
  The loop that borrows. Every exception of its \<open>try\<close> block is caught; the text decides whether to
  try again.
\<close>

fun what :: "exc \<Rightarrow> string" where
  "what (SQLException msg) = msg"
| "what (StdException InvalidArgument) = ''invalid stoll argument''"
| "what (StdException OutOfRange) = ''stoll argument out of range''"
| "what ConnectionUnavailable = ''Unable to allocate connection''"
| "what ConnectionImpossible = ''Unable to create connection''"

definition caught :: "exc \<Rightarrow> 'f session \<Rightarrow> 'f session" where
  "caught e ss = ss\<lparr>ss_stable := (what e \<noteq> what ConnectionImpossible), ss_pc := PPoll\<rparr>"

definition step_borrow ::
  "('w, 'con, 'st, 'rs) sql \<Rightarrow> 'f session \<Rightarrow> ('f, 'w, 'con, 'st) world \<Rightarrow> ('f, 'w, 'con, 'st) outcome" where
  "step_borrow d ss wd =
     (case w_borrow d wd of
        (Inr a, wd) \<Rightarrow> goto PBorrow2 (ss\<lparr>ss_opflcon := Some a\<rparr>) (reassign (ss_opflcon ss) (Some a) wd)
      | (Inl (Thrown e), wd) \<Rightarrow> Some (Inr (caught e ss), wd)
      | (Inl e, wd) \<Rightarrow> Some (Inl e, wd))"

definition step_borrow2 ::
  "('w, 'con, 'st, 'rs) sql \<Rightarrow> 'f session \<Rightarrow> ('f, 'w, 'con, 'st) world \<Rightarrow> ('f, 'w, 'con, 'st) outcome" where
  "step_borrow2 d ss wd =
     (case w_borrow d wd of
        (Inr a, wd) \<Rightarrow> goto PInit (ss\<lparr>ss_opflcon2 := Some a\<rparr>) (reassign (ss_opflcon2 ss) (Some a) wd)
      | (Inl (Thrown e), wd) \<Rightarrow> Some (Inr (caught e ss), wd)
      | (Inl e, wd) \<Rightarrow> Some (Inl e, wd))"

definition step_init ::
  "('w, 'con, 'st, 'rs) sql \<Rightarrow> 'f session \<Rightarrow> ('f, 'w, 'con, 'st) world \<Rightarrow> ('f, 'w, 'con, 'st) outcome" where
  "step_init d ss wd =
     (case w_conn (conn_ThreadInit d (ss_opflcon ss)) wd of
        (Inr _, wd) \<Rightarrow> goto PPoll (ss\<lparr>ss_retry := False\<rparr>) wd
      | (Inl (Thrown e), wd) \<Rightarrow> Some (Inr (caught e ss), wd)
      | (Inl e, wd) \<Rightarrow> Some (Inl e, wd))"

definition step_poll :: "'f session \<Rightarrow> ('f, 'w, 'con, 'st) world \<Rightarrow> ('f, 'w, 'con, 'st) outcome" where
  "step_poll ss wd =
     ss_receive False ss wd (\<lambda>msg ss wd.
       if (case msg of Some m \<Rightarrow> am_name m = ''Commit'' | None \<Rightarrow> False)
       then goto (if ss_retry ss then PReturn else PStop2) ss wd
       else if ss_retry ss \<and> ss_stable ss then goto PBorrow ss wd
       else goto PSetup (ss\<lparr>ss_retry := True\<rparr>) wd)"

definition step_stop2 ::
  "('w, 'con, 'st, 'rs) sql \<Rightarrow> 'f session \<Rightarrow> ('f, 'w, 'con, 'st) world \<Rightarrow> ('f, 'w, 'con, 'st) outcome" where
  "step_stop2 d ss wd =
     (case thenE (w_conn (conn_ThreadEnd d (ss_opflcon ss))) (\<lambda>_. w_unborrow (ss_opflcon2 ss)) wd of
        (Inr _, wd) \<Rightarrow> goto PStop1 ss wd
      | (Inl e, wd) \<Rightarrow> Some (Inl e, wd))"

definition step_stop1 :: "'f session \<Rightarrow> ('f, 'w, 'con, 'st) world \<Rightarrow> ('f, 'w, 'con, 'st) outcome" where
  "step_stop1 ss wd =
     (case w_unborrow (ss_opflcon ss) wd of
        (Inr _, wd) \<Rightarrow> goto PReturn ss wd
      | (Inl e, wd) \<Rightarrow> Some (Inl e, wd))"

text \<open>
  Loading the account. \<open>stable\<close> is carried along, and each call is made only while it holds; the test
  for a ban is made in any case, on whatever \<open>act\<close> holds.
\<close>

definition whenStable :: "bool \<Rightarrow> ('s, bool) eff \<Rightarrow> ('s, bool) eff" where
  "whenStable fine m = (if fine then m else retE False)"

definition whenStableAct ::
  "bool \<Rightarrow> opfl_account \<Rightarrow> ('s, bool \<times> opfl_account) eff \<Rightarrow> ('s, bool \<times> opfl_account) eff" where
  "whenStableAct fine act m = (if fine then m else retE (False, act))"

definition load_account ::
  "('w, 'con, 'st, 'rs) sql \<Rightarrow> 'w clib \<Rightarrow> 'f session \<Rightarrow> (('con, 'st) conns \<times> 'w, 'f session) eff" where
  "load_account d cl ss =
     (let con = ss_opflcon ss; con2 = ss_opflcon2 ss; name = c_str (ss_actName ss) in
      thenE (whenStable (ss_stable ss) (conn_CreateAccount d con name)) (\<lambda>fine.
      thenE (whenStableAct fine (ss_act ss) (conn_GetAccount d con name (ss_act ss))) (\<lambda>(fine, act).
      thenE (whenStable fine (conn_CreateBanData d con2 name)) (\<lambda>fine.
      thenE (whenStableAct fine act (conn_GetBanData d con2 name act)) (\<lambda>(fine, act).
      thenE getE (\<lambda>(_, w).
        let isBanned = IsBanned cl (act_year act) (act_month act) (act_day act) (act_hour act) (act_minute act)
                         (act_second act) 1 w;
            rejoin = fine \<and> ss_rejoin ss;
            act = (if rejoin then act\<lparr>act_left := rejoin_left isBanned (act_left act)\<rparr> else act) in
      thenE (if rejoin then conn_WriteBanData d con2 act else retE fine) (\<lambda>fine.
      thenE (whenStable fine (conn_CommitData d con2)) (\<lambda>fine.
        retE (ss\<lparr>ss_stable := fine, ss_isBanned := isBanned, ss_act := act\<rparr>)))))))))"

definition step_setup ::
  "('w, 'con, 'st, 'rs) sql \<Rightarrow> 'w clib \<Rightarrow> 'f session \<Rightarrow> ('f, 'w, 'con, 'st) world \<Rightarrow> ('f, 'w, 'con, 'st) outcome" where
  "step_setup d cl ss wd =
     (case w_conn (load_account d cl ss) wd of
        (Inr ss, wd) \<Rightarrow> goto (if ss_stable ss then PReport else PCleanup) ss wd
      | (Inl e, wd) \<Rightarrow> Some (Inl e, wd))"

definition sent ::
  "pc \<Rightarrow> 'f session \<Rightarrow> ((failure + unit) \<times> ('f, 'w, 'con, 'st) world) option \<Rightarrow> ('f, 'w, 'con, 'st) outcome" where
  "sent p ss r =
     (case r of None \<Rightarrow> None
      | Some (Inl e, wd) \<Rightarrow> Some (Inl e, wd)
      | Some (Inr _, wd) \<Rightarrow> goto p ss wd)"

text \<open>
  The stream \<open>out\<close> is written here and, if the session crashes, once more at its end. It is never
  cleared.
\<close>

definition step_report :: "'f session \<Rightarrow> ('f, 'w, 'con, 'st) world \<Rightarrow> ('f, 'w, 'con, 'st) outcome" where
  "step_report ss wd =
     (let out = ss_out ss @ report_text (ss_actName ss) (ss_act ss) (ss_isBanned ss) in
      sent PServe (ss\<lparr>ss_out := out\<rparr>) (w_send (ss_outputName ss) out wd))"

text \<open>One turn of the loop that serves the game.\<close>

definition published :: "'f adata \<Rightarrow> opfl_account \<Rightarrow> failure + opfl_account" where
  "published d act =
     bindE (arg 1 d) (\<lambda>actArray.
     bindE (arg_signed 1 actArray) (\<lambda>rank.
     bindE (arg_signed 2 actArray) (\<lambda>level.
     bindE (arg_signed 3 actArray) (\<lambda>matches.
     bindE (arg_signed 4 actArray) (\<lambda>wins.
     bindE (arg_signed 5 actArray) (\<lambda>losses.
     bindE (arg_signed 6 actArray) (\<lambda>kills.
     bindE (arg_signed 7 actArray) (\<lambda>chickens.
       Inr (act\<lparr>act_rank := ucast rank, act_level := ucast level, act_matches := matches, act_wins := wins,
              act_losses := losses, act_kills := kills, act_chickens := chickens\<rparr>)))))))))"

definition serve ::
  "('w, 'con, 'st, 'rs) sql \<Rightarrow> 'f amessage \<Rightarrow> 'f session \<Rightarrow> (('con, 'st) conns \<times> 'w, 'f session) eff" where
  "serve d m ss =
     (let data = am_data m; con = ss_opflcon ss; name = c_str (ss_actName ss);
          again = (\<lambda>ss retry. retE (ss\<lparr>ss_retry := retry, ss_pc := (if retry then PServe else PCleanup)\<rparr>)) in
      if am_name m = ''PublishKills''
      then thenE (pureE (arg_signed 1 data)) (\<lambda>n. thenE (conn_WriteKills d con name n) (again ss))
      else if am_name m = ''PublishChickens''
      then thenE (pureE (arg_signed 1 data)) (\<lambda>n. thenE (conn_WriteChickens d con name n) (again ss))
      else if am_name m = ''PublishAccount''
      then thenE (pureE (published data (ss_act ss))) (\<lambda>act.
           thenE (conn_WriteAccount d con act) (again (ss\<lparr>ss_act := act\<rparr>)))
      else thenE (pureE (arg_unsigned 2 data)) (\<lambda>p.
           retE (ss\<lparr>ss_pc := (if p \<noteq> 0 then PPunish else PGive2)\<rparr>)))"

definition step_serve ::
  "('w, 'con, 'st, 'rs) sql \<Rightarrow> 'f session \<Rightarrow> ('f, 'w, 'con, 'st) world \<Rightarrow> ('f, 'w, 'con, 'st) outcome" where
  "step_serve d ss wd =
     ss_receive True ss wd (\<lambda>msg ss wd.
       case msg of
         None \<Rightarrow> Some (Inl (Crashed NullDeref), wd)
       | Some m \<Rightarrow> Some (w_conn (serve d m ss) wd))"

text \<open>The end of a session: the punishment, giving the connections back, the commit.\<close>

definition punish_account ::
  "('w, 'con, 'st, 'rs) sql \<Rightarrow> 'w clib \<Rightarrow> 'f session \<Rightarrow> (('con, 'st) conns \<times> 'w, bool \<times> 'f session) eff" where
  "punish_account d cl ss =
     (let con2 = ss_opflcon2 ss in
      thenE (conn_GetBanData d con2 (c_str (ss_actName ss)) (ss_act ss)) (\<lambda>(ok, act).
        if ok
        then thenE getE (\<lambda>(_, w).
             let act = punish (c_gmtime cl (c_time cl w)) act in
             thenE (conn_WriteBanData d con2 act) (\<lambda>ok.
             thenE (if ok then conn_CommitData d con2 else retE False) (\<lambda>ok.
               retE (ok, ss\<lparr>ss_act := act\<rparr>))))
        else retE (False, ss\<lparr>ss_act := act\<rparr>)))"

definition step_punish ::
  "('w, 'con, 'st, 'rs) sql \<Rightarrow> 'w clib \<Rightarrow> 'f session \<Rightarrow> ('f, 'w, 'con, 'st) world \<Rightarrow> ('f, 'w, 'con, 'st) outcome" where
  "step_punish d cl ss wd =
     (case w_conn (punish_account d cl ss) wd of
        (Inr (ok, ss), wd) \<Rightarrow> goto (if ok then PGive2 else PCommit) ss wd
      | (Inl e, wd) \<Rightarrow> Some (Inl e, wd))"

definition step_give2 :: "'f session \<Rightarrow> ('f, 'w, 'con, 'st) world \<Rightarrow> ('f, 'w, 'con, 'st) outcome" where
  "step_give2 ss wd =
     (case w_unborrow (ss_opflcon2 ss) wd of
        (Inr _, wd) \<Rightarrow> goto PCommit ss wd
      | (Inl e, wd) \<Rightarrow> Some (Inl e, wd))"

definition step_commit ::
  "('w, 'con, 'st, 'rs) sql \<Rightarrow> 'f session \<Rightarrow> ('f, 'w, 'con, 'st) world \<Rightarrow> ('f, 'w, 'con, 'st) outcome" where
  "step_commit d ss wd =
     (case thenE (w_conn (conn_ThreadEnd d (ss_opflcon ss))) (\<lambda>_. w_conn (conn_CommitData d (ss_opflcon ss))) wd of
        (Inr ok, wd) \<Rightarrow> goto (if ok then PStop1 else PReturn) ss wd
      | (Inl e, wd) \<Rightarrow> Some (Inl e, wd))"

definition step_cleanup :: "'f session \<Rightarrow> ('f, 'w, 'con, 'st) world \<Rightarrow> ('f, 'w, 'con, 'st) outcome" where
  "step_cleanup ss wd =
     (let out = ss_out ss @ cleanup_text (ss_inputName ss) (ss_outputName ss) (ss_actName ss) in
      sent PEnd (ss\<lparr>ss_out := out\<rparr>) (w_send ''CLEANUP_O'' out wd))"

definition step_end ::
  "('w, 'con, 'st, 'rs) sql \<Rightarrow> 'f session \<Rightarrow> ('f, 'w, 'con, 'st) world \<Rightarrow> ('f, 'w, 'con, 'st) outcome" where
  "step_end d ss wd =
     (case w_conn (conn_ThreadEnd d (ss_opflcon ss)) wd of
        (Inr _, wd) \<Rightarrow> goto PReturn ss wd
      | (Inl e, wd) \<Rightarrow> Some (Inl e, wd))"

text \<open>
  The locals go out of scope, and the thread that ran the callback marks its handle. The pool keeps
  every connection it lends in its set, so the last copy outside is never the last one.
\<close>

definition step_return :: "'f session \<Rightarrow> ('f, 'w, 'con, 'st) world \<Rightarrow> ('f, 'w, 'con, 'st) outcome" where
  "step_return ss wd =
     (case hive_finish True (ss_hive ss) (wd_elem wd) of
        Inl e \<Rightarrow> Some (Inl (Crashed e), wd)
      | Inr (hv, rg) \<Rightarrow>
          goto PExit (ss\<lparr>ss_hive := hv, ss_opflcon := None, ss_opflcon2 := None\<rparr>)
            (reassign (ss_opflcon ss) None (reassign (ss_opflcon2 ss) None (wd\<lparr>wd_elem := rg\<rparr>))))"

text \<open>The thread ends with its copy of the object.\<close>

definition step_exit :: "'f session \<Rightarrow> ('f, 'w, 'con, 'st) world \<Rightarrow> ('f, 'w, 'con, 'st) outcome" where
  "step_exit ss wd =
     (case hive_destroy (ss_hive ss) (wd_elem wd) of
        None \<Rightarrow> None
      | Some (Inl e) \<Rightarrow> Some (Inl (Crashed e), wd)
      | Some (Inr (hv, rg)) \<Rightarrow> goto PDone (ss\<lparr>ss_hive := hv\<rparr>) (wd\<lparr>wd_elem := rg\<rparr>))"

definition session_step ::
  "('w, 'con, 'st, 'rs) sql \<Rightarrow> 'w clib \<Rightarrow> 'f session \<Rightarrow> ('f, 'w, 'con, 'st) world \<Rightarrow> ('f, 'w, 'con, 'st) outcome" where
  "session_step d cl ss wd =
     (case ss_pc ss of
        PStart \<Rightarrow> step_start ss wd
      | PBorrow \<Rightarrow> step_borrow d ss wd
      | PBorrow2 \<Rightarrow> step_borrow2 d ss wd
      | PInit \<Rightarrow> step_init d ss wd
      | PPoll \<Rightarrow> step_poll ss wd
      | PStop2 \<Rightarrow> step_stop2 d ss wd
      | PStop1 \<Rightarrow> step_stop1 ss wd
      | PSetup \<Rightarrow> step_setup d cl ss wd
      | PReport \<Rightarrow> step_report ss wd
      | PServe \<Rightarrow> step_serve d ss wd
      | PPunish \<Rightarrow> step_punish d cl ss wd
      | PGive2 \<Rightarrow> step_give2 ss wd
      | PCommit \<Rightarrow> step_commit d ss wd
      | PCleanup \<Rightarrow> step_cleanup ss wd
      | PEnd \<Rightarrow> step_end d ss wd
      | PReturn \<Rightarrow> step_return ss wd
      | PExit \<Rightarrow> step_exit ss wd
      | PDone \<Rightarrow> None)"

text \<open>The session alone, for \<open>n\<close> steps.\<close>

fun session_run ::
  "nat \<Rightarrow> ('w, 'con, 'st, 'rs) sql \<Rightarrow> 'w clib \<Rightarrow> 'f session \<Rightarrow> ('f, 'w, 'con, 'st) world \<Rightarrow> ('f, 'w, 'con, 'st) outcome" where
  "session_run 0 d cl ss wd = Some (Inr ss, wd)"
| "session_run (Suc n) d cl ss wd =
     (case session_step d cl ss wd of
        Some (Inr ss, wd) \<Rightarrow> session_run n d cl ss wd
      | r \<Rightarrow> r)"

end
