(* ===== verification/Extension.thy ===== *)
theory Extension
  imports Session
begin

text \<open>
  The entry point of the library, \<open>RVExtension\<close> of \<^verbatim>\<open>OPFL/OPFL.cpp\<close>: the game calls it with a text and
  gets a text back. It dispatches on the name of the message; the objects \<open>ThreadHive\<close> it makes go to
  the game as the text of their address and come back in later messages. With it \<open>PublishData\<close> and the
  thread \<open>CleanupThreads\<close>, which makes the pool and deletes the objects of ended sessions.
\<close>

section \<open>State\<close>

text \<open>
  The objects \<open>ThreadHive\<close> on the heap, by address, and the statics of \<open>RVExtension\<close>. \<open>sv_spawned\<close> are the
  sessions whose threads were started, with the copy of the object each runs on.
\<close>

record ('f, 'w, 'con, 'st) server = "('f, 'w, 'con, 'st) world" +
  sv_ehives :: "u64 \<Rightarrow> 'f amessage hive option"
  sv_shives :: "u64 \<Rightarrow> string hive option"
  sv_thrdname :: string
  sv_cleanupThread :: "'f amessage hive"
  sv_threadState :: "string hive"
  sv_dllState :: "string hive"
  sv_spawned :: "'f session list"

text \<open>
  What the platform decides: the address of the next object, the memory a new handle and the stack
  find, and the conversion of text to \<open>float\<close>.
\<close>

record ('f, 'w, 'con, 'st) platform =
  pf_new :: "('f, 'w, 'con, 'st) server \<Rightarrow> u64"
  pf_shares :: u32
  pf_act :: opfl_account
  pf_stof :: "string \<Rightarrow> std_exc + 'f"

type_synonym ('f, 'w, 'con, 'st, 'a) server_eff = "(('f, 'w, 'con, 'st) server, 'a) eff"

section \<open>The text of an address\<close>

text \<open>\<open>operator<<\<close> prints a pointer as sixteen digits.\<close>

definition hex_upper :: "nat \<Rightarrow> char" where
  "hex_upper n = (if n < 10 then char_of (48 + n) else char_of (55 + n))"

fun show_digits16 :: "nat \<Rightarrow> nat \<Rightarrow> string" where
  "show_digits16 0 n = []"
| "show_digits16 (Suc k) n = show_digits16 k (n div 16) @ [hex_upper (n mod 16)]"

definition show_ptr :: "u64 \<Rightarrow> string" where
  "show_ptr a = show_digits16 16 (unat a)"

lemma hex_upper_is_hex: "n < 16 \<Longrightarrow> is_hex (hex_upper n) \<and> hex_val (hex_upper n) = n"
  by (auto simp: hex_upper_def is_hex_def is_digit_def hex_val_def Let_def)

lemma show_digits16_hex: "c \<in> set (show_digits16 k n) \<Longrightarrow> is_hex c"
  by (induction k arbitrary: n) (auto simp: hex_upper_is_hex)

lemma read_show_digits16: "n < 16 ^ k \<Longrightarrow> read_hex (show_digits16 k n) = n"
proof (induction k arbitrary: n)
  case (Suc k)
  then have "n div 16 < 16 ^ k" by (simp add: less_mult_imp_div_less mult.commute)
  from Suc.IH [OF this] show ?case by (simp add: hex_upper_is_hex)
qed simp

lemma length_show_digits16 [simp]: "length (show_digits16 k n) = k"
  by (induction k arbitrary: n) auto

lemma stream_hex_show_ptr [simp]: "stream_hex (show_ptr a) = a"
proof -
  let ?s = "show_ptr a"
  have hex: "\<And>c. c \<in> set ?s \<Longrightarrow> is_hex c" unfolding show_ptr_def by (rule show_digits16_hex)
  have "?s \<noteq> []" using length_show_digits16 [of 16 "unat a"] unfolding show_ptr_def by (metis list.size(3) zero_neq_numeral)
  then have sign: "take_sign (dropWhile isspace ?s) = (False, ?s)" using hex is_hex_plain by (cases ?s) auto
  have tw: "takeWhile is_hex ?s = ?s" using hex by (rule takeWhile_all)
  have drop: "drop_0x ?s = ?s" using hex by (rule drop_0x_hex)
  have less: "unat a < 2 ^ 64" using unsigned_less [of a] by simp
  then have "read_hex ?s = unat a" unfolding show_ptr_def by (intro read_show_digits16) simp
  with less show ?thesis by (simp add: stream_hex_def sign tw drop del: takeWhile_eq_all_conv)
qed

section \<open>Lifting\<close>

definition onElem ::
  "(('f amessage, callback) registry \<Rightarrow> mem_error + 'a \<times> ('f amessage, callback) registry) \<Rightarrow>
   ('f, 'w, 'con, 'st, 'a) server_eff" where
  "onElem m sv = (case m (wd_elem sv) of Inl e \<Rightarrow> (Inl (Crashed e), sv) | Inr (x, rg) \<Rightarrow> (Inr x, sv\<lparr>wd_elem := rg\<rparr>))"

definition onStr ::
  "((string, callback) registry \<Rightarrow> mem_error + 'a \<times> (string, callback) registry) \<Rightarrow>
   ('f, 'w, 'con, 'st, 'a) server_eff" where
  "onStr m sv = (case m (wd_str sv) of Inl e \<Rightarrow> (Inl (Crashed e), sv) | Inr (x, rg) \<Rightarrow> (Inr x, sv\<lparr>wd_str := rg\<rparr>))"

definition fetchE :: "(('f, 'w, 'con, 'st) server \<Rightarrow> 'a option) \<Rightarrow> ('f, 'w, 'con, 'st, 'a) server_eff" where
  "fetchE f sv = (case f sv of None \<Rightarrow> (Inl (Crashed DanglingDeref), sv) | Some x \<Rightarrow> (Inr x, sv))"

text \<open>A call that does not wait; what it would return if it did is no result.\<close>

definition promptE :: "(mem_error + 'a) option \<Rightarrow> mem_error + 'a" where
  "promptE r = (case r of None \<Rightarrow> Inl NullDeref | Some x \<Rightarrow> x)"

text \<open>\<open>strncpy_s\<close> with a buffer that is too small calls the invalid parameter handler.\<close>

definition copy_output :: "nat \<Rightarrow> string \<Rightarrow> ('s, string) eff" where
  "copy_output outputSize out =
     pureE (if length (c_str out) + 1 \<le> outputSize then Inr (c_str out) else Inl (Ended ''strncpy_s''))"

section \<open>PublishData\<close>

definition PublishData :: "'f amessage \<Rightarrow> ('f, 'w, 'con, 'st, bool) server_eff" where
  "PublishData msg =
     thenE (pureE (arg_address 0 (am_data msg))) (\<lambda>a.
     thenE (fetchE (\<lambda>sv. sv_ehives sv a)) (\<lambda>inputThread.
     thenE (onElem (sendMsg (getMyThreadHandle inputThread) msg)) (\<lambda>_. retE True)))"

section \<open>The commands\<close>

text \<open>The first call starts the cleanup thread and makes the two handles the game reads from.\<close>

definition ext_start :: "('f, 'w, 'con, 'st) platform \<Rightarrow> ('f, 'w, 'con, 'st, unit) server_eff" where
  "ext_start pf =
     thenE getE (\<lambda>sv.
       if getMyThreadHandle (sv_cleanupThread sv) = None
       then thenE (onElem (\<lambda>rg. bindE (addThread (pf_shares pf) (sv_thrdname sv) (Some CleanupThreads) None (sv_cleanupThread sv) rg)
                    (\<lambda>(_, hv, rg). Inr (hv, rg)))) (\<lambda>cleanupThread.
            thenE (updE (\<lambda>sv. sv\<lparr>sv_cleanupThread := cleanupThread, sv_thrdname := ''CLEANUP_O''\<rparr>)) (\<lambda>_.
            thenE (onStr (\<lambda>rg. bindE (addThread (pf_shares pf) ''CLEANUP_O'' None None (sv_threadState sv) rg)
                    (\<lambda>(_, hv, rg). Inr (hv, rg)))) (\<lambda>threadState.
            thenE (updE (\<lambda>sv. sv\<lparr>sv_threadState := threadState\<rparr>)) (\<lambda>_.
            thenE (onStr (\<lambda>rg. bindE (addThread (pf_shares pf) ''DLL_O'' None None (sv_dllState sv) rg)
                    (\<lambda>(_, hv, rg). Inr (hv, rg)))) (\<lambda>dllState.
            thenE (updE (\<lambda>sv. sv\<lparr>sv_dllState := dllState\<rparr>)) (\<lambda>_.
            thenE (onElem (\<lambda>rg. bindE (spawnThread cleanupThread rg) (\<lambda>(_, hv, rg). Inr ((), rg)))) (\<lambda>_.
              retE ())))))))
       else retE ())"

text \<open>\<open>GetState\<close>: the texts waiting, separated by commas, as one array.\<close>

fun append_all :: "string \<Rightarrow> string cells \<Rightarrow> failure + string" where
  "append_all out [] = Inr out"
| "append_all out (None # cells) = Inl (Crashed Uninitialised)"
| "append_all out (Some s # cells) = append_all (out @ '','' @ s) cells"

definition state_text :: "bool \<Rightarrow> string cells \<Rightarrow> failure + string" where
  "state_text ok allOut =
     bindE (if ok
            then (case allOut of
                    [] \<Rightarrow> Inl (Crashed OutOfBounds)
                  | None # _ \<Rightarrow> Inl (Crashed Uninitialised)
                  | Some s # cells \<Rightarrow> append_all (''@['' @ s) cells)
            else Inr ''@['') (\<lambda>out. Inr (out @ '']''))"

definition ext_GetState :: "nat \<Rightarrow> ('f, 'w, 'con, 'st, string) server_eff" where
  "ext_GetState outputSize =
     thenE getE (\<lambda>sv.
     thenE (onStr (\<lambda>rg. bindE (promptE (receiveAll False (sv_threadState sv) rg))
              (\<lambda>(ok, allOut, n, hv, rg). Inr ((ok, allOut, hv), rg)))) (\<lambda>(ok, allOut, hv).
     thenE (updE (\<lambda>sv. sv\<lparr>sv_threadState := hv\<rparr>)) (\<lambda>_.
     thenE (pureE (state_text ok allOut)) (\<lambda>out. copy_output outputSize out))))"

definition ext_GetDllState :: "nat \<Rightarrow> ('f, 'w, 'con, 'st, string) server_eff" where
  "ext_GetDllState outputSize =
     thenE getE (\<lambda>sv.
     thenE (onStr (\<lambda>rg. bindE (promptE (receiveMsg False (sv_dllState sv) rg))
              (\<lambda>(ok, msg, hv, rg). Inr ((msg, hv), rg)))) (\<lambda>(msg, hv).
     thenE (updE (\<lambda>sv. sv\<lparr>sv_dllState := hv\<rparr>)) (\<lambda>_.
       copy_output outputSize (case msg of None \<Rightarrow> ''+0'' | Some out \<Rightarrow> out))))"

text \<open>
  \<open>Connect\<close>: an object and a handle for the output, an object and a thread for the session. The thread
  gets the message and starts.
\<close>

definition handles_text :: "u64 \<Rightarrow> u64 \<Rightarrow> string" where
  "handles_text inputThread outputThread = ''@[*'' @ show_ptr inputThread @ '',*'' @ show_ptr outputThread @ '']''"

definition ext_Connect ::
  "('f, 'w, 'con, 'st) platform \<Rightarrow> 'f amessage \<Rightarrow> nat \<Rightarrow> ('f, 'w, 'con, 'st, string) server_eff" where
  "ext_Connect pf msg outputSize =
     thenE getE (\<lambda>sv. let outputThread = pf_new pf sv in
     thenE (updE (\<lambda>sv. sv\<lparr>sv_shives := (sv_shives sv)(outputThread := Some hive_new)\<rparr>)) (\<lambda>_.
     thenE getE (\<lambda>sv. let inputThread = pf_new pf sv in
     thenE (updE (\<lambda>sv. sv\<lparr>sv_ehives := (sv_ehives sv)(inputThread := Some hive_new)\<rparr>)) (\<lambda>_.
     thenE (pureE (arg_string 0 (am_data msg))) (\<lambda>inputName.
     thenE (onElem (\<lambda>rg. bindE (addThread (pf_shares pf) inputName (Some Mycallback) None hive_new rg)
              (\<lambda>(_, hv, rg). Inr (hv, rg)))) (\<lambda>input.
     thenE (updE (\<lambda>sv. sv\<lparr>sv_ehives := (sv_ehives sv)(inputThread := Some input)\<rparr>)) (\<lambda>_.
     thenE (pureE (arg_string 1 (am_data msg))) (\<lambda>outputName.
     thenE (onStr (\<lambda>rg. bindE (addThread (pf_shares pf) outputName None None hive_new rg)
              (\<lambda>(_, hv, rg). Inr (hv, rg)))) (\<lambda>output.
     thenE (updE (\<lambda>sv. sv\<lparr>sv_shives := (sv_shives sv)(outputThread := Some output)\<rparr>)) (\<lambda>_.
     thenE (onElem (sendMsg (getMyThreadHandle input) msg)) (\<lambda>_.
     thenE (onElem (\<lambda>rg. bindE (spawnThread input rg) (\<lambda>(_, hv, rg). Inr ((), rg)))) (\<lambda>_.
     thenE (updE (\<lambda>sv. sv\<lparr>sv_spawned := sv_spawned sv @ [session_new (pf_act pf) input]\<rparr>)) (\<lambda>_.
       copy_output outputSize (handles_text inputThread outputThread))))))))))))))"

definition ext_GetOutput :: "'f amessage \<Rightarrow> nat \<Rightarrow> ('f, 'w, 'con, 'st, string) server_eff" where
  "ext_GetOutput msg outputSize =
     thenE (pureE (arg_address 0 (am_data msg))) (\<lambda>a.
     thenE (fetchE (\<lambda>sv. sv_shives sv a)) (\<lambda>outputThread.
     thenE (onStr (\<lambda>rg. bindE (promptE (receiveMsg False outputThread rg))
              (\<lambda>(ok, msg, hv, rg). Inr ((msg, hv), rg)))) (\<lambda>(out, hv).
     thenE (updE (\<lambda>sv. sv\<lparr>sv_shives := (sv_shives sv)(a := Some hv)\<rparr>)) (\<lambda>_.
       copy_output outputSize (case out of None \<Rightarrow> [] | Some s \<Rightarrow> s)))))"

text \<open>
  \<open>Commit\<close>: every element of the message becomes a message of its own, which shares the array with it;
  the whole goes to the cleanup thread.
\<close>

fun commit_loop :: "'f adata list \<Rightarrow> ('f, 'w, 'con, 'st, unit) server_eff" where
  "commit_loop [] = retE ()"
| "commit_loop (it # its) =
     thenE (pureE (of_ad (as_array it))) (\<lambda>data.
     thenE (PublishData (am_new\<lparr>am_name := ''Commit'',
              am_data := ad_SetDataProtection True (snd (ad_SetData (VArray data) ad_new))\<rparr>)) (\<lambda>_.
       commit_loop its))"

definition ext_Commit :: "'f amessage \<Rightarrow> ('f, 'w, 'con, 'st, string) server_eff" where
  "ext_Commit msg =
     thenE (pureE (of_ad (as_array (am_data msg)))) (\<lambda>es.
     thenE (commit_loop es) (\<lambda>_.
     thenE getE (\<lambda>sv.
     thenE (onElem (sendMsg (getMyThreadHandle (sv_cleanupThread sv)) msg)) (\<lambda>_. retE []))))"

text \<open>
  The arguments of \<open>IsBanned\<close> are read from left to right here. The language leaves the order open; it
  only matters for which of several failures is the one reported.
\<close>

definition ext_IsBanned :: "'w clib \<Rightarrow> 'f amessage \<Rightarrow> nat \<Rightarrow> ('f, 'w, 'con, 'st, string) server_eff" where
  "ext_IsBanned cl msg outputSize =
     (let timeArg = am_data msg in
      thenE (pureE (arg_signed 0 timeArg)) (\<lambda>year.
      thenE (pureE (arg_signed 1 timeArg)) (\<lambda>mon.
      thenE (pureE (arg_signed 2 timeArg)) (\<lambda>day.
      thenE (pureE (arg_signed 3 timeArg)) (\<lambda>hour.
      thenE (pureE (arg_signed 4 timeArg)) (\<lambda>minute.
      thenE (pureE (arg_signed 5 timeArg)) (\<lambda>sec.
      thenE (pureE (arg_signed 6 timeArg)) (\<lambda>banHours.
      thenE getE (\<lambda>sv.
        copy_output outputSize
          (''-'' @ (if IsBanned cl year mon day hour minute sec banHours (wd_out sv) then ''1'' else ''0'')))))))))))"

definition ext_GMTime :: "'w clib \<Rightarrow> nat \<Rightarrow> ('f, 'w, 'con, 'st, string) server_eff" where
  "ext_GMTime cl outputSize =
     thenE getE (\<lambda>sv. let t = c_gmtime cl (c_time cl (wd_out sv)) in
       copy_output outputSize
         (''@[-'' @ show_int (tm_year t + 1900) @ '',-'' @ show_int (tm_mon t + 1) @ '',-'' @ show_int (tm_mday t) @
          '',-'' @ show_int (tm_hour t) @ '',-'' @ show_int (tm_min t) @ '',-'' @ show_int (tm_sec t) @ '']''))"

section \<open>The entry point\<close>

text \<open>The arguments of the call are a C string and the size of the buffer for the answer.\<close>

definition RVExtension ::
  "('f, 'w, 'con, 'st) platform \<Rightarrow> 'w clib \<Rightarrow> nat \<Rightarrow> string \<Rightarrow> ('f, 'w, 'con, 'st, string) server_eff" where
  "RVExtension pf cl outputSize function =
     thenE (pureE (of_ad (am_of (pf_stof pf) (c_str function)))) (\<lambda>msg.
     thenE (ext_start pf) (\<lambda>_. let name = am_name msg in
       if name = ''GetState'' then ext_GetState outputSize
       else if name = ''GetDllState'' then ext_GetDllState outputSize
       else if name = ''Connect'' then ext_Connect pf msg outputSize
       else if name = ''GetOutput'' then ext_GetOutput msg outputSize
       else if name = ''PublishKills'' \<or> name = ''PublishChickens'' \<or> name = ''PublishAccount''
       then thenE (PublishData msg) (\<lambda>_. retE [])
       else if name = ''Commit'' then ext_Commit msg
       else if name = ''IsBanned'' then ext_IsBanned cl msg outputSize
       else if name = ''GMTime'' then ext_GMTime cl outputSize
       else copy_output outputSize function))"

section \<open>The rest of the library's file\<close>

text \<open>The self test, which nothing calls, and the entry point of the loader, which accepts every reason.\<close>

definition TestDB :: "('w, 'con, 'st, 'rs) sql \<Rightarrow> ('w, bool) eff" where
  "TestDB d =
     thenE (Connect d DBHOST USER PASSWORD DATABASE False) (\<lambda>opflCon.
     thenE (CreateAccount d opflCon ''Thisisatest'') (\<lambda>_.
     thenE (Close d opflCon) (\<lambda>_.
     thenE (DeleteConnection d opflCon) (\<lambda>_. retE True))))"

datatype call_reason = DLL_PROCESS_ATTACH | DLL_THREAD_ATTACH | DLL_THREAD_DETACH | DLL_PROCESS_DETACH

definition DllMain :: "call_reason \<Rightarrow> bool" where
  "DllMain ul_reason_for_call = True"

text \<open>The self test fails only if the connection cannot be made.\<close>

lemma TestDB_outcome:
  "fst (TestDB d w) = Inr True \<or> (\<exists>msg. fst (TestDB d w) = Inl (Thrown (SQLException msg)))"
proof (cases "Connect d DBHOST USER PASSWORD DATABASE False w")
  case (Pair r w1)
  then consider msg where "r = Inl (Thrown (SQLException msg))" | oc con where "r = Inr (Some oc)" "oc_con oc = Some con"
    using Connect_cases [of d DBHOST USER PASSWORD DATABASE False w]
    by (auto simp: sound_con_def split: option.splits)
  then show ?thesis
  proof cases
    case 2
    obtain b w2 where 1: "CreateAccount d (Some oc) ''Thisisatest'' w1 = (Inr b, w2)"
      using raises_nothing_returns [OF updates_raise_nothing(3) [OF 2(2)], of d "''Thisisatest''" w1]
      by (cases "CreateAccount d (Some oc) ''Thisisatest'' w1") auto
    obtain b' w3 where "Close d (Some oc) w2 = (Inr b', w3)"
      using raises_nothing_returns [OF updates_raise_nothing(2) [OF 2(2)], of d w2] by (cases "Close d (Some oc) w2") auto
    with 1 Pair 2 show ?thesis by (simp add: TestDB_def DeleteConnection_def thenE_def)
  qed (simp add: TestDB_def Pair)
qed

end
