(* ===== verification/Cleanup.thy ===== *)
theory Cleanup
  imports Extension
begin

text \<open>
  \<open>CleanupThreads\<close> of \<^verbatim>\<open>OPFL/OPFL.cpp\<close>: the thread that makes the pool and then deletes the two objects
  of every session that committed, once the thread of the session has stopped. Like a session it
  is a machine that runs to its next access to shared state.
\<close>

datatype cpc = CStart | CReady | CReceive | CMessage | CDelete | CDeleteOutput

text \<open>\<open>cu_input\<close>: the messages still to handle; \<open>cu_items\<close>: the sessions left of the first of them.\<close>

record 'f cleanup =
  cu_pc :: cpc
  cu_hive :: "'f amessage hive"
  cu_input :: "'f amessage list"
  cu_items :: "'f adata list"

definition cleanup_new :: "'f amessage hive \<Rightarrow> 'f cleanup" where
  "cleanup_new hv = \<lparr>cu_pc = CStart, cu_hive = hv, cu_input = [], cu_items = []\<rparr>"

type_synonym ('f, 'w, 'con, 'st) cu_outcome = "((failure + 'f cleanup) \<times> ('f, 'w, 'con, 'st) server) option"

definition cu_goto :: "cpc \<Rightarrow> 'f cleanup \<Rightarrow> ('f, 'w, 'con, 'st) server \<Rightarrow> ('f, 'w, 'con, 'st) cu_outcome" where
  "cu_goto p cu sv = Some (Inr (cu\<lparr>cu_pc := p\<rparr>), sv)"

text \<open>The pool of fifty connections; a failure to make one ends the process.\<close>

definition cleanup_start ::
  "('w, 'con, 'st, 'rs) sql \<Rightarrow> 'f cleanup \<Rightarrow> ('f, 'w, 'con, 'st) server \<Rightarrow> ('f, 'w, 'con, 'st) cu_outcome" where
  "cleanup_start d cu sv =
     (case pool_new 50 (factory_create d mysql_connection_factory) (wd_conns sv, wd_out sv) of
        (Inl e, mem, w) \<Rightarrow> Some (Inl e, sv\<lparr>wd_conns := mem, wd_out := w\<rparr>)
      | (Inr p, mem, w) \<Rightarrow> cu_goto CReady cu (sv\<lparr>wd_conns := mem, wd_out := w, wd_pool := Some p\<rparr>))"

definition cleanup_ready :: "'f cleanup \<Rightarrow> ('f, 'w, 'con, 'st) server \<Rightarrow> ('f, 'w, 'con, 'st) cu_outcome" where
  "cleanup_ready cu sv =
     (case getThreadHandle ''DLL_O'' (wd_str sv) of
        None \<Rightarrow> None
      | Some (Inl e) \<Rightarrow> Some (Inl (Crashed e), sv)
      | Some (Inr th) \<Rightarrow>
          (case sendMsg th ''+1'' (wd_str sv) of
             Inl e \<Rightarrow> Some (Inl (Crashed e), sv)
           | Inr (ok, rg) \<Rightarrow> cu_goto CReceive cu (sv\<lparr>wd_str := rg\<rparr>)))"

definition cleanup_receive :: "'f cleanup \<Rightarrow> ('f, 'w, 'con, 'st) server \<Rightarrow> ('f, 'w, 'con, 'st) cu_outcome" where
  "cleanup_receive cu sv =
     (case receiveAll True (cu_hive cu) (wd_elem sv) of
        None \<Rightarrow> None
      | Some (Inl e) \<Rightarrow> Some (Inl (Crashed e), sv)
      | Some (Inr (ok, input, n, hv, rg)) \<Rightarrow>
          if None \<in> set input then Some (Inl (Crashed Uninitialised), sv\<lparr>wd_elem := rg\<rparr>)
          else cu_goto CMessage (cu\<lparr>cu_hive := hv, cu_input := map the input\<rparr>) (sv\<lparr>wd_elem := rg\<rparr>))"

definition cleanup_message :: "'f cleanup \<Rightarrow> ('f, 'w, 'con, 'st) server \<Rightarrow> ('f, 'w, 'con, 'st) cu_outcome" where
  "cleanup_message cu sv =
     (case cu_input cu of
        [] \<Rightarrow> cu_goto CReceive cu sv
      | m # _ \<Rightarrow>
          (case of_ad (as_array (am_data m)) of
             Inl e \<Rightarrow> Some (Inl e, sv)
           | Inr es \<Rightarrow> cu_goto CDelete (cu\<lparr>cu_items := es\<rparr>) sv))"

text \<open>While the thread of the session runs, the cleanup thread sleeps.\<close>

definition cleanup_delete :: "'f cleanup \<Rightarrow> ('f, 'w, 'con, 'st) server \<Rightarrow> ('f, 'w, 'con, 'st) cu_outcome" where
  "cleanup_delete cu sv =
     (case cu_items cu of
        [] \<Rightarrow> cu_goto CMessage (cu\<lparr>cu_input := tl (cu_input cu)\<rparr>) sv
      | j # _ \<Rightarrow>
          (case arg_address 0 j of
             Inl e \<Rightarrow> Some (Inl e, sv)
           | Inr a \<Rightarrow>
               (case sv_ehives sv a of
                  None \<Rightarrow> Some (Inl (Crashed DanglingDeref), sv)
                | Some inputThread \<Rightarrow>
                    (case isRunning (getMyThreadHandle inputThread) (wd_elem sv) of
                       Inl e \<Rightarrow> Some (Inl (Crashed e), sv)
                     | Inr True \<Rightarrow> None
                     | Inr False \<Rightarrow>
                         (case hive_destroy inputThread (wd_elem sv) of
                            None \<Rightarrow> None
                          | Some (Inl e) \<Rightarrow> Some (Inl (Crashed e), sv)
                          | Some (Inr (hv, rg)) \<Rightarrow>
                              cu_goto CDeleteOutput cu (sv\<lparr>wd_elem := rg, sv_ehives := (sv_ehives sv)(a := None)\<rparr>))))))"

definition cleanup_delete_output :: "'f cleanup \<Rightarrow> ('f, 'w, 'con, 'st) server \<Rightarrow> ('f, 'w, 'con, 'st) cu_outcome" where
  "cleanup_delete_output cu sv =
     (case cu_items cu of
        [] \<Rightarrow> None
      | j # items \<Rightarrow>
          (case arg_address 1 j of
             Inl e \<Rightarrow> Some (Inl e, sv)
           | Inr a \<Rightarrow>
               (case sv_shives sv a of
                  None \<Rightarrow> Some (Inl (Crashed DanglingDeref), sv)
                | Some outputThread \<Rightarrow>
                    (case hive_destroy outputThread (wd_str sv) of
                       None \<Rightarrow> None
                     | Some (Inl e) \<Rightarrow> Some (Inl (Crashed e), sv)
                     | Some (Inr (hv, rg)) \<Rightarrow>
                         cu_goto CDelete (cu\<lparr>cu_items := items\<rparr>)
                           (sv\<lparr>wd_str := rg, sv_shives := (sv_shives sv)(a := None)\<rparr>)))))"

definition cleanup_step ::
  "('w, 'con, 'st, 'rs) sql \<Rightarrow> 'f cleanup \<Rightarrow> ('f, 'w, 'con, 'st) server \<Rightarrow> ('f, 'w, 'con, 'st) cu_outcome" where
  "cleanup_step d cu sv =
     (case cu_pc cu of
        CStart \<Rightarrow> cleanup_start d cu sv
      | CReady \<Rightarrow> cleanup_ready cu sv
      | CReceive \<Rightarrow> cleanup_receive cu sv
      | CMessage \<Rightarrow> cleanup_message cu sv
      | CDelete \<Rightarrow> cleanup_delete cu sv
      | CDeleteOutput \<Rightarrow> cleanup_delete_output cu sv)"

end
