(* ===== verification/Hive_Registry.thy ===== *)
theory Hive_Registry
  imports Thread_Hive
begin

text \<open>
  The registry of \<open>ThreadHive\<close> as a list of named handles. \<open>rg_rep as rg\<close> says that the registry is
  the null-terminated list of the handles at the addresses \<open>as\<close>, that they are all the handles on
  the heap, and that \<open>tail\<close> and \<open>threadCount\<close> agree with it. Registration appends to the list, the
  destructor of the last owner takes a handle out of it, and the search by name finds the first.
\<close>

definition rg_addrs :: "('m, 'c) registry \<Rightarrow> addr list" where
  "rg_addrs rg = walk (length (rg_mem rg)) th_next (rg_mem rg) (rg_head rg)"

text \<open>A handle without its place in the list.\<close>

definition rg_handle :: "('m, 'c) registry \<Rightarrow> addr \<Rightarrow> ('m, 'c) thandle" where
  "rg_handle rg a = (payload (rg_mem rg) a)\<lparr>th_next := None\<rparr>"

definition rg_rep :: "addr list \<Rightarrow> ('m, 'c) registry \<Rightarrow> bool" where
  "rg_rep as rg \<longleftrightarrow> lseg th_next (rg_mem rg) (rg_head rg) as None \<and> distinct as \<and>
     rg_threadCount rg = int (length as) \<and> live (rg_mem rg) = length as \<and>
     rg_tail rg = (if as = [] then None else Some (last as))"

definition rg_wf :: "('m, 'c) registry \<Rightarrow> bool" where
  "rg_wf rg \<longleftrightarrow> rg_rep (rg_addrs rg) rg"

interpretation th: linked th_next "\<lambda>p n. n\<lparr>th_next := p\<rparr>" "\<lambda>n. n\<lparr>th_next := None\<rparr>"
  by unfold_locales simp_all

lemma rg_rep_addrs: "rg_rep as rg \<Longrightarrow> rg_addrs rg = as"
  using walk_lseg lseg_length unfolding rg_rep_def rg_addrs_def by blast

lemma rg_rep_wf: "rg_rep as rg \<Longrightarrow> rg_wf rg \<and> rg_addrs rg = as"
  by (simp add: rg_wf_def rg_rep_addrs)

lemma rg_wf_rep: "rg_wf rg \<Longrightarrow> rg_rep (rg_addrs rg) rg"
  by (simp add: rg_wf_def)

lemma registry_new_rep: "rg_rep [] registry_new"
  by (simp add: rg_rep_def registry_new_def)

lemma rg_rep_live: "rg_rep as rg \<Longrightarrow> a \<in> set as \<Longrightarrow> \<exists>n. node_at (rg_mem rg) a = Some n"
  unfolding rg_rep_def using lseg_live by fastforce

lemma live_count: "live m = card {a. \<exists>n. node_at m a = Some n}"
proof (induction m rule: rev_induct)
  case (snoc c m)
  let ?S = "{a. \<exists>n. node_at m a = Some n}"
  have fin: "finite ?S" by (rule finite_subset [of _ "{..<length m}"]) (auto dest: node_at_less)
  have "{a. \<exists>n. node_at (m @ [c]) a = Some n} = (if c = None then ?S else insert (length m) ?S)"
    by (auto split: if_splits)
  moreover have "length m \<notin> ?S" by simp
  ultimately show ?case using snoc fin by (cases c) simp_all
qed (simp add: node_at_def)

lemma rg_rep_all_live:
  assumes "rg_rep as rg" and "node_at (rg_mem rg) a = Some n"
  shows "a \<in> set as"
proof -
  let ?S = "{a. \<exists>n. node_at (rg_mem rg) a = Some n}"
  have "finite ?S" by (rule finite_subset [of _ "{..<length (rg_mem rg)}"]) (auto dest: node_at_less)
  moreover have "set as \<subseteq> ?S" using rg_rep_live [OF assms(1)] by blast
  moreover have "card (set as) = card ?S"
    using assms(1) by (simp add: rg_rep_def distinct_card live_count)
  ultimately have "set as = ?S" by (simp add: card_subset_eq)
  with assms(2) show ?thesis by blast
qed

lemma rg_rep_assign:
  assumes "rg_rep as rg" and "node_at (rg_mem rg) a = Some n" and "th_next n' = th_next n"
  shows "rg_rep as (rg\<lparr>rg_mem := (rg_mem rg)[a := Some n']\<rparr>)"
  using assms by (simp add: rg_rep_def lseg_same_next live_assign)

section \<open>Registration\<close>

lemma hive_push_rep:
  assumes rep: "rg_rep as rg"
  shows "\<exists>rg'. hive_push junk name rg = Inr (Some (length (rg_mem rg)), rg') \<and>
    rg_rep (as @ [length (rg_mem rg)]) rg' \<and>
    rg_handle rg' (length (rg_mem rg)) = mkThreadHandle junk name \<and>
    (\<forall>a\<in>set as. rg_handle rg' a = rg_handle rg a)"
proof -
  let ?b = "length (rg_mem rg)" and ?n = "mkThreadHandle junk name :: ('a, 'b) thandle"
  let ?mem = "rg_mem rg @ [Some ?n]"
  from rep have seg: "lseg th_next ?mem (rg_head rg) as None" and fresh: "?b \<notin> set as" and d: "distinct as"
    by (auto simp: rg_rep_def dest: lseg_fresh)
  have null: "th_next ?n = None" by (simp add: mkThreadHandle_def)
  show ?thesis
  proof (cases as rule: rev_cases)
    case Nil
    let ?rg = "rg\<lparr>rg_mem := ?mem, rg_tail := Some ?b, rg_head := Some ?b, rg_threadCount := rg_threadCount rg + 1\<rparr>"
    have "hive_push junk name rg = Inr (Some ?b, ?rg)"
      using rep Nil by (simp add: hive_push_def alloc_def rg_rep_def Let_def)
    then show ?thesis
      using Nil rep by (auto simp: rg_rep_def rg_handle_def payload_def mkThreadHandle_def)
  next
    case (snoc bs t)
    obtain nt where nt: "node_at ?mem t = Some nt"
      "lseg th_next (?mem[t := Some (nt\<lparr>th_next := Some ?b\<rparr>)]) (rg_head rg) (bs @ [t, ?b]) None"
      using th.link_last [of ?mem "rg_head rg" bs t ?b ?n] seg d fresh snoc null by auto
    let ?rg = "rg\<lparr>rg_mem := ?mem[t := Some (nt\<lparr>th_next := Some ?b\<rparr>)], rg_tail := Some ?b,
        rg_threadCount := rg_threadCount rg + 1\<rparr>"
    have "hive_push junk name rg = Inr (Some ?b, ?rg)"
      using nt(1) rep snoc by (auto simp: hive_push_def alloc_def rg_rep_def Let_def)
    moreover have "rg_handle ?rg ?b = ?n" "\<forall>a\<in>set as. rg_handle ?rg a = rg_handle rg a"
      using th.core_assign [OF nt(1), of "Some ?b"] fresh
      by (auto simp: rg_handle_def payload_def mkThreadHandle_def)
    ultimately show ?thesis
      using nt(2) rep snoc fresh live_assign [OF nt(1)] by (auto simp: rg_rep_def)
  qed
qed

lemma addThread_rep:
  assumes rep: "rg_rep as rg" and "hv_myThreadHandle hv = None"
  shows "\<exists>b rg'. addThread junk name cb ps hv rg = Inr (True, hv\<lparr>hv_myThreadHandle := Some b\<rparr>, rg') \<and>
    b \<notin> set as \<and> rg_rep (as @ [b]) rg' \<and>
    rg_handle rg' b = (mkThreadHandle junk name)\<lparr>th_callBack := cb, th_parameters := ps,
                        th_msgQueue := Some hqc_new, th_shares := junk + 1\<rparr> \<and>
    (\<forall>a\<in>set as. rg_handle rg' a = rg_handle rg a)"
proof -
  let ?b = "length (rg_mem rg)"
  obtain rg1 where rg1: "hive_push junk name rg = Inr (Some ?b, rg1)" "rg_rep (as @ [?b]) rg1"
    "rg_handle rg1 ?b = mkThreadHandle junk name" "\<forall>a\<in>set as. rg_handle rg1 a = rg_handle rg a"
    using hive_push_rep [OF rep, of junk name] by blast
  obtain n where n: "node_at (rg_mem rg1) ?b = Some n" using rg_rep_live [OF rg1(2)] by fastforce
  let ?n = "n\<lparr>th_callBack := cb, th_parameters := ps, th_msgQueue := Some hqc_new, th_shares := th_shares n + 1\<rparr>"
  let ?rg = "rg1\<lparr>rg_mem := (rg_mem rg1)[?b := Some ?n]\<rparr>"
  have fresh: "?b \<notin> set as" using rep by (auto simp: rg_rep_def dest: lseg_fresh)
  have "n\<lparr>th_next := None\<rparr> = mkThreadHandle junk name" using rg1(3) n by (simp add: rg_handle_def payload_def)
  then have "th_shares n = junk" "?n\<lparr>th_next := None\<rparr> = (mkThreadHandle junk name)\<lparr>th_callBack := cb,
      th_parameters := ps, th_msgQueue := Some hqc_new, th_shares := th_shares n + 1\<rparr>"
    by (cases n; simp add: mkThreadHandle_def)+
  moreover have "rg_rep (as @ [?b]) ?rg" using rg_rep_assign [OF rg1(2) n] by simp
  moreover have "\<forall>a\<in>set as. rg_handle ?rg a = rg_handle rg a" using rg1(4) fresh by (auto simp: rg_handle_def)
  ultimately show ?thesis
    using rg1(1) assms(2) n fresh node_at_less [OF n] by (auto simp: addThread_def rg_handle_def)
qed

section \<open>Search by name\<close>

lemma get_loop_found: "get_loop name (Some a) (Some a) mem = Some (Inr (Some a))"
  by (subst get_loop.simps) simp

lemma get_loop_eq:
  "lseg th_next mem p as None \<Longrightarrow>
   get_loop name None p mem = Some (Inr (find (\<lambda>a. th_threadName (payload mem a) = name) as))"
proof (induction as arbitrary: p)
  case Nil
  then show ?case by (subst get_loop.simps) simp
next
  case (Cons a as)
  then obtain n where n: "p = Some a" "node_at mem a = Some n" "lseg th_next mem (th_next n) as None"
    by (auto split: option.splits)
  show ?case
    by (subst get_loop.simps) (use n Cons.IH [OF n(3)] get_loop_found in \<open>auto simp: payload_def\<close>)
qed

lemma getThreadHandle_eq:
  assumes "rg_rep as rg"
  shows "getThreadHandle name rg = Some (Inr (find (\<lambda>a. th_threadName (rg_handle rg a) = name) as))"
proof (cases "rg_head rg = None")
  case True
  with assms have "as = []" by (cases as) (auto simp: rg_rep_def)
  with True show ?thesis by (simp add: getThreadHandle_def)
next
  case False
  with assms get_loop_eq [of "rg_mem rg" "rg_head rg" as name] show ?thesis
    by (auto simp: getThreadHandle_def rg_rep_def rg_handle_def)
qed

section \<open>Release\<close>

lemma unlink_loop_eq:
  "lseg th_next mem (Some t) (us @ u # v # ws) None \<Longrightarrow> distinct (us @ u # v # ws) \<Longrightarrow> node_at mem t = Some n \<Longrightarrow>
   unlink_loop (Some v) (Some t) (th_next n) mem = Some (Inr (Some u, Some v))"
proof (induction us arbitrary: t n)
  case Nil
  then show ?case by (subst unlink_loop.simps) (auto split: option.splits)
next
  case (Cons t' us)
  then have t: "t' = t" "lseg th_next mem (th_next n) (us @ u # v # ws) None" by auto
  obtain w nw where w: "th_next n = Some w" "node_at mem w = Some nw" "w \<in> set (us @ [u])"
    using t(2) by (cases us) (auto split: option.splits)
  then have "w \<noteq> v" using Cons.prems(2) by auto
  with Cons.IH [of w nw] Cons.prems w t show ?case
    by (subst unlink_loop.simps) simp
qed

lemma unlink_head_eq:
  assumes rep: "rg_rep (v # ws) rg"
  shows "\<exists>nv. node_at (rg_mem rg) v = Some nv \<and>
    hive_unlink_head rg = Inr (Some v, rg\<lparr>rg_head := th_next nv, rg_mem := (rg_mem rg)[v := Some (nv\<lparr>th_next := None\<rparr>)]\<rparr>) \<and>
    lseg th_next (rg_mem rg) (th_next nv) ws None"
  using rep by (auto simp: rg_rep_def hive_unlink_head_def split: option.splits)

lemma unlink_inner_eq:
  assumes rep: "rg_rep (us @ u # v # ws) rg"
  shows "\<exists>nu nv. node_at (rg_mem rg) u = Some nu \<and> node_at (rg_mem rg) v = Some nv \<and>
    hive_unlink_inner (Some v) rg = Some (Inr (Some v,
      rg\<lparr>rg_tail := (if ws = [] then Some u else rg_tail rg),
         rg_mem := (rg_mem rg)[u := Some (nu\<lparr>th_next := th_next nv\<rparr>), v := Some (nv\<lparr>th_next := None\<rparr>)]\<rparr>)) \<and>
    lseg th_next ((rg_mem rg)[u := Some (nu\<lparr>th_next := th_next nv\<rparr>)]) (rg_head rg) (us @ u # ws) None"
proof -
  have seg: "lseg th_next (rg_mem rg) (rg_head rg) (us @ u # v # ws) None" and d: "distinct (us @ u # v # ws)"
    and tail: "rg_tail rg = Some (last (u # v # ws))"
    using rep by (simp_all add: rg_rep_def)
  obtain nu nv where n: "node_at (rg_mem rg) u = Some nu" "node_at (rg_mem rg) v = Some nv" "th_next nu = Some v"
    "lseg th_next ((rg_mem rg)[u := Some (nu\<lparr>th_next := th_next nv\<rparr>)]) (rg_head rg) (us @ u # ws) None"
    using th.unlink [OF seg d] by blast
  obtain t nt where t: "rg_head rg = Some t" "node_at (rg_mem rg) t = Some nt"
    using seg by (cases us) (auto split: option.splits)
  have loop: "unlink_loop (Some v) (rg_head rg) (th_next nt) (rg_mem rg) = Some (Inr (Some u, Some v))"
    using unlink_loop_eq [of "rg_mem rg" t us u v ws nt] seg d t by simp
  have "rg_tail rg = Some v \<longleftrightarrow> ws = []" using tail d by (cases ws rule: rev_cases) auto
  with n t loop d node_at_less [OF n(1)] node_at_less [OF n(2)] show ?thesis
    by (auto simp: hive_unlink_inner_def Let_def)
qed

lemma hive_destroy_last:
  assumes rep: "rg_rep (us @ v # ws) rg" and my: "hv_myThreadHandle hv = Some v"
    and shares: "th_shares (rg_handle rg v) = 1"
  shows "\<exists>rg'. hive_destroy hv rg = Some (Inr (hv\<lparr>hv_myThreadHandle := None\<rparr>, rg')) \<and>
    rg_rep (us @ ws) rg' \<and> (\<forall>a\<in>set (us @ ws). rg_handle rg' a = rg_handle rg a)"
proof -
  obtain n where n: "node_at (rg_mem rg) v = Some n" using rg_rep_live [OF rep] by fastforce
  then have n1: "th_shares n = 1" using shares by (simp add: rg_handle_def payload_def)
  let ?n = "n\<lparr>th_shares := 0\<rparr>"
  define rg1 where "rg1 = rg\<lparr>rg_mem := (rg_mem rg)[v := Some ?n]\<rparr>"
  have rep1: "rg_rep (us @ v # ws) rg1" unfolding rg1_def using rg_rep_assign [OF rep n] by simp
  have at1: "node_at (rg_mem rg1) v = Some ?n" using node_at_less [OF n] by (simp add: rg1_def)
  have handles1: "rg_handle rg1 a = rg_handle rg a" if "a \<noteq> v" for a
    using that by (simp add: rg1_def rg_handle_def)
  have d: "distinct (us @ v # ws)" and live1: "live (rg_mem rg1) = Suc (length us + length ws)"
    and count1: "rg_threadCount rg1 = 1 + int (length us + length ws)"
    and tail1: "rg_tail rg1 = Some (last (v # ws))"
    using rep1 by (simp_all add: rg_rep_def)
  have destroy: "hive_destroy hv rg = map_option (\<lambda>r. bindE r (hive_release hv))
      (if rg_head rg1 = Some v then Some (hive_unlink_head rg1) else hive_unlink_inner (Some v) rg1)"
    using my n n1 node_at_less [OF n] by (simp add: hive_destroy_def rg1_def Let_def)
  show ?thesis
  proof (cases us rule: rev_cases)
    case Nil
    then obtain nv where nv: "node_at (rg_mem rg1) v = Some nv"
      "hive_unlink_head rg1 = Inr (Some v, rg1\<lparr>rg_head := th_next nv, rg_mem := (rg_mem rg1)[v := Some (nv\<lparr>th_next := None\<rparr>)]\<rparr>)"
      "lseg th_next (rg_mem rg1) (th_next nv) ws None" using unlink_head_eq [of v ws rg1] rep1 by auto
    have "rg_head rg1 = Some v" using rep1 Nil by (simp add: rg_rep_def)
    moreover have "th_next nv = None \<longleftrightarrow> ws = []" using nv(3) by (cases ws) auto
    ultimately show ?thesis
      using Nil nv d live1 count1 tail1 handles1 node_at_less [OF nv(1)] live_delete [OF nv(1)]
      by (auto simp: destroy hive_release_def rg_rep_def rg_handle_def)
  next
    case (snoc us' u)
    then obtain nu nv where nv: "node_at (rg_mem rg1) u = Some nu" "node_at (rg_mem rg1) v = Some nv"
      "hive_unlink_inner (Some v) rg1 = Some (Inr (Some v,
        rg1\<lparr>rg_tail := (if ws = [] then Some u else rg_tail rg1),
           rg_mem := (rg_mem rg1)[u := Some (nu\<lparr>th_next := th_next nv\<rparr>), v := Some (nv\<lparr>th_next := None\<rparr>)]\<rparr>))"
      "lseg th_next ((rg_mem rg1)[u := Some (nu\<lparr>th_next := th_next nv\<rparr>)]) (rg_head rg1) (us' @ u # ws) None"
      using unlink_inner_eq [of us' u v ws rg1] rep1 by auto
    have head: "rg_head rg1 \<noteq> Some v" "rg_head rg1 \<noteq> None"
      using rep1 snoc d by (cases us'; auto simp: rg_rep_def)+
    let ?mem = "(rg_mem rg1)[u := Some (nu\<lparr>th_next := th_next nv\<rparr>)]"
    have "u \<noteq> v" using d snoc by auto
    then have "node_at ?mem v = Some nv" using nv(2) by simp
    then have "Suc (live (?mem[v := None])) = live (rg_mem rg1)"
      using live_delete live_assign [OF nv(1)] by metis
    moreover have "lseg th_next (?mem[v := None]) (rg_head rg1) (us' @ u # ws) None"
      using nv(4) d snoc by simp
    moreover define rg' where "rg' = rg1\<lparr>rg_tail := (if ws = [] then Some u else rg_tail rg1),
      rg_threadCount := rg_threadCount rg1 - 1, rg_mem := ?mem[v := None]\<rparr>"
    moreover have "rg_tail rg' = Some (last (u # ws))" using tail1 by (simp add: rg'_def)
    moreover have "distinct (us @ ws)" using d by simp
    ultimately have "rg_rep (us @ ws) rg'"
      using snoc live1 count1 by (simp add: rg_rep_def)
    moreover have "rg_handle rg' a = rg_handle rg a" if "a \<noteq> v" for a
    proof -
      have "rg_handle rg' a = rg_handle (rg1\<lparr>rg_mem := ?mem\<rparr>) a"
        using that by (simp add: rg'_def rg_handle_def)
      also have "\<dots> = rg_handle rg1 a"
        using th.core_assign [OF nv(1), of "th_next nv" a] by (simp add: rg_handle_def)
      finally show ?thesis using handles1 [OF that] by simp
    qed
    moreover have "hive_destroy hv rg = Some (Inr (hv\<lparr>hv_myThreadHandle := None\<rparr>, rg'))"
      using head \<open>u \<noteq> v\<close> nv(2) node_at_less [OF nv(2)]
      by (auto simp: destroy nv(3) hive_release_def Let_def rg'_def)
    moreover have "a \<noteq> v" if "a \<in> set (us @ ws)" for a using that d by auto
    ultimately show ?thesis by blast
  qed
qed

lemma hive_destroy_shared:
  assumes rep: "rg_rep as rg" and my: "hv_myThreadHandle hv = Some v" and v: "v \<in> set as"
    and shares: "th_shares (rg_handle rg v) \<noteq> 1"
  shows "\<exists>rg'. hive_destroy hv rg = Some (Inr (hv, rg')) \<and> rg_rep as rg' \<and>
    rg_handle rg' v = (rg_handle rg v)\<lparr>th_shares := th_shares (rg_handle rg v) - 1\<rparr> \<and>
    (\<forall>a. a \<noteq> v \<longrightarrow> rg_handle rg' a = rg_handle rg a)"
proof -
  obtain n where n: "node_at (rg_mem rg) v = Some n" using rg_rep_live [OF rep v] by blast
  then have "th_shares n - 1 \<noteq> 0" using shares by (simp add: rg_handle_def payload_def)
  then have "\<not> th_shares n - 1 < 1" by (simp add: u32_less_iff unat_eq_zero)
  with rg_rep_assign [OF rep n] n my node_at_less [OF n] show ?thesis
    by (auto simp: hive_destroy_def Let_def rg_handle_def payload_def)
qed

section \<open>Mailboxes\<close>

text \<open>
  Message passing does not touch the list: it changes the queue of one handle. \<open>mailbox rg a\<close> is
  the messages waiting there, \<open>has_mailbox\<close> that the handle is registered with a sound queue.
\<close>

definition mailbox :: "('m, 'c) registry \<Rightarrow> addr \<Rightarrow> 'm list" where
  "mailbox rg a = (case th_msgQueue (rg_handle rg a) of None \<Rightarrow> [] | Some q \<Rightarrow> hqc_contents q)"

definition has_mailbox :: "addr \<Rightarrow> ('m, 'c) registry \<Rightarrow> bool" where
  "has_mailbox a rg \<longleftrightarrow> (\<exists>n q. node_at (rg_mem rg) a = Some n \<and> th_msgQueue n = Some q \<and> hqc_wf q)"

text \<open>Only the queue of \<open>a\<close> differs.\<close>

definition same_but :: "addr \<Rightarrow> ('m, 'c) registry \<Rightarrow> ('m, 'c) registry \<Rightarrow> bool" where
  "same_but a rg rg' \<longleftrightarrow>
     (\<exists>q. rg' = rg\<lparr>rg_mem := (rg_mem rg)[a := map_option (\<lambda>n. n\<lparr>th_msgQueue := q\<rparr>) (node_at (rg_mem rg) a)]\<rparr>)"

lemma same_but_refl:
  assumes "node_at (rg_mem rg) a = Some n"
  shows "same_but a rg rg"
proof -
  have "(rg_mem rg)[a := Some n] = rg_mem rg"
    using assms by (metis node_at_def option.distinct(1) list_update_id)
  then show ?thesis
    using assms unfolding same_but_def by (intro exI [of _ "th_msgQueue n"]) simp
qed

lemma same_but_trans: "same_but a rg rg' \<Longrightarrow> same_but a rg' rg'' \<Longrightarrow> same_but a rg rg''"
  by (cases "node_at (rg_mem rg) a") (auto simp: same_but_def dest: node_at_less)

lemma same_but_frame:
  assumes "same_but a rg rg'" and "node_at (rg_mem rg) a = Some n"
  shows "rg_rep as rg' = rg_rep as rg" and "b \<noteq> a \<Longrightarrow> rg_handle rg' b = rg_handle rg b"
    and "b \<noteq> a \<Longrightarrow> mailbox rg' b = mailbox rg b"
    and "(rg_handle rg' a)\<lparr>th_msgQueue := None\<rparr> = (rg_handle rg a)\<lparr>th_msgQueue := None\<rparr>"
  using assms node_at_less [OF assms(2)]
  by (auto simp: same_but_def rg_rep_def lseg_same_next live_assign rg_handle_def mailbox_def payload_def)

lemma has_mailboxE:
  assumes "has_mailbox a rg"
  obtains n q where "node_at (rg_mem rg) a = Some n" "th_msgQueue n = Some q" "hqc_wf q"
    "mailbox rg a = hqc_contents q" "queue_of (Some a) rg = Inr q"
  using assms by (auto simp: has_mailbox_def mailbox_def rg_handle_def payload_def queue_of_def)

lemma set_queue_eq:
  assumes "node_at (rg_mem rg) a = Some n" and "hqc_wf q'"
  shows "\<exists>rg'. set_queue (Some a) q' rg = Inr rg' \<and> has_mailbox a rg' \<and> mailbox rg' a = hqc_contents q' \<and>
    same_but a rg rg'"
  using assms node_at_less [OF assms(1)]
  by (auto simp: set_queue_def has_mailbox_def mailbox_def rg_handle_def payload_def same_but_def)

lemma sendMsg_eq:
  assumes "has_mailbox a rg" and "length (mailbox rg a) < hqc_cap"
  shows "\<exists>rg'. sendMsg (Some a) msg rg = Inr (True, rg') \<and> has_mailbox a rg' \<and>
    mailbox rg' a = mailbox rg a @ [msg] \<and> same_but a rg rg'"
proof -
  obtain n q where q: "node_at (rg_mem rg) a = Some n" "hqc_wf q" "mailbox rg a = hqc_contents q"
    "queue_of (Some a) rg = Inr q" using assms(1) by (rule has_mailboxE)
  obtain q' where q': "hqc_push msg q = Inr (True, q')" "hqc_wf q'" "hqc_contents q' = hqc_contents q @ [msg]"
    using hqc.push_ok [OF q(2), of msg] assms(2) q(3) by auto
  with set_queue_eq [OF q(1) q'(2)] q show ?thesis by (auto simp: sendMsg_def)
qed

lemma sendMsg_returns:
  assumes "has_mailbox a rg"
  shows "\<exists>ok rg'. sendMsg (Some a) msg rg = Inr (ok, rg')"
proof -
  obtain n q where q: "node_at (rg_mem rg) a = Some n" "hqc_wf q" "queue_of (Some a) rg = Inr q"
    using assms by (rule has_mailboxE)
  obtain ok q' where "hqc_push msg q = Inr (ok, q')"
    using hqc.push_ok [OF q(2), of msg] hqc.push_full [OF q(2), of msg] hqc.contents_le [OF q(2)]
    by (cases "length (hqc_contents q) < hqc_cap") auto
  with q show ?thesis by (simp add: sendMsg_def set_queue_def)
qed

lemma send_loop_eq:
  assumes "has_mailbox a rg" and "length (mailbox rg a) + length msgs \<le> hqc_cap"
  shows "\<exists>rg'. send_loop (Some a) msgs b rg = Inr (msgs \<noteq> [] \<or> b, rg') \<and> has_mailbox a rg' \<and>
    mailbox rg' a = mailbox rg a @ msgs \<and> same_but a rg rg'"
  using assms
proof (induction msgs arbitrary: b rg)
  case Nil
  then show ?case using same_but_refl by (auto elim!: has_mailboxE)
next
  case (Cons msg msgs)
  obtain rg1 where rg1: "sendMsg (Some a) msg rg = Inr (True, rg1)" "has_mailbox a rg1"
    "mailbox rg1 a = mailbox rg a @ [msg]" "same_but a rg rg1"
    using sendMsg_eq [OF Cons.prems(1), of msg] Cons.prems(2) by auto
  obtain rg2 where rg2: "send_loop (Some a) msgs True rg1 = Inr (True, rg2)" "has_mailbox a rg2"
    "mailbox rg2 a = mailbox rg1 a @ msgs" "same_but a rg1 rg2"
    using Cons.IH [OF rg1(2), of True] Cons.prems(2) rg1(3) by auto
  have "send_loop (Some a) (msg # msgs) b rg = bindE (sendMsg (Some a) msg rg) (\<lambda>(r, rg). send_loop (Some a) msgs r rg)"
    by (simp add: sendMsg_def bindE_assoc split_def)
  with rg1 rg2 same_but_trans [OF rg1(4) rg2(4)] show ?case by auto
qed

lemma loadMsg_Nil:
  assumes "has_mailbox a rg" and "hv_myThreadHandle hv = Some a" and "mailbox rg a = []"
  shows "loadMsg hv rg = Inr (False, hv, rg)"
proof -
  obtain n q where q: "hqc_wf q" "mailbox rg a = hqc_contents q" "queue_of (Some a) rg = Inr q"
    using assms(1) by (rule has_mailboxE)
  with assms hqc.sz_eq [OF q(1)] show ?thesis by (simp add: loadMsg_def)
qed

lemma loadMsg_Cons:
  assumes "has_mailbox a rg" and "hv_myThreadHandle hv = Some a" and "mailbox rg a = msg # msgs"
  shows "\<exists>rg'. loadMsg hv rg = Inr (True, hv\<lparr>hv_currentMsg := Some msg\<rparr>, rg') \<and> has_mailbox a rg' \<and>
    mailbox rg' a = msgs \<and> same_but a rg rg'"
proof -
  obtain n q where q: "node_at (rg_mem rg) a = Some n" "hqc_wf q" "mailbox rg a = hqc_contents q"
    "queue_of (Some a) rg = Inr q" using assms(1) by (rule has_mailboxE)
  obtain q' where q': "hqc_pop q = Inr (Some msg, q')" "hqc_wf q'" "hqc_contents q' = msgs"
    using hqc.pop_cons [OF q(2), of msg msgs] assms(3) q(3) by auto
  have "0 < hqc_size q"
    using hqc_pop_count [OF q'(1)] by (simp add: hqc_size_def u32_less_iff)
  with set_queue_eq [OF q(1) q'(2)] q q' assms(2) show ?thesis by (auto simp: loadMsg_def)
qed

lemma drain_loop_eq:
  assumes "has_mailbox a rg" and "hv_myThreadHandle hv = Some a"
    and "unat i + length (mailbox rg a) = length cells" and "length cells < 4294967296"
  shows "\<exists>hv' rg'. drain_loop i cells hv rg = Inr (take (unat i) cells @ map Some (mailbox rg a), hv', rg') \<and>
    hv_myThreadHandle hv' = Some a \<and> has_mailbox a rg' \<and> mailbox rg' a = [] \<and> same_but a rg rg'"
  using assms
proof (induction "mailbox rg a" arbitrary: i cells hv rg)
  case Nil
  then have "drain_loop i cells hv rg = Inr (cells, hv, rg)"
    by (simp add: drain_loop.simps [of i] loadMsg_Nil)
  with Nil same_but_refl show ?case by (auto elim!: has_mailboxE)
next
  case (Cons msg msgs)
  obtain rg1 where rg1: "loadMsg hv rg = Inr (True, hv\<lparr>hv_currentMsg := Some msg\<rparr>, rg1)" "has_mailbox a rg1"
    "mailbox rg1 a = msgs" "same_but a rg rg1"
    using loadMsg_Cons [OF Cons.prems(1,2)] Cons.hyps(2) by metis
  have len: "unat i + Suc (length msgs) = length cells" using Cons.prems(3) Cons.hyps(2) by (metis length_Cons)
  then have inc: "unat (i + 1) = Suc (unat i)" using Cons.prems(4) by (simp add: unat_u32_plus)
  let ?cells = "cells[unat i := Some msg]"
  obtain hv2 rg2 where "drain_loop (i + 1) ?cells (hv\<lparr>hv_currentMsg := Some msg\<rparr>) rg1
      = Inr (take (unat (i + 1)) ?cells @ map Some msgs, hv2, rg2)"
    "hv_myThreadHandle hv2 = Some a" "has_mailbox a rg2" "mailbox rg2 a = []" "same_but a rg1 rg2"
    using Cons.hyps(1) [OF _ rg1(2), of "hv\<lparr>hv_currentMsg := Some msg\<rparr>" "i + 1" ?cells] rg1(3) Cons.prems(2,4)
      inc len by auto
  moreover have "drain_loop i cells hv rg = drain_loop (i + 1) ?cells (hv\<lparr>hv_currentMsg := Some msg\<rparr>) rg1"
    using rg1(1) len by (simp add: drain_loop.simps [of i cells] store_def)
  moreover have "take (unat (i + 1)) ?cells = take (unat i) cells @ [Some msg]"
    using inc len by (simp add: take_Suc_update)
  ultimately show ?case using same_but_trans [OF rg1(4)] Cons.hyps(2) by (metis append.assoc append_Cons append_Nil list.simps(9))
qed

lemma receiveAll_eq:
  assumes "has_mailbox a rg" and "hv_myThreadHandle hv = Some a"
  shows "\<exists>hv' rg'. receiveAll False hv rg = Some (Inr (mailbox rg a \<noteq> [], map Some (mailbox rg a),
      of_nat (length (mailbox rg a)), hv', rg')) \<and>
    hv_myThreadHandle hv' = Some a \<and> has_mailbox a rg' \<and> mailbox rg' a = [] \<and> same_but a rg rg'"
proof -
  obtain n q where q: "hqc_wf q" "mailbox rg a = hqc_contents q" "queue_of (Some a) rg = Inr q"
    using assms(1) by (rule has_mailboxE)
  let ?n = "length (mailbox rg a)"
  have le: "?n \<le> hqc_cap" using hqc.contents_le [OF q(1)] q(2) by simp
  then have size: "unat (of_nat ?n :: u32) = ?n"
    by (simp add: unsigned_of_nat take_bit_nat_eq_self hqc_cap_def)
  then have pos: "0 < (of_nat ?n :: u32) \<longleftrightarrow> mailbox rg a \<noteq> []" by (simp add: u32_less_iff)
  obtain hv' rg' where "drain_loop 0 (new_array (of_nat ?n)) hv rg = Inr (map Some (mailbox rg a), hv', rg')"
    "hv_myThreadHandle hv' = Some a" "has_mailbox a rg'" "mailbox rg' a = []" "same_but a rg rg'"
    using drain_loop_eq [OF assms, of 0 "new_array (of_nat ?n)"] le size by (auto simp: new_array_def hqc_cap_def)
  with q assms(2) hqc.sz_eq [OF q(1)] pos show ?thesis by (simp add: receiveAll_def Let_def)
qed

lemma receiveMsg_eq:
  assumes "has_mailbox a rg" and "hv_myThreadHandle hv = Some a"
  shows "mailbox rg a = [] \<Longrightarrow> receiveMsg True hv rg = None"
    and "mailbox rg a = [] \<Longrightarrow> receiveMsg False hv rg = Some (Inr (False, None, hv, rg))"
    and "mailbox rg a = msg # msgs \<Longrightarrow> \<exists>rg'. receiveMsg blocking hv rg =
        Some (Inr (True, Some msg, hv\<lparr>hv_currentMsg := Some msg\<rparr>, rg')) \<and>
        has_mailbox a rg' \<and> mailbox rg' a = msgs \<and> same_but a rg rg'"
  using loadMsg_Nil [OF assms] loadMsg_Cons [OF assms, of msg msgs]
  by (auto simp: receiveMsg_def)

lemma new_mailbox:
  assumes "rg_rep as rg" and "hv_myThreadHandle hv = None"
    and "addThread junk name cb ps hv rg = Inr (True, hv', rg')"
  shows "\<exists>b. hv_myThreadHandle hv' = Some b \<and> rg_rep (as @ [b]) rg' \<and> has_mailbox b rg' \<and> mailbox rg' b = []"
proof -
  obtain b where b: "hv_myThreadHandle hv' = Some b" "rg_rep (as @ [b]) rg'"
    "rg_handle rg' b = (mkThreadHandle junk name)\<lparr>th_callBack := cb, th_parameters := ps,
                        th_msgQueue := Some hqc_new, th_shares := junk + 1\<rparr>"
    using addThread_rep [OF assms(1,2), of junk name cb ps] assms(3) by auto
  obtain n where n: "node_at (rg_mem rg') b = Some n" using rg_rep_live [OF b(2)] by fastforce
  then have "th_msgQueue n = Some hqc_new"
    using arg_cong [OF b(3), of th_msgQueue] by (simp add: rg_handle_def payload_def)
  with b n hqc_wf_new hqc_contents_new show ?thesis
    by (auto simp: has_mailbox_def mailbox_def rg_handle_def payload_def)
qed

end
