(* ===== verification/Hive_Invariant.thy ===== *)
theory Hive_Invariant
  imports Hive_Registry
begin

text \<open>
  The invariant of a registry that every call of \<open>ThreadHive\<close> keeps which returns, whatever handle it is
  given and whatever it returns: the registry is well formed and every handle in it has a mailbox.
\<close>

definition rg_ok :: "('m, 'c) registry \<Rightarrow> bool" where
  "rg_ok rg \<longleftrightarrow> rg_wf rg \<and> (\<forall>a\<in>set (rg_addrs rg). has_mailbox a rg)"

text \<open>The handles registered stay the same, under the same names.\<close>

definition rg_name :: "('m, 'c) registry \<Rightarrow> addr \<Rightarrow> string" where
  "rg_name rg a = th_threadName (payload (rg_mem rg) a)"

lemma rg_name_handle: "th_threadName (rg_handle rg a) = rg_name rg a"
  by (simp add: rg_handle_def rg_name_def)

definition rg_keeps :: "('m, 'c) registry \<Rightarrow> ('m, 'c) registry \<Rightarrow> bool" where
  "rg_keeps rg rg' \<longleftrightarrow> rg_ok rg' \<and> rg_addrs rg' = rg_addrs rg \<and> rg_name rg' = rg_name rg"

lemma rg_okI: "rg_rep as rg \<Longrightarrow> \<forall>a\<in>set as. has_mailbox a rg \<Longrightarrow> rg_ok rg \<and> rg_addrs rg = as"
  using rg_rep_wf [of as rg] by (simp add: rg_ok_def)

lemma rg_ok_new: "rg_ok registry_new"
  by (rule rg_okI [OF registry_new_rep, THEN conjunct1]) simp

lemma rg_keeps_refl: "rg_ok rg \<Longrightarrow> rg_keeps rg rg"
  by (simp add: rg_keeps_def)

lemma rg_keeps_trans: "rg_keeps rg1 rg2 \<Longrightarrow> rg_keeps rg2 rg3 \<Longrightarrow> rg_keeps rg1 rg3"
  by (simp add: rg_keeps_def)

lemma rg_ok_live:
  assumes "rg_ok rg" and "node_at (rg_mem rg) a = Some n"
  shows "a \<in> set (rg_addrs rg)" and "\<exists>q. th_msgQueue n = Some q \<and> hqc_wf q"
proof -
  show "a \<in> set (rg_addrs rg)" using assms rg_rep_all_live [OF rg_wf_rep] by (auto simp: rg_ok_def)
  with assms show "\<exists>q. th_msgQueue n = Some q \<and> hqc_wf q" by (auto simp: rg_ok_def has_mailbox_def)
qed

text \<open>A handle is written to, and keeps its place in the list and a mailbox.\<close>

lemma rg_keeps_assign:
  assumes "rg_ok rg" and "node_at (rg_mem rg) a = Some n" and "th_next n' = th_next n"
    and "th_threadName n' = th_threadName n" and "th_msgQueue n' = Some q" and "hqc_wf q"
  shows "rg_keeps rg (rg\<lparr>rg_mem := (rg_mem rg)[a := Some n']\<rparr>)"
proof -
  let ?rg = "rg\<lparr>rg_mem := (rg_mem rg)[a := Some n']\<rparr>"
  have "rg_rep (rg_addrs rg) ?rg"
    using rg_rep_assign [OF rg_wf_rep assms(2,3)] assms(1) by (simp add: rg_ok_def)
  moreover have "\<forall>b\<in>set (rg_addrs rg). has_mailbox b ?rg"
    using assms node_at_less [OF assms(2)] by (auto simp: rg_ok_def has_mailbox_def)
  moreover have "rg_name ?rg = rg_name rg"
    using assms node_at_less [OF assms(2)] by (intro ext) (auto simp: rg_name_def payload_def)
  ultimately show ?thesis using rg_okI by (auto simp: rg_keeps_def)
qed

section \<open>Messages\<close>

lemma queue_of_ok:
  assumes "rg_ok rg" and "queue_of th rg = Inr q"
  shows "hqc_wf q"
  using assms rg_ok_live(2) [OF assms(1)] by (auto simp: queue_of_def bindE_Inr_iff deref_Inr_iff split: option.splits) fastforce

lemma set_queue_keeps:
  assumes "rg_ok rg" and "set_queue th q rg = Inr rg'" and "hqc_wf q"
  shows "rg_keeps rg rg'"
  using assms(2,3) rg_keeps_assign [OF assms(1)]
  by (auto simp: set_queue_def assign_def bindE_Inr_iff deref_Inr_iff)

lemma hqc_push_wf:
  assumes "hqc_wf q" and "hqc_push x q = Inr (ok, q')"
  shows "hqc_wf q'"
  using assms hqc.push_ok [OF assms(1), of x] hqc.push_full [OF assms(1), of x] hqc.contents_le [OF assms(1)]
  by (cases "length (hqc_contents q) = hqc_cap") auto

lemma hqc_pop_wf:
  assumes "hqc_wf q" and "hqc_pop q = Inr (r, q')"
  shows "hqc_wf q'"
  using assms hqc.pop_empty [OF assms(1)] hqc.pop_cons [OF assms(1)] by (cases "hqc_contents q") fastforce+

lemma sendMsg_keeps:
  assumes "rg_ok rg" and "sendMsg th msg rg = Inr (ok, rg')"
  shows "rg_keeps rg rg'"
  using assms(2) queue_of_ok [OF assms(1)] set_queue_keeps [OF assms(1)] hqc_push_wf
  by (fastforce simp: sendMsg_def bindE_Inr_iff)

lemma loadMsg_keeps:
  assumes "rg_ok rg" and "loadMsg hv rg = Inr (ok, hv', rg')"
  shows "rg_keeps rg rg'" and "hv_myThreadHandle hv' = hv_myThreadHandle hv"
proof -
  obtain q where q: "queue_of (hv_myThreadHandle hv) rg = Inr q" using assms(2) by (auto simp: loadMsg_def bindE_Inr_iff)
  note wf = queue_of_ok [OF assms(1) q]
  show "rg_keeps rg rg'"
    using assms(2) q hqc_pop_wf [OF wf] set_queue_keeps [OF assms(1)] rg_keeps_refl [OF assms(1)]
    by (fastforce simp: loadMsg_def bindE_Inr_iff split: if_splits option.splits)
  show "hv_myThreadHandle hv' = hv_myThreadHandle hv"
    using assms(2) q by (auto simp: loadMsg_def bindE_Inr_iff split: if_splits option.splits)
qed

lemma receiveMsg_keeps:
  assumes "rg_ok rg" and "receiveMsg blocking hv rg = Some (Inr (ok, msg, hv', rg'))"
  shows "rg_keeps rg rg'" and "hv_myThreadHandle hv' = hv_myThreadHandle hv"
  using assms(2) loadMsg_keeps [OF assms(1)]
  by (auto simp: receiveMsg_def split: sum.splits prod.splits if_splits)

lemma drain_loop_keeps:
  "drain_loop i messages hv rg = Inr (messages', hv', rg') \<Longrightarrow> rg_ok rg \<Longrightarrow>
    rg_keeps rg rg' \<and> hv_myThreadHandle hv' = hv_myThreadHandle hv"
proof (induction i messages hv rg rule: drain_loop.induct)
  case (1 i messages hv rg)
  from 1(2) obtain ok hv1 rg1 where l: "loadMsg hv rg = Inr (ok, hv1, rg1)"
    by (subst (asm) drain_loop.simps) (auto simp: bindE_Inr_iff)
  note k = loadMsg_keeps [OF 1(3) l]
  show ?case
  proof (cases ok)
    case True
    with 1(2) l obtain ms where s: "store messages i (hv_currentMsg hv1) = Inr ms"
      "drain_loop (i + 1) ms hv1 rg1 = Inr (messages', hv', rg')"
      by (subst (asm) drain_loop.simps) (auto simp: bindE_Inr_iff)
    have "rg_ok rg1" using k(1) by (simp add: rg_keeps_def)
    with 1(1) [OF l refl refl True s(1,2)] k show ?thesis by (auto intro: rg_keeps_trans)
  next
    case False
    with 1(2) l k show ?thesis by (subst (asm) drain_loop.simps) auto
  qed
qed

lemma receiveAll_keeps:
  assumes "rg_ok rg" and "receiveAll blocking hv rg = Some (Inr (ok, msgs, n, hv', rg'))"
  shows "rg_keeps rg rg' \<and> hv_myThreadHandle hv' = hv_myThreadHandle hv"
proof (cases blocking)
  case True
  with assms(2) obtain hv1 rg1 q ms where l: "loadMsg hv rg = Inr (True, hv1, rg1)"
    "drain_loop 1 ms hv1 rg1 = Inr (msgs, hv', rg')"
    by (auto simp: receiveAll_def bindE_Inr_iff Let_def split: sum.splits prod.splits if_splits)
  note k = loadMsg_keeps [OF assms(1) l(1)]
  then have "rg_ok rg1" by (simp add: rg_keeps_def)
  from drain_loop_keeps [OF l(2) this] k show ?thesis by (auto intro: rg_keeps_trans)
next
  case False
  with assms(2) obtain ms where "drain_loop 0 ms hv rg = Inr (msgs, hv', rg')"
    by (auto simp: receiveAll_def bindE_Inr_iff Let_def)
  from drain_loop_keeps [OF this assms(1)] show ?thesis .
qed

section \<open>Threads\<close>

lemma spawnThread_keeps:
  assumes "rg_ok rg" and "spawnThread hv rg = Inr (ok, hv', rg')"
  shows "rg_keeps rg rg' \<and> hv' = hv"
proof -
  from assms(2) obtain a n where n: "hv_myThreadHandle hv = Some a" "node_at (rg_mem rg) a = Some n"
    by (auto simp: spawnThread_def assign_def bindE_Inr_iff deref_Inr_iff)
  from rg_ok_live(2) [OF assms(1) n(2)] obtain q where "th_msgQueue n = Some q" "hqc_wf q" by blast
  with rg_keeps_assign [OF assms(1) n(2)] n assms(2) show ?thesis by (auto simp: spawnThread_def)
qed

lemma hive_finish_keeps:
  assumes "rg_ok rg" and "hive_finish r hv rg = Inr (hv', rg')"
  shows "rg_keeps rg rg' \<and> hv_myThreadHandle hv' = hv_myThreadHandle hv"
proof -
  from assms(2) obtain a n where n: "hv_myThreadHandle hv = Some a" "node_at (rg_mem rg) a = Some n" "th_hiveThread n"
    by (auto simp: hive_finish_def bindE_Inr_iff deref_Inr_iff split: if_splits)
  from rg_ok_live(2) [OF assms(1) n(2)] obtain q where "th_msgQueue n = Some q" "hqc_wf q" by blast
  with rg_keeps_assign [OF assms(1) n(2)] n assms(2) show ?thesis by (auto simp: hive_finish_def)
qed

lemma has_mailbox_handle:
  assumes "has_mailbox a rg" and "rg_handle rg' a = rg_handle rg a" and "node_at (rg_mem rg') a = Some n'"
  shows "has_mailbox a rg'"
proof -
  from assms(1) obtain n q where n: "node_at (rg_mem rg) a = Some n" "th_msgQueue n = Some q" "hqc_wf q"
    by (auto simp: has_mailbox_def)
  have "th_msgQueue n' = th_msgQueue n"
    using arg_cong [OF assms(2), of th_msgQueue] n(1) assms(3) by (simp add: rg_handle_def payload_def)
  with n assms(3) show ?thesis by (simp add: has_mailbox_def)
qed

lemma addThread_ok:
  assumes "rg_ok rg" and "addThread junk name cb ps hv rg = Inr (ok, hv', rg')"
  shows "if hv_myThreadHandle hv = None
    then \<exists>b. b \<notin> set (rg_addrs rg) \<and> hv_myThreadHandle hv' = Some b \<and> rg_ok rg' \<and> rg_addrs rg' = rg_addrs rg @ [b] \<and>
      rg_name rg' b = name \<and> mailbox rg' b = [] \<and> (\<forall>a\<in>set (rg_addrs rg). rg_handle rg' a = rg_handle rg a)
    else hv' = hv \<and> rg' = rg"
proof (cases "hv_myThreadHandle hv = None")
  case True
  have rep: "rg_rep (rg_addrs rg) rg" using assms(1) rg_wf_rep [of rg] by (simp add: rg_ok_def)
  obtain b where b: "ok" "hv_myThreadHandle hv' = Some b" "b \<notin> set (rg_addrs rg)" "rg_rep (rg_addrs rg @ [b]) rg'"
    "\<forall>a\<in>set (rg_addrs rg). rg_handle rg' a = rg_handle rg a" "th_threadName (rg_handle rg' b) = name"
    using addThread_rep [OF rep True, of junk name cb ps] assms(2) by (auto simp: mkThreadHandle_def)
  then have new: "has_mailbox b rg'" "mailbox rg' b = []"
    using new_mailbox [OF rep True, of junk name cb ps hv' rg'] assms(2) by auto
  moreover have "has_mailbox a rg'" if a: "a \<in> set (rg_addrs rg)" for a
  proof -
    have "has_mailbox a rg" "rg_handle rg' a = rg_handle rg a" using a b(5) assms(1) by (simp_all add: rg_ok_def)
    moreover obtain n where "node_at (rg_mem rg') a = Some n" using rg_rep_live [OF b(4)] a by auto
    ultimately show ?thesis by (rule has_mailbox_handle)
  qed
  ultimately have "rg_ok rg' \<and> rg_addrs rg' = rg_addrs rg @ [b]" using b new(1) by (intro rg_okI) auto
  with True b new(2) show ?thesis by (auto simp: rg_name_handle)
qed (use assms in \<open>auto simp: addThread_def\<close>)

lemma hive_destroy_ok:
  assumes "rg_ok rg" and "hive_destroy hv rg = Some (Inr (hv', rg'))"
  shows "rg_ok rg' \<and> set (rg_addrs rg) - set_option (hv_myThreadHandle hv) \<subseteq> set (rg_addrs rg') \<and>
    (\<forall>a\<in>set (rg_addrs rg'). rg_name rg' a = rg_name rg a \<and> mailbox rg' a = mailbox rg a)"
proof (cases "hv_myThreadHandle hv")
  case (Some v)
  note rep = rg_wf_rep [of rg]
  have wf: "rg_wf rg" and box: "\<And>a. a \<in> set (rg_addrs rg) \<Longrightarrow> has_mailbox a rg" using assms(1) by (simp_all add: rg_ok_def)
  have "node_at (rg_mem rg) v \<noteq> None"
    using assms(2) Some by (auto simp: hive_destroy_def assign_def deref_def Let_def split: option.splits)
  then have v: "v \<in> set (rg_addrs rg)" using rg_ok_live(1) [OF assms(1)] by auto
  show ?thesis
  proof (cases "th_shares (rg_handle rg v) = 1")
    case True
    obtain us ws where split: "rg_addrs rg = us @ v # ws" using split_list [OF v] by blast
    then have r: "rg_rep (us @ ws) rg'" "\<forall>a\<in>set (us @ ws). rg_handle rg' a = rg_handle rg a"
      using hive_destroy_last [of us v ws rg hv] rep [OF wf] Some True assms(2) by auto
    have "\<forall>a\<in>set (us @ ws). has_mailbox a rg'"
      using has_mailbox_handle [OF box] r rg_rep_live [OF r(1)] split by fastforce
    with rg_okI [OF r(1)] split Some r(2) show ?thesis by (auto simp: rg_name_handle [symmetric] mailbox_def)
  next
    case False
    then have r: "rg_rep (rg_addrs rg) rg'" "rg_handle rg' v = (rg_handle rg v)\<lparr>th_shares := th_shares (rg_handle rg v) - 1\<rparr>"
      "\<forall>a. a \<noteq> v \<longrightarrow> rg_handle rg' a = rg_handle rg a"
      using hive_destroy_shared [OF rep [OF wf] Some v] assms(2) by auto
    have "has_mailbox a rg'" if a: "a \<in> set (rg_addrs rg)" for a
    proof (cases "a = v")
      case True
      obtain n' where "node_at (rg_mem rg') v = Some n'" using rg_rep_live [OF r(1) v] by blast
      with box [OF v] arg_cong [OF r(2), of th_msgQueue] True show ?thesis
        by (auto simp: has_mailbox_def rg_handle_def payload_def)
    qed (use has_mailbox_handle [OF box [OF a]] r rg_rep_live [OF r(1) a] in auto)
    moreover have "rg_name rg' a = rg_name rg a \<and> mailbox rg' a = mailbox rg a" for a
      using r(2,3) by (cases "a = v") (simp_all add: rg_name_handle [symmetric] mailbox_def)
    ultimately show ?thesis using rg_okI [OF r(1)] by auto
  qed
qed (use assms in \<open>auto simp: hive_destroy_def\<close>)

text \<open>The last owner of a handle unregisters it; any other only counts down.\<close>

lemma hive_destroy_cases:
  assumes "rg_ok rg" and "hv_myThreadHandle hv = Some a" and "a \<in> set (rg_addrs rg)"
  shows "\<exists>hv' rg'. hive_destroy hv rg = Some (Inr (hv', rg')) \<and> rg_ok rg' \<and>
    (if th_shares (rg_handle rg a) = 1 then rg_addrs rg' = filter (\<lambda>b. b \<noteq> a) (rg_addrs rg)
     else rg_addrs rg' = rg_addrs rg \<and> th_shares (rg_handle rg' a) = th_shares (rg_handle rg a) - 1) \<and>
    (\<forall>b\<in>set (rg_addrs rg) - {a}. rg_handle rg' b = rg_handle rg b)"
proof -
  have rep: "rg_rep (rg_addrs rg) rg" using assms(1) rg_wf_rep [of rg] by (simp add: rg_ok_def)
  show ?thesis
  proof (cases "th_shares (rg_handle rg a) = 1")
    case True
    obtain us ws where split: "rg_addrs rg = us @ a # ws" using split_list [OF assms(3)] by blast
    then obtain rg' where r: "hive_destroy hv rg = Some (Inr (hv\<lparr>hv_myThreadHandle := None\<rparr>, rg'))"
      "rg_rep (us @ ws) rg'" "\<forall>b\<in>set (us @ ws). rg_handle rg' b = rg_handle rg b"
      using hive_destroy_last [of us a ws rg hv] rep assms(2) True by auto
    have "distinct (us @ a # ws)" using rep split by (simp add: rg_rep_def)
    then have "filter (\<lambda>b. b \<noteq> a) (rg_addrs rg) = us @ ws" "set (us @ ws) = set (rg_addrs rg) - {a}"
      unfolding split by (auto intro!: arg_cong2 [where f = append] filter_True)
    with True r rg_rep_wf [OF r(2)] hive_destroy_ok [OF assms(1) r(1)] show ?thesis by auto
  next
    case False
    obtain rg' where r: "hive_destroy hv rg = Some (Inr (hv, rg'))" "rg_rep (rg_addrs rg) rg'"
      "rg_handle rg' a = (rg_handle rg a)\<lparr>th_shares := th_shares (rg_handle rg a) - 1\<rparr>"
      "\<forall>b. b \<noteq> a \<longrightarrow> rg_handle rg' b = rg_handle rg b"
      using hive_destroy_shared [OF rep assms(2,3) False] by blast
    with False rg_rep_wf [OF r(2)] hive_destroy_ok [OF assms(1) r(1)] show ?thesis by auto
  qed
qed

end
