(* ===== verification/Pool_Props.thy ===== *)
theory Pool_Props
  imports OPFL_Conn
begin

text \<open>
  What the pool of database connections promises the threads of the library, for the factory of
  \<open>OPFLConnection\<close> and any behaviour of the driver.
\<close>

text \<open>
  C14: However the clients borrow, return and drop connections, no connection is ever lent to two of them,
  free and borrowed connections together are always as many as the pool was made with, and every
  one of them exists.
\<close>

theorem pool_lends_once:
  assumes "pool_reach n (factory_create d f) (conn_destroy d) s0 (p, s, lent)"
  shows "distinct (map snd lent) \<and> snd ` set lent \<subseteq> set (cp_borrowed p) \<and>
    fst (get_stats p) + snd (get_stats p) = n \<and> set (cp_pool p) \<inter> set (cp_borrowed p) = {} \<and>
    set (cp_pool p) \<union> set (cp_borrowed p) \<subseteq> conn_alive s"
  using opfl.lending_reach [OF assms] by (auto simp: opfl.lending_def pool_ok_def get_stats_def)

lemma mem_factory_create:
  "factory_create mem_sql f (mem, w) =
     (Inr (length mem), (mem @ [Some (Some (mem_connection))], w))"
  by (simp add: factory_create_def conn_new_eq Connect_def thenE_def callE_def mem_sql_def mem_connection_def)

lemma mem_pool:
  "pool_new 1 (factory_create mem_sql f) ([], w) =
     (Inr \<lparr>cp_pool_size = 1, cp_pool = [0], cp_borrowed = []\<rparr>, ([Some (Some mem_connection)], w))"
  by (simp add: pool_new_def thenE_def mem_factory_create)

definition mem_db0 :: mem_db where
  "mem_db0 = (0, (\<lambda>_. []), (\<lambda>_. (0, [])))"

lemma pool_lends_once_witness:
  "\<exists>p s. pool_reach 1 (factory_create mem_sql mysql_connection_factory) (conn_destroy mem_sql) ([], mem_db0)
       (p, s, [(CHR ''a'', 0)]) \<and> length (cp_pool p) + length (cp_borrowed p) = 1"
proof -
  let ?p = "\<lparr>cp_pool_size = 1, cp_pool = [0], cp_borrowed = []\<rparr> :: addr pool"
  let ?s = "([Some (Some mem_connection)], mem_db0)"
  let ?create = "factory_create mem_sql mysql_connection_factory" and ?destroy = "conn_destroy mem_sql"
  have made: "pool_reach 1 ?create ?destroy ([], mem_db0) (?p, ?s, [] :: (char \<times> addr) list)"
    using mem_pool by (rule pool_reach.made)
  have "borrow ?create ?destroy (lent_count ([] :: (char \<times> addr) list)) (?p, ?s) =
      (Inr 0, (?p\<lparr>cp_pool := [], cp_borrowed := [0]\<rparr>, ?s))"
    by (simp add: borrow_Cons)
  from pool_reach.step [OF made pool_step.borrows [OF this]]
  have r: "pool_reach 1 ?create ?destroy ([], mem_db0) (?p\<lparr>cp_pool := [], cp_borrowed := [0]\<rparr>, ?s, [(CHR ''a'', 0)])" .
  from pool_lends_once [OF r] r show ?thesis unfolding get_stats_def fst_conv snd_conv by blast
qed

text \<open>
  C23: A connection that was let go is replaced, and only then: a request takes the first free connection;
  with none free, the first borrowed connection that nobody holds any more is destroyed and a new
  one takes its place, if one can be made; with every borrowed connection held, the request is refused
  and nothing changes.
\<close>

theorem borrow_outcomes:
  assumes "pool_ok conn_alive p s"
  shows "borrow (factory_create d f) (conn_destroy d) held (p, s) =
    (case cp_pool p of
       c # cs \<Rightarrow> (Inr c, (p\<lparr>cp_pool := cs, cp_borrowed := set_insert c (cp_borrowed p)\<rparr>, s))
     | [] \<Rightarrow>
        (case find (\<lambda>c. held c = 0) (cp_borrowed p) of
           None \<Rightarrow> (Inl (Thrown ConnectionUnavailable), (p, s))
         | Some it \<Rightarrow>
            (case factory_create d f s of
               (Inl e, s) \<Rightarrow> (Inl (Thrown ConnectionImpossible), (p, s))
             | (Inr c, s) \<Rightarrow> (Inr c, (p\<lparr>cp_borrowed := set_insert c (set_erase it (cp_borrowed p))\<rparr>,
                                 snd (conn_destroy d it s))))))"
proof (cases "cp_pool p")
  case Nil
  have "replace (factory_create d f) (conn_destroy d) it (p, s) =
      (case factory_create d f s of
         (Inl e, s) \<Rightarrow> (Inl (Thrown ConnectionImpossible), (p, s))
       | (Inr c, s) \<Rightarrow> (Inr c, (p\<lparr>cp_borrowed := set_insert c (set_erase it (cp_borrowed p))\<rparr>,
                           snd (conn_destroy d it s))))"
    if "find (\<lambda>c. held c = 0) (cp_borrowed p) = Some it" for it
  proof -
    from that have "it \<in> set (cp_borrowed p)" by (auto simp: find_Some_iff)
    from opfl.replace_cases [OF assms this, of d f] show ?thesis by auto
  qed
  with Nil show ?thesis by (simp add: borrow_abandoned [OF assms Nil] split: option.split)
qed (simp add: borrow_Cons)

lemma borrow_outcomes_witness:
  "borrow (factory_create mem_sql mysql_connection_factory) (conn_destroy mem_sql) (\<lambda>c. 1)
     (\<lparr>cp_pool_size = 1, cp_pool = [], cp_borrowed = [0]\<rparr>, ([Some (Some mem_connection)], mem_db0)) =
   (Inl (Thrown ConnectionUnavailable),
     (\<lparr>cp_pool_size = 1, cp_pool = [], cp_borrowed = [0]\<rparr>, ([Some (Some mem_connection)], mem_db0)))"
proof -
  let ?p = "\<lparr>cp_pool_size = 1, cp_pool = [], cp_borrowed = [0]\<rparr> :: addr pool"
  have "pool_ok conn_alive ?p ([Some (Some mem_connection)], mem_db0)"
    by (simp add: pool_ok_def conn_alive_def node_at_def sound_con_def mem_connection_def)
  from borrow_outcomes [OF this, of mem_sql mysql_connection_factory "\<lambda>c. 1"] show ?thesis by simp
qed

end
