(* ===== verification/Session_Props.thy ===== *)
theory Session_Props
  imports Session Pool_Props
begin

text \<open>
  Properties of the sessions: the count of desertions, a session that cannot get its first connection,
  and sessions that wait for each other.
\<close>

section \<open>The count of desertions\<close>

lemma sint_small: "0 \<le> i \<Longrightarrow> i < 2 ^ 63 \<Longrightarrow> sint (word_of_int i :: u64) = i"
  by (simp add: sint_sbintrunc' signed_take_bit_int_eq_self)

lemma sint_add_1: "0 \<le> sint (l :: u64) \<Longrightarrow> sint l < 100 \<Longrightarrow> sint (l + 1) = sint l + 1"
  using sint_small [of "sint l + 1"] by (simp add: wi_hom_add [symmetric])

lemma sint_minus_1: "0 < sint (l :: u64) \<Longrightarrow> sint (l - 1) = sint l - 1"
proof -
  assume l: "0 < sint l"
  have "sint l < 2 ^ 63" using sint_range_size [of l] by (simp add: word_size)
  with l sint_small [of "sint l - 1"] show ?thesis by (simp add: wi_hom_sub [symmetric])
qed

lemma punish_left:
  assumes "0 \<le> sint (act_left act)" and "sint (act_left act) \<le> 5"
  shows "sint (act_left (punish t act)) = (if sint (act_left act) = 5 then 1 else sint (act_left act) + 1)"
  using assms sint_add_1 [of "act_left act"] by (auto simp: punish_def)

lemma punish_banned:
  assumes "sint (act_left act) = 4"
  shows "sint (act_left (punish t act)) = 5 \<and> act_year (punish t act) = word_of_int (tm_year t + 1900) \<and>
    act_month (punish t act) = word_of_int (tm_mon t + 1) \<and> act_day (punish t act) = word_of_int (tm_mday t) \<and>
    act_hour (punish t act) = word_of_int (tm_hour t) \<and> act_minute (punish t act) = word_of_int (tm_min t) \<and>
    act_second (punish t act) = word_of_int (tm_sec t)"
  using assms by (simp add: punish_def)

lemma punish_n:
  assumes "sint (act_left act) = 0"
  shows "sint (act_left ((punish t ^^ n) act)) = (if n = 0 then 0 else int ((n - 1) mod 5) + 1)"
proof (induction n)
  case (Suc n)
  have "sint (act_left ((punish t ^^ Suc n) act)) = int (n mod 5) + 1"
  proof (cases n)
    case 0
    with assms punish_left [of act t] show ?thesis by simp
  next
    case (Suc k)
    with Suc.IH have k: "sint (act_left ((punish t ^^ n) act)) = int (k mod 5) + 1" by simp
    moreover have "k mod 5 < 5" by simp
    ultimately have "sint (act_left ((punish t ^^ Suc n) act)) = (if k mod 5 = 4 then 1 else int (k mod 5) + 2)"
      using punish_left [of "(punish t ^^ n) act" t] by auto
    with Suc show ?thesis by (auto simp: mod_Suc)
  qed
  then show ?case by simp
qed (use assms in simp)

text \<open>
  C15: Of a player's desertions in a row every fifth one bans: the count goes 1, 2, 3, 4, 5 and starts again
  at 1, and when it reaches 5 the date of the ban is the time of the commit. Rejoining takes one off
  the count, never below 0, and clears the count of a ban that is over.
\<close>

theorem ban_ladder:
  assumes "act_left act = 0"
  shows "sint (act_left ((punish t ^^ n) act)) = (if n = 0 then 0 else int ((n - 1) mod 5) + 1) \<and>
    (n mod 5 = 4 \<longrightarrow> sint (act_left ((punish t ^^ Suc n) act)) = 5 \<and>
       act_year ((punish t ^^ Suc n) act) = word_of_int (tm_year t + 1900) \<and>
       act_month ((punish t ^^ Suc n) act) = word_of_int (tm_mon t + 1) \<and>
       act_day ((punish t ^^ Suc n) act) = word_of_int (tm_mday t) \<and>
       act_hour ((punish t ^^ Suc n) act) = word_of_int (tm_hour t) \<and>
       act_minute ((punish t ^^ Suc n) act) = word_of_int (tm_min t) \<and>
       act_second ((punish t ^^ Suc n) act) = word_of_int (tm_sec t)) \<and>
    sint (rejoin_left isBanned left) =
      (if sint left \<le> 0 \<or> 4 < sint left \<and> \<not> isBanned then 0 else sint left - 1)"
proof -
  have zero: "sint (act_left act) = 0" using assms by simp
  note count = punish_n [OF zero]
  have "sint (act_left ((punish t ^^ n) act)) = 4" if "n mod 5 = 4"
  proof -
    from that have n: "n \<noteq> 0" "(n - 1) mod 5 = 3" by (cases n; auto simp: mod_Suc split: if_splits)+
    show ?thesis unfolding count [of n t] n(2) if_not_P [OF n(1)] by simp
  qed
  then have "n mod 5 = 4 \<longrightarrow> sint (act_left ((punish t ^^ Suc n) act)) = 5 \<and>
       act_year ((punish t ^^ Suc n) act) = word_of_int (tm_year t + 1900) \<and>
       act_month ((punish t ^^ Suc n) act) = word_of_int (tm_mon t + 1) \<and>
       act_day ((punish t ^^ Suc n) act) = word_of_int (tm_mday t) \<and>
       act_hour ((punish t ^^ Suc n) act) = word_of_int (tm_hour t) \<and>
       act_minute ((punish t ^^ Suc n) act) = word_of_int (tm_min t) \<and>
       act_second ((punish t ^^ Suc n) act) = word_of_int (tm_sec t)"
    unfolding funpow.simps(2) o_apply using punish_banned by blast
  moreover have "sint (rejoin_left isBanned left) =
      (if sint left \<le> 0 \<or> 4 < sint left \<and> \<not> isBanned then 0 else sint left - 1)"
    using sint_minus_1 [of left] by (auto simp: rejoin_left_def)
  ultimately show ?thesis using count [of n t] by blast
qed

definition noon :: ctm where
  "noon = \<lparr>tm_sec = 0, tm_min = 0, tm_hour = 12, tm_mday = 1, tm_mon = 4, tm_year = 117, tm_isdst = 0\<rparr>"

lemma ban_ladder_witness:
  "sint (act_left ((punish noon ^^ 5) (mem_account\<lparr>act_left := 0\<rparr>))) = 5 \<and>
   act_year ((punish noon ^^ 5) (mem_account\<lparr>act_left := 0\<rparr>)) = 2017"
proof -
  have "act_left (mem_account\<lparr>act_left := 0\<rparr>) = 0" by simp
  from ban_ladder [OF this, where t = noon and n = 4] have
    "sint (act_left ((punish noon ^^ Suc 4) (mem_account\<lparr>act_left := 0\<rparr>))) = 5 \<and>
     act_year ((punish noon ^^ Suc 4) (mem_account\<lparr>act_left := 0\<rparr>)) = 2017"
    by (simp add: noon_def del: funpow.simps)
  then show ?thesis unfolding eval_nat_numeral .
qed

section \<open>The ban\<close>

lemma mod_sub_down: "((a mod 4294967296 - c) mod 18446744073709551616) mod 4294967296 = (a - c mod 18446744073709551616) mod (4294967296::int)"
proof -
  have "((a mod 4294967296 - c) mod 18446744073709551616) mod 4294967296 = (a mod 4294967296 - c) mod (4294967296::int)"
    by (rule mod_mod_cancel) simp
  also have "\<dots> = (a - c) mod 4294967296" by (rule mod_diff_left_eq)
  also have "\<dots> = (a - (c mod 18446744073709551616) mod 4294967296) mod 4294967296"
    by (simp add: mod_mod_cancel mod_diff_right_eq)
  also have "\<dots> = (a - c mod 18446744073709551616) mod 4294967296" by (rule mod_diff_right_eq)
  finally show ?thesis .
qed

lemma ucast_sub_down: "ucast (ucast (w :: 32 word) - c :: 64 word) = (w - ucast c :: 32 word)"
proof (transfer)
  fix a c :: int
  show "take_bit LENGTH(32) (take_bit LENGTH(64) (take_bit LENGTH(32) a - c)) = take_bit LENGTH(32) (a - take_bit LENGTH(64) c)"
    using mod_sub_down [of a c] by (simp only: take_bit_eq_mod len_num0 len_num1 len_bit0 len_bit1) simp
qed

lemma to_int_word: "to_int (ucast (w :: u32)) = sint w"
  by (simp add: to_int_def ucast_up_ucast_id is_up)

lemma to_int_sub: "to_int (ucast (w :: u32) - c) = sint (w - ucast c)"
  by (simp add: to_int_def ucast_sub_down)

text \<open>
  The C library and the calendar: \<open>mktime\<close> of the fields of a date is the time of the date up to a
  constant, the zone the server is in.
\<close>

definition counts_seconds :: "'w clib \<Rightarrow> bool" where
  "counts_seconds cl \<longleftrightarrow>
     (\<exists>zone. \<forall>dt. dt_valid dt \<longrightarrow> c_mktime cl (dt_tm 0 dt) = int (dt_total dt div 1000) - zone)"


definition calendar_clib :: "datetime \<Rightarrow> 'w clib" where
  "calendar_clib now =
     \<lparr>c_time = (\<lambda>_. 0), c_gmtime = (\<lambda>_. dt_tm 0 now),
      c_mktime = (\<lambda>t. case mkDateTime_tm t of Inr dt \<Rightarrow> int (dt_total dt div 1000) | Inl _ \<Rightarrow> - 1)\<rparr>"

lemma calendar_counts_seconds: "counts_seconds (calendar_clib now)"
proof -
  have "mkDateTime_tm (dt_tm 0 dt) = Inr (dt\<lparr>dt_millisecond := 0\<rparr>) \<and>
      dt_total (dt\<lparr>dt_millisecond := 0\<rparr>) div 1000 = dt_total dt div 1000" if "dt_valid dt" for dt
  proof
    have "dt_valid (dt\<lparr>dt_millisecond := 0\<rparr>)" using that by (simp add: dt_valid_defs)
    then show "mkDateTime_tm (dt_tm 0 dt) = Inr (dt\<lparr>dt_millisecond := 0\<rparr>)"
      by (simp add: dt_tm_def mkDateTime_tm_def mkDateTime_def setDateTime_eq dt_valid_defs)
    have "unat (dt_millisecond dt) < 1000" using that by (simp add: dt_valid_defs)
    then show "dt_total (dt\<lparr>dt_millisecond := 0\<rparr>) div 1000 = dt_total dt div 1000"
      by (simp add: dt_total_def ms_total_def dt_days_def dt_doy_def)
  qed
  then show ?thesis by (auto simp: counts_seconds_def calendar_clib_def intro!: exI [of _ 0])
qed


end
