(* ===== verification/Arma_Roundtrip.thy ===== *)
theory Arma_Roundtrip
  imports Arma_Data
begin

text \<open>
  Printing and parsing \<open>ArmaData\<close>. \<open>rt_elem\<close> describes the elements an array can hold for its text to
  be read back: strings that are not empty and contain neither the unit character nor \<open>@\<close>, numbers,
  addresses, floats whose text denotes them, and arrays, not empty, of such elements. For these the
  parser inverts the printer; the theorems on the other strings say what it does instead.
\<close>

lemma ad_distinct [simp]:
  "AD_UNIT \<noteq> AD_AS_LEFT" "AD_UNIT \<noteq> AD_AS_RIGHT" "AD_AS_LEFT \<noteq> AD_AS_RIGHT" "AD_AS_RIGHT \<noteq> AD_AS_LEFT"
  "AD_ARRAY \<noteq> AD_UNIT" "AD_ARRAY \<noteq> AD_AS_LEFT" "AD_ARRAY \<noteq> AD_AS_RIGHT" "AD_SEPERATOR \<noteq> AD_UNIT"
  "AD_SEPERATOR \<noteq> AD_AS_LEFT" "AD_SEPERATOR \<noteq> AD_AS_RIGHT" "AD_UNIT \<noteq> AD_SEPERATOR" "AD_UNIT \<noteq> AD_ARRAY"
  "AD_STRING \<noteq> AD_ARRAY" "AD_STRING \<noteq> AD_UNIT" "AD_SEPERATOR \<noteq> AD_ARRAY" "AD_AS_RIGHT \<noteq> AD_ARRAY"
  "AD_AS_LEFT \<noteq> AD_UNIT" "AD_AS_RIGHT \<noteq> AD_UNIT" "AD_AS_RIGHT \<noteq> AD_SEPERATOR" "AD_AS_LEFT \<noteq> AD_SEPERATOR"
  "AD_STRING \<noteq> AD_AS_LEFT" "AD_STRING \<noteq> AD_AS_RIGHT" "AD_STRING \<noteq> AD_SEPERATOR"
  by (simp_all add: ad_chars)

section \<open>Elements that survive\<close>

definition plain :: "string \<Rightarrow> bool" where
  "plain t \<longleftrightarrow> t \<noteq> [] \<and> (\<forall>c\<in>set t. c \<notin> {AD_UNIT, AD_ARRAY, AD_SEPERATOR, AD_AS_LEFT, AD_AS_RIGHT})"

definition rt_string :: "string \<Rightarrow> bool" where
  "rt_string s \<longleftrightarrow> s \<noteq> [] \<and> AD_UNIT \<notin> set s \<and> AD_ARRAY \<notin> set s"

definition rt_float :: "(string \<Rightarrow> std_exc + 'f) \<Rightarrow> (u16 option \<Rightarrow> 'f \<Rightarrow> string) \<Rightarrow> u16 option \<Rightarrow> 'f \<Rightarrow> bool" where
  "rt_float stof fixed pr f \<longleftrightarrow>
     pr = Some (ucast (DecimalPlaces (fixed pr f))) \<and> stof (fixed pr f) = Inr f \<and> plain (fixed pr f)"

fun rt_elem :: "(string \<Rightarrow> std_exc + 'f) \<Rightarrow> (u16 option \<Rightarrow> 'f \<Rightarrow> string) \<Rightarrow> 'f adata \<Rightarrow> bool"
  and rt_value :: "(string \<Rightarrow> std_exc + 'f) \<Rightarrow> (u16 option \<Rightarrow> 'f \<Rightarrow> string) \<Rightarrow> u16 option \<Rightarrow> 'f avalue \<Rightarrow> bool"
  and rt_elems :: "(string \<Rightarrow> std_exc + 'f) \<Rightarrow> (u16 option \<Rightarrow> 'f \<Rightarrow> string) \<Rightarrow> 'f adata list \<Rightarrow> bool" where
  "rt_elem stof fixed (AData v h pr prot) = (h \<and> \<not> prot \<and> rt_value stof fixed pr v)"
| "rt_value stof fixed pr VNull = False"
| "rt_value stof fixed pr (VString s) = (pr = None \<and> rt_string s)"
| "rt_value stof fixed pr (VFloat f) = rt_float stof fixed pr f"
| "rt_value stof fixed pr (VSigned i) = (pr = None)"
| "rt_value stof fixed pr (VUnsigned u) = (pr = None)"
| "rt_value stof fixed pr (VAddress a) = (pr = None)"
| "rt_value stof fixed pr (VArray es) = (pr = None \<and> es \<noteq> [] \<and> rt_elems stof fixed es)"
| "rt_elems stof fixed [] = True"
| "rt_elems stof fixed (e # es) = (rt_elem stof fixed e \<and> rt_elems stof fixed es)"

lemma rt_elems_iff: "rt_elems stof fixed es \<longleftrightarrow> (\<forall>e\<in>set es. rt_elem stof fixed e)"
  by (induction es) auto

fun is_array :: "'f adata \<Rightarrow> bool" where
  "is_array (AData (VArray es) h pr prot) = True"
| "is_array d = False"

text \<open>The text of an array between its brackets.\<close>

fun join :: "(u16 option \<Rightarrow> 'f \<Rightarrow> string) \<Rightarrow> 'f adata list \<Rightarrow> string" where
  "join fixed [] = []"
| "join fixed [e] = Deparse fixed e"
| "join fixed (e # es) = Deparse fixed e @ AD_SEPERATOR # join fixed es"

lemma Deparse_elements_join:
  "es \<noteq> [] \<Longrightarrow> \<forall>e\<in>set es. ad_hasData e \<Longrightarrow> Deparse_elements fixed es = join fixed es @ [AD_SEPERATOR]"
  by (induction fixed es rule: join.induct) auto

lemma rt_elem_hasData: "rt_elem stof fixed e \<Longrightarrow> ad_hasData e"
  by (cases e) simp

lemma Deparse_array:
  assumes "es \<noteq> []" and "rt_elems stof fixed es"
  shows "Deparse fixed (AData (VArray es) True pr prot) = AD_ARRAY # AD_AS_LEFT # join fixed es @ [AD_AS_RIGHT]"
proof -
  have "\<forall>e\<in>set es. ad_hasData e" using assms(2) rt_elem_hasData by (auto simp: rt_elems_iff)
  then show ?thesis using assms(1) by (simp add: Deparse_elements_join Let_def butlast_append)
qed

lemma hex_plain: "is_hex c \<or> c = CHR ''-'' \<Longrightarrow> c \<notin> {AD_UNIT, AD_ARRAY, AD_SEPERATOR, AD_AS_LEFT, AD_AS_RIGHT}"
  by (auto simp: ad_chars is_hex_def is_digit_def)

lemma plain_digits: "t \<noteq> [] \<Longrightarrow> (\<And>c. c \<in> set t \<Longrightarrow> is_hex c \<or> c = CHR ''-'') \<Longrightarrow> plain t"
  unfolding plain_def using hex_plain by blast

lemma plain_numbers: "plain (show_i64 i)" "plain (show_u64 u)" "plain (show_hex n)"
proof -
  have digits: "c \<in> set (show_nat n) \<Longrightarrow> is_hex c" for c n using show_nat_digits by (auto simp: is_hex_def)
  show "plain (show_i64 i)" "plain (show_u64 u)" "plain (show_hex n)"
    by (rule plain_digits; use digits show_hex_hex in \<open>auto simp: show_i64_def show_int_def show_u64_def split: if_splits\<close>)+
qed

section \<open>Scanning a nested array\<close>

lemma nest_plain:
  "\<forall>c\<in>set t. c \<notin> {AD_UNIT, AD_AS_LEFT, AD_AS_RIGHT} \<Longrightarrow> L \<noteq> R \<Longrightarrow>
   nest_loop p temp False L R arr (t @ rest) = nest_loop p (temp @ t) False L R arr rest"
  by (induction t arbitrary: temp) (simp_all add: Let_def)

lemma nest_quoted:
  "AD_UNIT \<notin> set t \<Longrightarrow>
   nest_loop p temp True L R arr (t @ rest) = nest_loop p (temp @ t) True L R arr rest"
  by (induction t arbitrary: temp) (auto simp: Let_def)

lemma value_type_plain [simp]:
  "value_type v \<noteq> AD_UNIT" "value_type v \<noteq> AD_AS_LEFT" "value_type v \<noteq> AD_AS_RIGHT" "value_type v \<noteq> AD_SEPERATOR"
  by (cases v; simp add: ad_chars)+

lemma value_type_array: "value_type v = AD_ARRAY \<longleftrightarrow> (\<exists>es. v = VArray es)"
  by (cases v) (simp_all add: ad_chars)

lemma plain_nest: "plain t \<Longrightarrow> \<forall>c\<in>set t. c \<notin> {AD_UNIT, AD_AS_LEFT, AD_AS_RIGHT}"
  by (simp add: plain_def)

lemma nest_scan_plain:
  assumes "plain t" and "R < L"
  shows "\<exists>k. nest_loop p temp False L R arr (value_type v # t @ rest)
    = nest_loop p (temp @ value_type v # t) False (L + k) (R + k) arr rest"
  using nest_plain [of "value_type v # t" L R p temp arr rest] plain_nest [OF assms(1)] assms(2)
  by (intro exI [of _ 0]) simp

lemma nest_scan:
  "rt_elem stof fixed e \<Longrightarrow> R < L \<Longrightarrow> \<exists>k. nest_loop p temp False L R arr (Deparse fixed e @ rest)
     = nest_loop p (temp @ Deparse fixed e) False (L + k) (R + k) arr rest"
  "rt_value stof fixed pr v \<Longrightarrow> R < L \<Longrightarrow>
     \<exists>k. nest_loop p temp False L R arr (value_type v # Deparse_value fixed pr v @ rest)
     = nest_loop p (temp @ value_type v # Deparse_value fixed pr v) False (L + k) (R + k) arr rest"
  "rt_elems stof fixed es \<Longrightarrow> R < L \<Longrightarrow> \<exists>k. nest_loop p temp False L R arr (join fixed es @ rest)
     = nest_loop p (temp @ join fixed es) False (L + k) (R + k) arr rest"
proof (induction fixed e and fixed pr v and fixed es arbitrary: temp L R rest and temp L R rest and temp L R rest
    rule: Deparse_Deparse_value_Deparse_elements.induct)
  case (3 fixed pr s)
  then have "AD_UNIT \<notin> set s" by (simp add: rt_string_def)
  with 3 show ?case by (intro exI [of _ 0]) (simp add: Let_def nest_quoted)
next
  case (4 fixed pr f)
  then show ?case using nest_scan_plain [of "fixed pr f" R L p temp arr "VFloat f" rest] by (simp add: rt_float_def)
next
  case (5 fixed pr i)
  show ?case using nest_scan_plain [OF plain_numbers(1) "5.prems"(2), where v = "VSigned i"] by (simp del: nest_loop.simps)
next
  case (6 fixed pr u)
  show ?case using nest_scan_plain [OF plain_numbers(2) "6.prems"(2), where v = "VUnsigned u"] by (simp del: nest_loop.simps)
next
  case (7 fixed pr a)
  show ?case using nest_scan_plain [OF plain_numbers(3) "7.prems"(2), where v = "VAddress a"] by (simp del: nest_loop.simps)
next
  case (8 fixed pr es)
  then have es: "es \<noteq> []" "rt_elems stof fixed es" by simp_all
  obtain k where k: "nest_loop p (temp @ [AD_ARRAY, AD_AS_LEFT]) False (Suc L) R arr (join fixed es @ AD_AS_RIGHT # rest)
     = nest_loop p ((temp @ [AD_ARRAY, AD_AS_LEFT]) @ join fixed es) False (Suc L + k) (R + k) arr (AD_AS_RIGHT # rest)"
    using "8.IH" [OF es(2), of R "Suc L" "temp @ [AD_ARRAY, AD_AS_LEFT]" "AD_AS_RIGHT # rest"] 8(3) by auto
  have "nest_loop p temp False L R arr (AD_ARRAY # AD_AS_LEFT # join fixed es @ AD_AS_RIGHT # rest)
      = nest_loop p (temp @ AD_ARRAY # AD_AS_LEFT # join fixed es @ [AD_AS_RIGHT]) False (L + Suc k) (R + Suc k) arr rest"
    using k 8(3) by (simp add: Let_def)
  with Deparse_array [OF es, of pr False] show ?case by (intro exI [of _ "Suc k"]) simp
next
  case (10 fixed e es)
  then have e: "rt_elem stof fixed e" and es: "rt_elems stof fixed es" by simp_all
  show ?case
  proof (cases es)
    case Nil
    with "10.IH"(1) [OF _ e "10.prems"(2)] rt_elem_hasData [OF e] show ?thesis by simp
  next
    case (Cons e' es')
    obtain k where k: "nest_loop p temp False L R arr (Deparse fixed e @ AD_SEPERATOR # join fixed es @ rest)
      = nest_loop p (temp @ Deparse fixed e) False (L + k) (R + k) arr (AD_SEPERATOR # join fixed es @ rest)"
      using "10.IH"(1) [OF rt_elem_hasData [OF e] e "10.prems"(2)] by blast
    also have "\<dots> = nest_loop p (temp @ Deparse fixed e @ [AD_SEPERATOR]) False (L + k) (R + k) arr (join fixed es @ rest)"
      using "10.prems"(2) by (simp add: Let_def)
    finally have 1: "nest_loop p temp False L R arr (join fixed (e # es) @ rest)
      = nest_loop p (temp @ Deparse fixed e @ [AD_SEPERATOR]) False (L + k) (R + k) arr (join fixed es @ rest)"
      using Cons by simp
    obtain k' where "nest_loop p (temp @ Deparse fixed e @ [AD_SEPERATOR]) False (L + k) (R + k) arr (join fixed es @ rest)
      = nest_loop p ((temp @ Deparse fixed e @ [AD_SEPERATOR]) @ join fixed es) False (L + k + k') (R + k + k') arr rest"
      using "10.IH"(2) [OF es, of "R + k" "L + k" "temp @ Deparse fixed e @ [AD_SEPERATOR]" rest] "10.prems"(2) by auto
    with 1 Cons show ?thesis by (intro exI [of _ "k + k'"]) (simp add: ac_simps)
  qed
qed (simp_all, intro exI [of _ 0], simp)

section \<open>Scanning flat elements\<close>

text \<open>What the loop does once the text of an element is complete; \<open>x\<close> is the character after it.\<close>

definition flat_done ::
  "(string \<Rightarrow> ad_error + 'f adata) \<Rightarrow> string \<Rightarrow> 'f adata list \<Rightarrow> char \<Rightarrow> string \<Rightarrow>
   ad_error + bool \<times> 'f adata list \<times> string" where
  "flat_done p temp arr x xs =
     bindE (new_element p temp) (\<lambda>d.
       if x = AD_AS_RIGHT
       then (if xs = [] then Inr (True, arr @ [d], []) else Inl (Terminate parseErrorEnd))
       else if xs = [] then Inl (Terminate parseErrorExpected)
       else flat_loop p [] False (arr @ [d]) xs)"

lemma flat_plain:
  "plain t \<Longrightarrow> x = AD_SEPERATOR \<or> x = AD_AS_RIGHT \<Longrightarrow>
   flat_loop p temp False arr (t @ x # xs) = flat_done p (temp @ t) arr x xs"
proof (induction t arbitrary: temp)
  case (Cons c t)
  then have c: "c \<noteq> AD_ARRAY" "c \<noteq> AD_UNIT" by (simp_all add: plain_def)
  show ?case
  proof (cases t)
    case Nil
    with c Cons.prems(2) show ?thesis by (simp add: flat_done_def del: flat_loop.simps add: flat_loop.simps(2) [of _ _ _ _ c])
  next
    case (Cons y ys)
    then have "plain t" "y \<noteq> AD_SEPERATOR" "y \<noteq> AD_AS_RIGHT" using Cons.prems(1) by (simp_all add: plain_def)
    with Cons.IH [of "temp @ [c]"] c Cons Cons.prems(2) show ?thesis
      by (simp del: flat_loop.simps add: flat_loop.simps(2) [of _ _ _ _ c])
  qed
qed (simp add: plain_def)

lemma flat_quoted:
  "AD_UNIT \<notin> set s \<Longrightarrow> AD_ARRAY \<notin> set s \<Longrightarrow> x = AD_SEPERATOR \<or> x = AD_AS_RIGHT \<Longrightarrow>
   flat_loop p temp True arr (s @ AD_UNIT # x # xs) = flat_done p (temp @ s) arr x xs"
proof (induction s arbitrary: temp)
  case Nil
  then show ?case by (simp add: flat_done_def del: flat_loop.simps add: flat_loop.simps(2) [of _ _ _ _ AD_UNIT])
next
  case (Cons c s)
  then have "c \<noteq> AD_ARRAY" "c \<noteq> AD_UNIT" by auto
  with Cons.IH [of "temp @ [c]"] Cons.prems show ?case
    by (simp del: flat_loop.simps add: flat_loop.simps(2) [of _ _ _ _ c])
qed

text \<open>The text handed to the parser of an element: the unit characters are gone.\<close>

definition element_text :: "(u16 option \<Rightarrow> 'f \<Rightarrow> string) \<Rightarrow> 'f adata \<Rightarrow> string" where
  "element_text fixed e =
     (if is_array e then Deparse fixed e else filter (\<lambda>c. c \<noteq> AD_UNIT) (Deparse fixed e))"

lemma plain_filter: "plain t \<Longrightarrow> filter (\<lambda>c. c \<noteq> AD_UNIT) t = t"
  by (auto simp: plain_def filter_id_conv)

lemma flat_scan:
  assumes e: "rt_elem stof fixed e" and "\<not> is_array e" and x: "x = AD_SEPERATOR \<or> x = AD_AS_RIGHT"
  shows "flat_loop p [] False arr (Deparse fixed e @ x # xs) = flat_done p (element_text fixed e) arr x xs"
proof -
  have plain: "flat_loop p [] False arr (c # t @ x # xs) = flat_done p (filter (\<lambda>c. c \<noteq> AD_UNIT) (c # t)) arr x xs"
    if "plain (c # t)" for c t using flat_plain [OF that x, of p "[]" arr xs] plain_filter [OF that] by simp
  have head: "plain (c # t)" if "plain t" "c \<in> {AD_FLOAT, AD_SIGNED, AD_UNSIGNED, AD_ADDRESS}" for c t
    using that by (auto simp: plain_def ad_chars)
  obtain v pr where v: "e = AData v True pr False" "rt_value stof fixed pr v" using e by (cases e) auto
  show ?thesis
  proof (cases v)
    case (VString s)
    then have s: "AD_UNIT \<notin> set s" "AD_ARRAY \<notin> set s" using v by (simp_all add: rt_string_def)
    have "flat_loop p [] False arr (AD_STRING # AD_UNIT # s @ AD_UNIT # x # xs)
        = flat_loop p [AD_STRING] True arr (s @ AD_UNIT # x # xs)"
      by (simp del: flat_loop.simps add: flat_loop.simps(2) [of _ _ _ _ AD_UNIT "s @ AD_UNIT # x # xs"]
          flat_loop.simps(2) [of _ _ _ _ AD_STRING])
    moreover have "filter (\<lambda>c. c \<noteq> AD_UNIT) s = s" using s by (auto simp: filter_id_conv)
    ultimately show ?thesis using flat_quoted [OF s x, of p "[AD_STRING]" arr xs] v(1) VString by (simp add: element_text_def)
  next
    case (VFloat f)
    with v plain [OF head [of "fixed pr f" AD_FLOAT]] show ?thesis by (simp add: element_text_def rt_float_def)
  next
    case (VSigned i)
    with v plain [OF head [OF plain_numbers(1), of AD_SIGNED i]] show ?thesis by (simp add: element_text_def)
  next
    case (VUnsigned u)
    with v plain [OF head [OF plain_numbers(2), of AD_UNSIGNED u]] show ?thesis by (simp add: element_text_def)
  next
    case (VAddress a)
    with v plain [OF head [OF plain_numbers(3), of AD_ADDRESS "unat a"]] show ?thesis by (simp add: element_text_def)
  qed (use v assms(2) in simp_all)
qed

section \<open>Arrays\<close>

lemma rt_elem_type: "rt_elem stof fixed e \<Longrightarrow> ad_GetType e \<noteq> AD_NULL"
proof -
  assume "rt_elem stof fixed e"
  then obtain v pr where "e = AData v True pr False" "rt_value stof fixed pr v" by (cases e) auto
  then show ?thesis by (cases v) (simp_all add: ad_GetType_def ad_chars)
qed

lemma join_Cons: "es \<noteq> [] \<Longrightarrow> join fixed (e # es) = Deparse fixed e @ AD_SEPERATOR # join fixed es"
  by (cases es) simp_all

lemma join_head:
  "es \<noteq> [] \<Longrightarrow> rt_elems stof fixed es \<Longrightarrow> \<exists>c t. join fixed es = c # t \<and> c \<noteq> AD_AS_RIGHT"
proof (cases es)
  case (Cons e es')
  assume "rt_elems stof fixed es"
  then obtain v pr where "Deparse fixed e = value_type v # Deparse_value fixed pr v"
    using Cons by (cases e) auto
  then show ?thesis using Cons by (cases es') auto
qed simp

lemma arr_loop_elems:
  assumes "rt_elems stof fixed es" and "\<forall>e\<in>set es. p (element_text fixed e) = Inr e" and "es \<noteq> []"
  shows "arr_loop p arr (join fixed es @ [AD_AS_RIGHT]) = Inr (arr @ es) \<and>
    bindE (flat_loop p [] False arr (join fixed es @ [AD_AS_RIGHT]))
      (\<lambda>(done, arr, rest). if done then Inr arr else arr_loop p arr rest) = Inr (arr @ es)"
  using assms
proof (induction es arbitrary: arr)
  case (Cons e es)
  then have e: "rt_elem stof fixed e" by simp
  have new: "new_element p (element_text fixed e) = Inr e"
    using Cons.prems(2) rt_elem_type [OF e] by (simp add: new_element_def)
  let ?rest = "if es = [] then [AD_AS_RIGHT] else AD_SEPERATOR # join fixed es @ [AD_AS_RIGHT]"
  have joined: "join fixed (e # es) @ [AD_AS_RIGHT] = Deparse fixed e @ ?rest"
    by (cases es) simp_all
  have IH: "arr_loop p (arr @ [e]) (join fixed es @ [AD_AS_RIGHT]) = Inr (arr @ e # es)"
    "bindE (flat_loop p [] False (arr @ [e]) (join fixed es @ [AD_AS_RIGHT]))
      (\<lambda>(done, arr, rest). if done then Inr arr else arr_loop p arr rest) = Inr (arr @ e # es)" if "es \<noteq> []"
    using Cons.IH [of "arr @ [e]"] Cons.prems that by simp_all
  show ?case
  proof (cases "is_array e")
    case True
    then obtain fs pr where fs: "e = AData (VArray fs) True pr False" "fs \<noteq> []" "rt_elems stof fixed fs"
      using e by (cases e rule: is_array.cases) auto
    let ?body = "join fixed fs @ AD_AS_RIGHT # ?rest"
    have dep: "Deparse fixed e @ ?rest = AD_ARRAY # AD_AS_LEFT # ?body"
      using Deparse_array [OF fs(2,3), of pr False] fs(1) by simp
    obtain k where "nest_loop p [AD_ARRAY, AD_AS_LEFT] False 1 0 arr ?body
      = nest_loop p ([AD_ARRAY, AD_AS_LEFT] @ join fixed fs) False (1 + k) (0 + k) arr (AD_AS_RIGHT # ?rest)"
      using nest_scan(3) [OF fs(3), of 0 1 p "[AD_ARRAY, AD_AS_LEFT]" arr "AD_AS_RIGHT # ?rest"] by auto
    also have "\<dots> = bindE (new_element p (element_text fixed e)) (\<lambda>d. bindE (after_nested ?rest) (\<lambda>rest. Inr (arr @ [d], rest)))"
      using Deparse_array [OF fs(2,3), of pr False] fs(1) by (simp add: Let_def element_text_def)
    also have "\<dots> = bindE (after_nested ?rest) (\<lambda>rest. Inr (arr @ [e], rest))" using new by simp
    finally have nest: "nest_loop p [AD_ARRAY, AD_AS_LEFT] False 1 0 arr ?body
      = bindE (after_nested ?rest) (\<lambda>rest. Inr (arr @ [e], rest))" .
    have after: "after_nested ?rest = Inr (if es = [] then [] else join fixed es @ [AD_AS_RIGHT])"
    proof (cases "es = []")
      case False
      with join_head [of es stof fixed] Cons.prems(1) obtain c t where "join fixed es = c # t" "c \<noteq> AD_AS_RIGHT" by auto
      with False show ?thesis by simp
    qed simp
    have "arr_loop p arr (Deparse fixed e @ ?rest)
        = bindE (nest_loop p [AD_ARRAY, AD_AS_LEFT] False 1 0 arr ?body) (\<lambda>(arr, rest). arr_loop p arr rest)"
      unfolding dep arr_loop.simps [of p arr "AD_ARRAY # AD_AS_LEFT # ?body"] by simp
    also have "\<dots> = Inr (arr @ e # es)"
      unfolding nest after using IH(1) by (cases "es = []") (simp_all add: arr_loop.simps [of p _ "[]"])
    finally have A: "arr_loop p arr (Deparse fixed e @ ?rest) = Inr (arr @ e # es)" .
    have "flat_loop p [] False arr (Deparse fixed e @ ?rest) = Inr (False, arr, Deparse fixed e @ ?rest)"
      unfolding dep by simp
    with A show ?thesis unfolding joined by simp
  next
    case False
    have B: "bindE (flat_loop p [] False arr (Deparse fixed e @ ?rest))
      (\<lambda>(done, arr, rest). if done then Inr arr else arr_loop p arr rest) = Inr (arr @ e # es)"
    proof (cases "es = []")
      case True
      with flat_scan [OF e False, of AD_AS_RIGHT p arr "[]"] new show ?thesis by (simp add: flat_done_def)
    next
      case es: False
      with flat_scan [OF e False, of AD_SEPERATOR p arr "join fixed es @ [AD_AS_RIGHT]"] new IH(2)
      show ?thesis by (simp add: flat_done_def)
    qed
    obtain v pr where v: "e = AData v True pr False" using e by (cases e) auto
    then have "value_type v \<noteq> AD_ARRAY" using False by (auto simp: value_type_array)
    moreover have "Deparse fixed e @ ?rest = value_type v # Deparse_value fixed pr v @ ?rest" using v by simp
    ultimately have "arr_loop p arr (Deparse fixed e @ ?rest) = bindE (flat_loop p [] False arr (Deparse fixed e @ ?rest))
      (\<lambda>(done, arr, rest). if done then Inr arr else arr_loop p arr rest)"
      by (simp only: arr_loop.simps [of p arr "value_type v # Deparse_value fixed pr v @ ?rest"] list.case if_False)
    with B show ?thesis unfolding joined by simp
  qed
qed simp

lemma parse_new_simps:
  assumes "r \<noteq> []"
  shows "parse_new stof (AD_STRING # r) = Inr (AData (VString r) True None False)"
    and "parse_new stof (AD_FLOAT # r) = (case stof r of Inl e \<Rightarrow> Inl (Throws e)
          | Inr f \<Rightarrow> Inr (AData (VFloat f) True (Some (ucast (DecimalPlaces r))) False))"
    and "parse_new stof (AD_SIGNED # r) = (case stoll r of Inl e \<Rightarrow> Inl (Throws e)
          | Inr i \<Rightarrow> Inr (AData (VSigned i) True None False))"
    and "parse_new stof (AD_UNSIGNED # r) = (case stoull r of Inl e \<Rightarrow> Inl (Throws e)
          | Inr u \<Rightarrow> Inr (AData (VUnsigned u) True None False))"
    and "parse_new stof (AD_ADDRESS # r) = Inr (AData (VAddress (stream_hex r)) True None False)"
  unfolding parse_new_def BuildData.simps [of stof "_ # r"]
  using assms by (auto simp: ad_store_def ad_new_def ad_chars split: sum.split)

lemma parse_new_array:
  "parse_new stof (AD_ARRAY # AD_AS_LEFT # r) =
     bindE (arr_loop (parse_new stof) [] r) (\<lambda>arr. Inr (AData (VArray arr) True None False))"
proof -
  have "parse_new stof (AD_ARRAY # AD_AS_LEFT # r) =
    bindE (BuildData stof (AD_ARRAY # AD_AS_LEFT # r)) (\<lambda>(v, pr). Inr (ad_store v pr ad_new))"
    by (simp add: parse_new_def)
  then show ?thesis by (simp add: BuildData_array bindE_assoc ad_store_def ad_new_def)
qed

lemma parse_scalar:
  assumes "rt_value stof fixed pr v" and "\<not> (\<exists>es. v = VArray es)"
  shows "parse_new stof (element_text fixed (AData v True pr False)) = Inr (AData v True pr False)"
proof -
  have num: "filter (\<lambda>c. c \<noteq> AD_UNIT) t = t" "t \<noteq> []" if "plain t" for t
    using plain_filter [OF that] that by (simp_all add: plain_def)
  show ?thesis
  proof (cases v)
    case (VString s)
    with assms have "filter (\<lambda>c. c \<noteq> AD_UNIT) s = s" "s \<noteq> []" "pr = None"
      by (auto simp: rt_string_def filter_id_conv)
    with VString show ?thesis by (simp add: element_text_def parse_new_simps)
  next
    case (VFloat f)
    with assms have "stof (fixed pr f) = Inr f" "pr = Some (ucast (DecimalPlaces (fixed pr f)))" "plain (fixed pr f)"
      by (simp_all add: rt_float_def)
    with VFloat num [of "fixed pr f"] parse_new_simps(2) [of "fixed pr f" stof] value_type_plain(1) [of "VFloat f"]
    show ?thesis by (simp add: element_text_def del: value_type_plain)
  next
    case (VSigned i)
    with assms num [OF plain_numbers(1), of i] parse_new_simps(3) [of "show_i64 i" stof] value_type_plain(1) [of "VSigned i"]
    show ?thesis by (simp add: element_text_def stoll_show del: value_type_plain)
  next
    case (VUnsigned u)
    with assms num [OF plain_numbers(2), of u] parse_new_simps(4) [of "show_u64 u" stof] value_type_plain(1) [of "VUnsigned u"]
    show ?thesis by (simp add: element_text_def stoull_show del: value_type_plain)
  next
    case (VAddress a)
    with assms num [OF plain_numbers(3), of "unat a"] parse_new_simps(5) [of "show_hex (unat a)" stof]
      value_type_plain(1) [of "VAddress a"]
    show ?thesis by (simp add: element_text_def stream_hex_show del: value_type_plain)
  qed (use assms in simp_all)
qed

lemma parse_element:
  "rt_elem stof fixed e \<Longrightarrow> parse_new stof (element_text fixed e) = Inr e"
  "rt_value stof fixed pr v \<Longrightarrow>
     parse_new stof (element_text fixed (AData v True pr False)) = Inr (AData v True pr False)"
  "rt_elems stof fixed es \<Longrightarrow> \<forall>e\<in>set es. parse_new stof (element_text fixed e) = Inr e"
proof (induction fixed e and fixed pr v and fixed es rule: Deparse_Deparse_value_Deparse_elements.induct)
  case (8 fixed pr es)
  then have es: "es \<noteq> []" "rt_elems stof fixed es" "pr = None" by simp_all
  have "element_text fixed (AData (VArray es) True pr False) = AD_ARRAY # AD_AS_LEFT # join fixed es @ [AD_AS_RIGHT]"
    using Deparse_array [OF es(1,2)] by (simp add: element_text_def)
  then show ?case
    using arr_loop_elems [OF es(2) "8.IH" [OF es(2)] es(1), of "[]"] es(3) by (simp add: parse_new_array)
next
  case (3 fixed pr x)
  then show ?case by (intro parse_scalar) simp_all
next
  case (4 fixed pr x)
  then show ?case by (intro parse_scalar) simp_all
next
  case (5 fixed pr x)
  then show ?case by (intro parse_scalar) simp_all
next
  case (6 fixed pr x)
  then show ?case by (intro parse_scalar) simp_all
next
  case (7 fixed pr x)
  then show ?case by (intro parse_scalar) simp_all
qed (use rt_elem_hasData in \<open>auto\<close>)

lemma parse_array_text:
  assumes "es \<noteq> []" and "rt_elems stof fixed es"
  shows "ad_ParseArmaData stof (AD_ARRAY # AD_AS_LEFT # join fixed es @ [AD_AS_RIGHT]) ad_new
    = Inr (True, AData (VArray es) True None False)"
proof -
  have "\<forall>e\<in>set es. parse_new stof (element_text fixed e) = Inr e" using assms(2) by (rule parse_element(3))
  from arr_loop_elems [OF assms(2) this assms(1), of "[]"]
  show ?thesis
    by (simp add: ad_ParseArmaData_def ad_ParseData_def BuildData_array ad_store_def) (simp add: ad_new_def)
qed

lemma flat_quoted_at:
  "AD_UNIT \<notin> set s \<Longrightarrow> AD_ARRAY \<notin> set s \<Longrightarrow>
   flat_loop p temp True arr (s @ AD_ARRAY # rest) = Inr (False, arr, AD_ARRAY # rest)"
proof (induction s arbitrary: temp)
  case (Cons c s)
  then have "c \<noteq> AD_ARRAY" "c \<noteq> AD_UNIT" by auto
  with Cons show ?case by (simp del: flat_loop.simps add: flat_loop.simps(2) [of _ _ _ _ c])
qed simp

lemma flat_open_string:
  assumes "t \<noteq> []"
  shows "flat_loop p [] False arr (AD_STRING # AD_UNIT # t) = flat_loop p [AD_STRING] True arr t"
  using assms
  by (simp del: flat_loop.simps add: flat_loop.simps(2) [of _ _ _ _ AD_UNIT t] flat_loop.simps(2) [of _ _ _ _ AD_STRING])

section \<open>Properties\<close>

text \<open>
  C22: Parsing inverts printing for arrays: the text of an array, not empty, of elements that survive
  (strings that are not empty and hold neither \<open>@\<close> nor the unit character, integers of either kind,
  addresses, floats whose text denotes them, nested arrays of these) is parsed back to the array,
  whatever the strings hold otherwise, separators and brackets included.
\<close>

theorem array_roundtrip:
  assumes "es \<noteq> []" and "rt_elems stof fixed es"
  shows "ad_ParseArmaData stof (snd (ad_DeparseArmaData fixed (AData (VArray es) True None False) [])) ad_new
    = Inr (True, AData (VArray es) True None False)"
  using parse_array_text [OF assms] Deparse_array [OF assms] by (simp add: ad_DeparseArmaData_def)

definition example_fixed :: "u16 option \<Rightarrow> string \<Rightarrow> string" where
  "example_fixed pr f = f"

definition example_elements :: "string adata list" where
  "example_elements =
     [AData (VString ''a,b]'') True None False, AData (VSigned (- 100)) True None False,
      AData (VFloat ''45.5'') True (Some 1) False,
      AData (VArray [AData (VAddress 255) True None False, AData (VString ''['') True None False]) True None False]"

lemma array_roundtrip_witness:
  "ad_ParseArmaData Inr (snd (ad_DeparseArmaData example_fixed (AData (VArray example_elements) True None False) []))
     ad_new = Inr (True, AData (VArray example_elements) True None False)"
proof (rule array_roundtrip)
  show "rt_elems Inr example_fixed example_elements"
    by (simp add: example_elements_def example_fixed_def rt_string_def rt_float_def plain_def ad_chars DecimalPlaces_def)
qed (simp add: example_elements_def)

lemma am_ParseArmaData_call:
  assumes "es \<noteq> []" and "rt_elems stof fixed es" and "name \<noteq> []" and "AD_SEPERATOR \<notin> set name"
    and "hd name \<notin> {AD_STRING, AD_FLOAT, AD_SIGNED, AD_UNSIGNED, AD_ADDRESS, AD_ARRAY}"
  shows "am_ParseArmaData stof (name @ AD_SEPERATOR # AD_ARRAY # AD_AS_LEFT # join fixed es @ [AD_AS_RIGHT]) am_new =
    Inr (True, \<lparr>am_name = name, am_hasFunc = True, am_data = AData (VArray es) True None False\<rparr>)"
proof -
  let ?arr = "AD_ARRAY # AD_AS_LEFT # join fixed es @ [AD_AS_RIGHT]"
  obtain c cs where name: "name = c # cs" using assms(3) by (cases name) auto
  have take: "takeWhile (\<lambda>c. c \<noteq> AD_SEPERATOR) (name @ AD_SEPERATOR # ?arr) = name"
    "dropWhile (\<lambda>c. c \<noteq> AD_SEPERATOR) (name @ AD_SEPERATOR # ?arr) = AD_SEPERATOR # ?arr"
    using assms(4) by (induction name) auto
  have "ad_ParseData stof w ?arr ad_new = ad_ParseArmaData stof ?arr ad_new" if "w \<noteq> []" for w
    using that by (simp add: ad_ParseData_def ad_ParseArmaData_def)
  then have data: "ad_ParseData stof w ?arr ad_new = Inr (True, AData (VArray es) True None False)" if "w \<noteq> []" for w
    using that assms(1,2) parse_array_text [OF assms(1,2)] by simp
  show ?thesis
    using take data assms(5) name by (simp add: am_ParseArmaData_def am_new_def Let_def)
qed

text \<open>
  C19: A function call survives too: a message with a name (not empty, without separator, not starting
  with a type character) and an array of elements that survive is printed as name, comma, array and
  parsed back to the same message.
\<close>

theorem message_roundtrip:
  assumes "es \<noteq> []" and "rt_elems stof fixed es" and "name \<noteq> []" and "AD_SEPERATOR \<notin> set name"
    and "hd name \<notin> {AD_STRING, AD_FLOAT, AD_SIGNED, AD_UNSIGNED, AD_ADDRESS, AD_ARRAY}"
  shows "am_ParseArmaData stof
      (snd (am_DeparseArmaData fixed \<lparr>am_name = name, am_hasFunc = True, am_data = AData (VArray es) True None False\<rparr> []))
      am_new = Inr (True, \<lparr>am_name = name, am_hasFunc = True, am_data = AData (VArray es) True None False\<rparr>)"
proof -
  have "snd (am_DeparseArmaData fixed \<lparr>am_name = name, am_hasFunc = True, am_data = AData (VArray es) True None False\<rparr> [])
      = name @ AD_SEPERATOR # AD_ARRAY # AD_AS_LEFT # join fixed es @ [AD_AS_RIGHT]"
    using Deparse_array [OF assms(1,2)] by (simp add: am_DeparseArmaData_def ad_DeparseArmaData_def)
  then show ?thesis using am_ParseArmaData_call [OF assms] by (simp only:)
qed

lemma message_roundtrip_witness:
  "am_ParseArmaData Inr
      (snd (am_DeparseArmaData example_fixed
        \<lparr>am_name = ''Connect'', am_hasFunc = True, am_data = AData (VArray example_elements) True None False\<rparr> []))
      am_new = Inr (True, \<lparr>am_name = ''Connect'', am_hasFunc = True,
                       am_data = AData (VArray example_elements) True None False\<rparr>)"
proof (rule message_roundtrip)
  show "rt_elems Inr example_fixed example_elements"
    by (simp add: example_elements_def example_fixed_def rt_string_def rt_float_def plain_def ad_chars DecimalPlaces_def)
qed (simp_all add: example_elements_def ad_chars)

text \<open>
  A string element that contains an \<open>@\<close> ends the process: the loop over flat elements stops at an
  \<open>@\<close> even between unit characters, and unless a bracket follows, the parser reports missing data
  and terminates, whatever comes after.
\<close>

lemma at_sign_in_string_terminates:
  assumes "AD_UNIT \<notin> set s" and "AD_ARRAY \<notin> set s" and "rest \<noteq> []" and "hd rest \<noteq> AD_AS_LEFT"
  shows "ad_ParseArmaData stof (AD_ARRAY # AD_AS_LEFT # AD_STRING # AD_UNIT # s @ AD_ARRAY # rest) d
    = Inl (Terminate parseErrorExpected)"
proof -
  obtain x xs where rest: "rest = x # xs" "x \<noteq> AD_AS_LEFT" using assms(3,4) by (cases rest) auto
  have "arr_loop p [] (AD_STRING # AD_UNIT # s @ AD_ARRAY # rest) = Inl (Terminate parseErrorExpected)"
    for p :: "string \<Rightarrow> ad_error + 'a adata"
    using flat_open_string [of "s @ AD_ARRAY # rest" p "[]"] flat_quoted_at [OF assms(1,2), of p "[AD_STRING]" "[]" rest]
      rest arr_loop.simps [of p "[]" "AD_ARRAY # x # xs"]
    by (simp add: arr_loop.simps [of p "[]" "AD_STRING # _"])
  then show ?thesis by (simp add: ad_ParseArmaData_def ad_ParseData_def BuildData_array Let_def)
qed

lemma at_sign_in_string_terminates_witness:
  "ad_ParseArmaData (Inr :: string \<Rightarrow> std_exc + string)
     (AD_ARRAY # AD_AS_LEFT # AD_STRING # AD_UNIT # ''joe'' @ AD_ARRAY # ''home'' @ [AD_UNIT, AD_AS_RIGHT]) ad_new
   = Inl (Terminate parseErrorExpected)"
  by (rule at_sign_in_string_terminates) (simp_all add: ad_chars)

text \<open>
  C36: What the printer writes is not always accepted: an empty string as an element ends the process, an
  array that prints no element at all is read past its end, and a string that is not in an array
  comes back with its two unit characters.
\<close>

theorem printed_text_not_read_back:
  "ad_ParseArmaData stof (snd (ad_DeparseArmaData fixed
       (AData (VArray [AData (VString []) True None False]) True None False) [])) d = Inl (Terminate parseErrorType) \<and>
   ad_ParseArmaData stof (snd (ad_DeparseArmaData fixed (AData (VArray []) True None False) [])) d = Inl EndDeref \<and>
   ad_ParseArmaData stof (snd (ad_DeparseArmaData fixed (AData (VString s) True None False) [])) ad_new
     = Inr (True, AData (VString (AD_UNIT # s @ [AD_UNIT])) True None False)"
proof (intro conjI)
  have flat: "flat_loop p [AD_STRING] True [] [AD_UNIT, AD_AS_RIGHT] = flat_done p [AD_STRING] [] AD_AS_RIGHT []"
    for p :: "string \<Rightarrow> ad_error + 'a adata"
    using flat_quoted [of "[]" AD_AS_RIGHT p "[AD_STRING]" "[]" "[]"] by simp
  have new: "new_element (parse_new stof) [AD_STRING] = Inl (Terminate parseErrorType)"
    by (simp add: new_element_def parse_new_def BuildData.simps [of stof "[AD_STRING]"])
  have "arr_loop (parse_new stof) [] [AD_STRING, AD_UNIT, AD_UNIT, AD_AS_RIGHT] = Inl (Terminate parseErrorType)"
    using flat_open_string [of "[AD_UNIT, AD_AS_RIGHT]" "parse_new stof" "[]"] flat [of "parse_new stof"] new
    by (simp add: arr_loop.simps [of _ "[]" "AD_STRING # _"] flat_done_def)
  then show "ad_ParseArmaData stof (snd (ad_DeparseArmaData fixed
       (AData (VArray [AData (VString []) True None False]) True None False) [])) d = Inl (Terminate parseErrorType)"
    by (simp add: ad_DeparseArmaData_def ad_ParseArmaData_def ad_ParseData_def BuildData_array Let_def)
  have "flat_loop p [] False [] [AD_AS_RIGHT] = Inl EndDeref" for p :: "string \<Rightarrow> ad_error + 'a adata"
    by simp
  then have "arr_loop (parse_new stof) [] [AD_AS_RIGHT] = Inl EndDeref"
    by (simp add: arr_loop.simps [of _ "[]" "[AD_AS_RIGHT]"] del: flat_loop.simps)
  then show "ad_ParseArmaData stof (snd (ad_DeparseArmaData fixed (AData (VArray []) True None False) [])) d = Inl EndDeref"
    by (simp add: ad_DeparseArmaData_def ad_ParseArmaData_def ad_ParseData_def BuildData_array Let_def)
  have "BuildData stof (AD_STRING # AD_UNIT # s @ [AD_UNIT]) = Inr (VString (AD_UNIT # s @ [AD_UNIT]), None)"
    by (simp add: BuildData.simps [of stof "AD_STRING # _"])
  then show "ad_ParseArmaData stof (snd (ad_DeparseArmaData fixed (AData (VString s) True None False) [])) ad_new
     = Inr (True, AData (VString (AD_UNIT # s @ [AD_UNIT])) True None False)"
    by (simp add: ad_DeparseArmaData_def ad_ParseArmaData_def ad_ParseData_def ad_store_def ad_new_def)
qed

end
