(* ===== verification/Session_Runs.thy ===== *)
theory Session_Runs
  imports Session_Props Arma_Roundtrip
begin

text \<open>
  Runs of the sessions. \<open>schedule\<close> lets the threads of several sessions take steps in a given order; a
  thread that waits is passed over, a failure ends the process. The theorems: the account is reported
  in a text the parser reads back, a session whose first connection cannot be made crashes, and as many
  sessions as the pool has connections can wait for each other for ever.
\<close>

fun schedule ::
  "('w, 'con, 'st, 'rs) sql \<Rightarrow> 'w clib \<Rightarrow> nat list \<Rightarrow> 'f session list \<Rightarrow> ('f, 'w, 'con, 'st) world \<Rightarrow>
   (failure + 'f session list) \<times> ('f, 'w, 'con, 'st) world" where
  "schedule d cl [] sss wd = (Inr sss, wd)"
| "schedule d cl (i # order) sss wd =
     (if i < length sss
      then (case session_step d cl (sss ! i) wd of
              None \<Rightarrow> schedule d cl order sss wd
            | Some (Inl e, wd) \<Rightarrow> (Inl e, wd)
            | Some (Inr ss, wd) \<Rightarrow> schedule d cl order (sss[i := ss]) wd)
      else schedule d cl order sss wd)"

lemma schedule_append:
  "schedule d cl (order1 @ order2) sss wd =
     (case schedule d cl order1 sss wd of (Inl e, wd) \<Rightarrow> (Inl e, wd) | (Inr sss, wd) \<Rightarrow> schedule d cl order2 sss wd)"
  by (induction order1 arbitrary: sss wd) (auto split: option.split prod.split sum.split)

section \<open>Sessions that wait for each other\<close>

definition no_mail :: "'f session \<Rightarrow> ('f, 'w, 'con, 'st) world \<Rightarrow> bool" where
  "no_mail ss wd \<longleftrightarrow>
     receiveMsg False (ss_hive ss) (wd_elem wd) = Some (Inr (False, None, ss_hive ss, wd_elem wd))"

definition waits :: "('f, 'w, 'con, 'st) world \<Rightarrow> 'f session \<Rightarrow> bool" where
  "waits wd ss \<longleftrightarrow> ss_pc ss \<in> {PBorrow, PBorrow2, PPoll} \<and> ss_retry ss \<and> ss_stable ss \<and> no_mail ss wd"

definition starved :: "('f, 'w, 'con, 'st) world \<Rightarrow> bool" where
  "starved wd \<longleftrightarrow> (\<exists>p. wd_pool wd = Some p \<and> pool_ok conn_alive p (wd_conns wd, wd_out wd) \<and>
     cp_pool p = [] \<and> (\<forall>c\<in>set (cp_borrowed p). wd_refs wd c \<noteq> 0))"

lemma starved_borrow:
  assumes "starved wd"
  shows "w_borrow d wd = (Inl (Thrown ConnectionUnavailable), wd)"
proof -
  from assms obtain p where p: "wd_pool wd = Some p" "pool_ok conn_alive p (wd_conns wd, wd_out wd)" "cp_pool p = []"
    "\<forall>c\<in>set (cp_borrowed p). wd_refs wd c \<noteq> 0" by (auto simp: starved_def)
  from p(4) have "find (\<lambda>c. wd_refs wd c = 0) (cp_borrowed p) = None" by (simp add: find_None_iff)
  with p(1,3) borrow_abandoned [OF p(2,3)] show ?thesis by (simp add: w_borrow_def)
qed

lemma waits_step:
  assumes "waits wd ss" and "starved wd"
  shows "\<exists>ss'. session_step d cl ss wd = Some (Inr ss', wd) \<and> waits wd ss'"
proof -
  have "waits wd (caught ConnectionUnavailable ss)" "waits wd (ss\<lparr>ss_pc := PBorrow\<rparr>)"
    using assms(1) by (simp_all add: waits_def caught_def no_mail_def)
  with assms(1) show ?thesis
    by (auto simp: waits_def session_step_def step_borrow_def step_borrow2_def step_poll_def ss_receive_def goto_def
        no_mail_def starved_borrow [OF assms(2)])
qed

lemma waits_schedule:
  assumes "starved wd" and "\<forall>ss\<in>set sss. waits wd ss"
  shows "\<exists>sss'. schedule d cl order sss wd = (Inr sss', wd) \<and> length sss' = length sss \<and> (\<forall>ss\<in>set sss'. waits wd ss)"
  using assms(2)
proof (induction order arbitrary: sss)
  case (Cons i order)
  show ?case
  proof (cases "i < length sss")
    case True
    with Cons.prems have "waits wd (sss ! i)" by simp
    from waits_step [OF this assms(1)] obtain ss' where
      step: "session_step d cl (sss ! i) wd = Some (Inr ss', wd)" "waits wd ss'" by blast
    from step(2) Cons.prems have "\<forall>ss\<in>set (sss[i := ss']). waits wd ss"
      using set_update_subset_insert [of sss i ss'] by blast
    from Cons.IH [OF this] True step(1) show ?thesis by simp
  qed (use Cons in simp)
qed simp

text \<open>The first round: each session takes one connection.\<close>

definition with_first :: "'f session \<Rightarrow> addr \<Rightarrow> 'f session" where
  "with_first ss c = ss\<lparr>ss_opflcon := Some c, ss_pc := PBorrow2\<rparr>"

lemma first_borrow:
  assumes "ss_pc ss = PBorrow" and "ss_opflcon ss = None" and "wd_pool wd = Some p" and "cp_pool p = c # cs"
  shows "session_step d cl ss wd = Some (Inr (with_first ss c),
    wd\<lparr>wd_pool := Some (p\<lparr>cp_pool := cs, cp_borrowed := set_insert c (cp_borrowed p)\<rparr>),
       wd_refs := (wd_refs wd)(c := wd_refs wd c + 1)\<rparr>)"
  using assms
  by (simp add: session_step_def step_borrow_def w_borrow_def borrow_Cons goto_def reassign_def retain_def
      release_def with_first_def)

lemma first_round:
  assumes "\<forall>ss\<in>set sss. ss_pc ss = PBorrow \<and> ss_opflcon ss = None" and "wd_pool wd = Some p"
    and "pool_ok conn_alive p (wd_conns wd, wd_out wd)" and "cp_borrowed p = []" and "length (cp_pool p) = length sss"
    and "k \<le> length sss"
  shows "\<exists>q wd'. schedule d cl [0..<k] sss wd = (Inr (map2 with_first (take k sss) (take k (cp_pool p)) @ drop k sss), wd') \<and>
    wd_pool wd' = Some q \<and> pool_ok conn_alive q (wd_conns wd', wd_out wd') \<and> cp_pool q = drop k (cp_pool p) \<and>
    (\<forall>c\<in>set (cp_borrowed q). wd_refs wd' c \<noteq> 0) \<and> wd_elem wd' = wd_elem wd"
  using assms(6)
proof (induction k)
  case 0
  with assms(2-4) show ?case by simp
next
  case (Suc k)
  then obtain q wd' where IH: "schedule d cl [0..<k] sss wd =
      (Inr (map2 with_first (take k sss) (take k (cp_pool p)) @ drop k sss), wd')"
    "wd_pool wd' = Some q" "pool_ok conn_alive q (wd_conns wd', wd_out wd')" "cp_pool q = drop k (cp_pool p)"
    "\<forall>c\<in>set (cp_borrowed q). wd_refs wd' c \<noteq> 0" "wd_elem wd' = wd_elem wd" by auto
  let ?sss = "map2 with_first (take k sss) (take k (cp_pool p)) @ drop k sss"
  let ?c = "cp_pool p ! k" and ?q = "q\<lparr>cp_pool := drop (Suc k) (cp_pool p), cp_borrowed := set_insert (cp_pool p ! k) (cp_borrowed q)\<rparr>"
  from Suc.prems assms(5) have k: "k < length sss" "k < length (cp_pool p)" by simp_all
  then have nth: "?sss ! k = sss ! k" "length ?sss = length sss" by (simp_all add: nth_append min_def)
  have first: "cp_pool q = ?c # drop (Suc k) (cp_pool p)" using IH(4) k(2) by (simp add: Cons_nth_drop_Suc)
  from k(1) assms(1) have "ss_pc (?sss ! k) = PBorrow" "ss_opflcon (?sss ! k) = None" by (simp_all add: nth)
  from first_borrow [OF this IH(2) first, of d cl]
  have step: "session_step d cl (?sss ! k) wd' = Some (Inr (with_first (sss ! k) ?c),
      wd'\<lparr>wd_pool := Some ?q, wd_refs := (wd_refs wd')(?c := wd_refs wd' ?c + 1)\<rparr>)" by (simp only: nth)
  have upd: "?sss[k := with_first (sss ! k) ?c]
      = map2 with_first (take (Suc k) sss) (take (Suc k) (cp_pool p)) @ drop (Suc k) sss"
    using k by (simp add: list_update_append min_def take_Suc_conv_app_nth Cons_nth_drop_Suc [symmetric])
  have "pool_ok conn_alive ?q (wd_conns wd', wd_out wd')"
    using IH(3) first by (auto simp: pool_ok_def length_set_insert)
  moreover let ?wd = "wd'\<lparr>wd_pool := Some ?q, wd_refs := (wd_refs wd')(?c := wd_refs wd' ?c + 1)\<rparr>"
  have "schedule d cl [k] ?sss wd' = (Inr (?sss[k := with_first (sss ! k) ?c]), ?wd)"
    using step nth k(1) by simp
  then have "schedule d cl [0..<Suc k] sss wd =
      (Inr (map2 with_first (take (Suc k) sss) (take (Suc k) (cp_pool p)) @ drop (Suc k) sss), ?wd)"
    unfolding upd using IH(1) by (simp add: schedule_append del: schedule.simps(2))
  ultimately show ?case
    using IH(5,6) by (intro exI [of _ ?q] exI [of _ ?wd]) simp
qed

text \<open>
  C27: As many sessions as the pool has connections can wait for ever. Each session needs two connections and
  keeps the first while it waits for the second: if they all take their first connection before one
  takes its second, then in every order in which they go on afterwards none ever leaves the loop,
  until a message tells it to.
\<close>

theorem sessions_wait_forever:
  assumes "\<forall>ss\<in>set sss. ss_pc ss = PBorrow \<and> ss_opflcon ss = None \<and> ss_retry ss \<and> ss_stable ss \<and> no_mail ss wd"
    and "wd_pool wd = Some p" and "pool_ok conn_alive p (wd_conns wd, wd_out wd)" and "cp_borrowed p = []"
    and "length (cp_pool p) = length sss"
  shows "\<exists>sss' wd'. schedule d cl ([0..<length sss] @ order) sss wd = (Inr sss', wd') \<and> length sss' = length sss \<and>
    (\<forall>ss\<in>set sss'. ss_pc ss \<in> {PBorrow, PBorrow2, PPoll} \<and> ss_retry ss)"
proof -
  have start: "\<forall>ss\<in>set sss. ss_pc ss = PBorrow \<and> ss_opflcon ss = None" using assms(1) by blast
  from first_round [OF start assms(2-5) order_refl, of d cl] assms(5) obtain q wd' where
    round: "schedule d cl [0..<length sss] sss wd = (Inr (map2 with_first sss (cp_pool p)), wd')"
    "wd_pool wd' = Some q" "pool_ok conn_alive q (wd_conns wd', wd_out wd')" "cp_pool q = []"
    "\<forall>c\<in>set (cp_borrowed q). wd_refs wd' c \<noteq> 0" "wd_elem wd' = wd_elem wd" by auto
  then have "starved wd'" by (auto simp: starved_def)
  moreover have "waits wd' (with_first ss c)" if "ss \<in> set sss" for ss c
    using assms(1) that round(6) by (auto simp: waits_def with_first_def no_mail_def)
  then have "\<forall>ss\<in>set (map2 with_first sss (cp_pool p)). waits wd' ss" by (auto dest: set_zip_leftD)
  ultimately obtain sss' where "schedule d cl order (map2 with_first sss (cp_pool p)) wd' = (Inr sss', wd')"
    "length sss' = length sss" "\<forall>ss\<in>set sss'. waits wd' ss"
    using waits_schedule [of wd' "map2 with_first sss (cp_pool p)" d cl order] assms(5) by auto
  with round(1) show ?thesis by (auto simp: schedule_append waits_def)
qed

text \<open>The smallest server: one handle in each registry, one connection, one session.\<close>

definition demo_registry :: "string \<Rightarrow> ('m, callback) registry" where
  "demo_registry name =
     \<lparr>rg_i = 6, rg_threadCount = 1, rg_head = Some 0, rg_tail = Some 0,
      rg_mem = [Some ((mkThreadHandle 0 name)\<lparr>th_msgQueue := Some hqc_new, th_shares := 1, th_running := True,
                   th_hiveThread := True\<rparr>)]\<rparr>"

definition demo_hive :: "'m hive" where
  "demo_hive = \<lparr>hv_myThreadHandle = Some 0, hv_currentMsg = None, hv_isMain = True\<rparr>"

definition demo_world :: "addr pool \<Rightarrow> (unit, mem_db, unit, unit) world" where
  "demo_world p =
     \<lparr>wd_elem = demo_registry ''in'', wd_str = demo_registry ''CLEANUP_O'', wd_pool = Some p, wd_refs = (\<lambda>_. 0),
      wd_conns = [Some (Some mem_connection)], wd_out = mem_db0\<rparr>"

definition demo_session :: "unit session" where
  "demo_session = (session_new mem_account demo_hive)\<lparr>ss_pc := PBorrow\<rparr>"

lemma demo_no_mail: "no_mail demo_session (demo_world p)"
  by (simp add: no_mail_def demo_session_def session_new_def demo_world_def demo_registry_def demo_hive_def
      receiveMsg_def loadMsg_def queue_of_def hqc_size_def hqc_new_def mkThreadHandle_def deref_def node_at_def)

lemma demo_pool_ok:
  "pool_ok conn_alive \<lparr>cp_pool_size = 1, cp_pool = [0], cp_borrowed = []\<rparr> ([Some (Some mem_connection)], mem_db0)"
  "pool_ok conn_alive \<lparr>cp_pool_size = 1, cp_pool = [], cp_borrowed = [0]\<rparr> ([Some (Some mem_connection)], mem_db0)"
  by (simp_all add: pool_ok_def conn_alive_def node_at_def sound_con_def mem_connection_def)

lemma sessions_wait_forever_witness:
  "\<exists>sss' wd'. schedule mem_sql (calendar_clib dt_epoch) [0, 0, 0, 0, 0] [demo_session]
     (demo_world \<lparr>cp_pool_size = 1, cp_pool = [0], cp_borrowed = []\<rparr>) = (Inr sss', wd') \<and> length sss' = 1 \<and>
     (\<forall>ss\<in>set sss'. ss_pc ss \<in> {PBorrow, PBorrow2, PPoll} \<and> ss_retry ss)"
proof -
  let ?p = "\<lparr>cp_pool_size = 1, cp_pool = [0], cp_borrowed = []\<rparr> :: addr pool"
  have "\<forall>ss\<in>set [demo_session]. ss_pc ss = PBorrow \<and> ss_opflcon ss = None \<and> ss_retry ss \<and> ss_stable ss \<and>
      no_mail ss (demo_world ?p)"
    using demo_no_mail by (simp add: demo_session_def session_new_def)
  moreover have "wd_pool (demo_world ?p) = Some ?p"
    "pool_ok conn_alive ?p (wd_conns (demo_world ?p), wd_out (demo_world ?p))"
    using demo_pool_ok(1) by (simp_all add: demo_world_def)
  ultimately show ?thesis
    using sessions_wait_forever [of "[demo_session]" "demo_world ?p" ?p mem_sql "calendar_clib dt_epoch" "[0, 0, 0, 0]"]
    by simp
qed

section \<open>A connection that cannot be made\<close>

lemma load_account_unstable:
  assumes "\<not> ss_stable ss"
  shows "\<exists>b. load_account d cl ss s = (Inr (ss\<lparr>ss_stable := False, ss_isBanned := b\<rparr>), s)"
  using assms
  by (cases s) (simp add: load_account_def Let_def whenStable_def whenStableAct_def thenE_def, blast)

text \<open>
  C30: A session whose very first connection cannot be made does not end as a crashed session should: it
  reports itself to the cleanup thread and then calls \<open>ThreadEnd\<close> on the connection it never got, a
  null pointer, which takes the whole server down.
\<close>

theorem impossible_connection_crashes:
  assumes "ss_pc ss = PBorrow" and "ss_opflcon ss = None"
    and "w_borrow d wd = (Inl (Thrown ConnectionImpossible), wd1)" and "no_mail ss wd1"
    and "w_send ''CLEANUP_O'' (ss_out ss @ cleanup_text (ss_inputName ss) (ss_outputName ss) (ss_actName ss)) wd1 = Some (Inr (), wd2)"
  shows "session_run 5 d cl ss wd = Some (Inl (Crashed NullDeref), wd2)"
proof -
  let ?ss1 = "caught ConnectionImpossible ss"
  obtain b where load: "load_account d cl (?ss1\<lparr>ss_pc := PSetup, ss_retry := True\<rparr>) (wd_conns wd1, wd_out wd1)
      = (Inr (?ss1\<lparr>ss_pc := PSetup, ss_retry := True, ss_stable := False, ss_isBanned := b\<rparr>), (wd_conns wd1, wd_out wd1))"
    using load_account_unstable [of "?ss1\<lparr>ss_pc := PSetup, ss_retry := True\<rparr>" d cl "(wd_conns wd1, wd_out wd1)"]
    by (auto simp: caught_def)
  let ?ss2 = "?ss1\<lparr>ss_pc := PSetup, ss_retry := True\<rparr>" and ?ss3 = "?ss1\<lparr>ss_retry := True, ss_isBanned := b\<rparr>"
  let ?ss4 = "?ss3\<lparr>ss_out := ss_out ss @ cleanup_text (ss_inputName ss) (ss_outputName ss) (ss_actName ss)\<rparr>"
  have "session_step d cl ss wd = Some (Inr ?ss1, wd1)"
    using assms(1,3) by (simp add: session_step_def step_borrow_def)
  moreover have "session_step d cl ?ss1 wd1 = Some (Inr ?ss2, wd1)"
    using assms(4) by (simp add: session_step_def caught_def step_poll_def ss_receive_def no_mail_def goto_def)
  moreover have "session_step d cl ?ss2 wd1 = Some (Inr (?ss3\<lparr>ss_pc := PCleanup\<rparr>), wd1)"
    using load by (simp add: session_step_def step_setup_def w_conn_def goto_def) (simp add: caught_def)
  moreover have "session_step d cl (?ss3\<lparr>ss_pc := PCleanup\<rparr>) wd1 = Some (Inr (?ss4\<lparr>ss_pc := PEnd\<rparr>), wd2)"
    using assms(5) by (simp add: session_step_def step_cleanup_def sent_def goto_def caught_def)
  moreover have "session_step d cl (?ss4\<lparr>ss_pc := PEnd\<rparr>) wd2 = Some (Inl (Crashed NullDeref), wd2)"
    using assms(2)
    by (simp add: session_step_def step_end_def w_conn_def conn_ThreadEnd_def withConn_def caught_def thenE_def)
  ultimately show ?thesis by (simp add: eval_nat_numeral)
qed

definition down_sql :: "(mem_db, unit, unit, string) sql" where
  "down_sql = mem_sql\<lparr>sql_connect := (\<lambda>_ _ _ w. (Inl ''down'', w))\<rparr>"

lemma impossible_connection_crashes_witness:
  "\<exists>wd. session_run 5 down_sql (calendar_clib dt_epoch) demo_session
     (demo_world \<lparr>cp_pool_size = 1, cp_pool = [], cp_borrowed = [0]\<rparr>) = Some (Inl (Crashed NullDeref), wd)"
proof -
  let ?p = "\<lparr>cp_pool_size = 1, cp_pool = [], cp_borrowed = [0]\<rparr> :: addr pool"
  have "factory_create down_sql f (mem, w) = (Inl (Thrown (SQLException ''down'')), (mem, w))" for f mem w
    by (simp add: factory_create_def conn_new_eq Connect_def thenE_def callE_def down_sql_def)
  then have borrow: "w_borrow down_sql (demo_world ?p) = (Inl (Thrown ConnectionImpossible), demo_world ?p)"
    using borrow_abandoned [OF demo_pool_ok(2), of "factory_create down_sql mysql_connection_factory" "conn_destroy down_sql" "\<lambda>_. 0"]
    by (simp add: w_borrow_def demo_world_def replace_def catch_any_def thenE_def)
  have "\<exists>wd2. w_send ''CLEANUP_O'' msg (demo_world ?p) = Some (Inr (), wd2)" for msg
    by (simp add: w_send_def demo_world_def demo_registry_def getThreadHandle_def get_loop.simps mkThreadHandle_def
        deref_def node_at_def sendMsg_def queue_of_def hqc_push.simps hqc_new_def HQ_INIT_SIZE_def set_queue_def assign_def
        Let_def store_def new_array_def)
  moreover have "ss_pc demo_session = PBorrow" "ss_opflcon demo_session = None"
    by (simp_all add: demo_session_def session_new_def)
  ultimately show ?thesis
    using impossible_connection_crashes [OF _ _ borrow demo_no_mail] by blast
qed

section \<open>The report\<close>

definition whole :: "'f avalue \<Rightarrow> 'f adata" where
  "whole v = AData v True None False"

definition report_elements :: "string \<Rightarrow> opfl_account \<Rightarrow> bool \<Rightarrow> 'f adata list" where
  "report_elements actName act isBanned =
     whole (VString (c_str actName)) #
     map (\<lambda>v. whole (VSigned v)) [scast (act_rank act), scast (act_level act), act_matches act, act_wins act,
       act_losses act, act_kills act, act_chickens act, act_left act, act_year act, act_month act, act_day act,
       act_hour act, act_minute act, act_second act] @
     [whole (VUnsigned (if isBanned \<and> 4 < sint (act_left act) then 1 else 0))]"

lemma show_i64_scast: "show_i64 (scast (r :: u32)) = show_int (sint r)"
  by (simp add: show_i64_def sint_up_scast is_up)

lemma report_text_join:
  "report_text actName act isBanned =
     AD_ARRAY # AD_AS_LEFT # join fixed (report_elements actName act isBanned) @ [AD_AS_RIGHT]"
  by (simp add: report_text_def report_elements_def whole_def show_i64_scast quoted_def signed_text_def show_u64_def)
    (simp add: ad_chars)

text \<open>
  C37: The account a session reports is read back as it is: for a player whose name has neither an \<open>@\<close> nor a
  unit character, the text sent to the game parses to the array of the name, the numbers, and the
  flag that says whether the ban holds, whatever the sign and size of the numbers.
\<close>

theorem report_readable:
  fixes stof :: "string \<Rightarrow> std_exc + 'f"
  assumes "rt_string (c_str actName)"
  shows "ad_ParseArmaData stof (report_text actName act isBanned) ad_new =
    Inr (True, AData (VArray (report_elements actName act isBanned)) True None False)"
proof -
  let ?es = "report_elements actName act isBanned :: 'f adata list"
  have "rt_elems stof (\<lambda>_ _. []) ?es" "?es \<noteq> []"
    using assms by (simp_all add: report_elements_def whole_def)
  from parse_array_text [OF this(2,1)] show ?thesis
    unfolding report_text_join [where fixed = "\<lambda>(_ :: u16 option) (_ :: 'f). []"] .
qed

lemma report_readable_witness:
  "ad_ParseArmaData (Inr :: string \<Rightarrow> std_exc + string) (report_text ''joe [3rd], sr'' mem_account True) ad_new =
     Inr (True, AData (VArray (report_elements ''joe [3rd], sr'' mem_account True)) True None False)"
  by (rule report_readable) (simp add: rt_string_def c_str_def ad_chars)

end
