(* ===== verification/Extension_Props.thy ===== *)
theory Extension_Props
  imports Cleanup Session_Runs Hive_Registry
begin

text \<open>
  Properties of the entry point: what a call hands to the threads and back to the game.
\<close>

section \<open>GetState\<close>

fun commas :: "string list \<Rightarrow> string" where
  "commas [] = []"
| "commas [m] = m"
| "commas (m # ms) = m @ '','' @ commas ms"

lemma append_all_eq: "append_all out (map Some ms) = Inr (out @ concat (map (\<lambda>m. '','' @ m) ms))"
  by (induction ms arbitrary: out) simp_all

lemma commas_Cons: "commas (m # ms) = m @ concat (map (\<lambda>m. '','' @ m) ms)"
  by (induction ms arbitrary: m) simp_all

lemma state_text_eq: "state_text (ms \<noteq> []) (map Some ms) = Inr (''@['' @ commas ms @ '']'')"
proof (cases ms)
  case (Cons m ms')
  then show ?thesis
    using append_all_eq [of "''@['' @ m" ms'] commas_Cons [of m ms'] by (simp add: state_text_def)
qed (simp add: state_text_def)

lemma am_of_name:
  assumes "name \<noteq> []" and "AD_SEPERATOR \<notin> set name"
    and "hd name \<notin> {AD_STRING, AD_FLOAT, AD_SIGNED, AD_UNSIGNED, AD_ADDRESS, AD_ARRAY}"
  shows "am_of stof name = Inr (am_new\<lparr>am_hasFunc := True, am_name := name, am_data := ad_new\<rparr>)"
proof -
  have "takeWhile (\<lambda>c. c \<noteq> AD_SEPERATOR) name = name" "dropWhile (\<lambda>c. c \<noteq> AD_SEPERATOR) name = []"
    using assms(2) by (auto simp: takeWhile_eq_all_conv)
  moreover obtain c cs where "name = c # cs" using assms(1) by (cases name) auto
  ultimately show ?thesis
    using assms(3) by (simp add: am_of_def am_ParseArmaData_def am_new_def ad_new_def Let_def)
qed

lemma started [simp]:
  assumes "hv_myThreadHandle (sv_cleanupThread sv) \<noteq> None"
  shows "thenE (ext_start pf) f sv = f () sv"
  using assms by (auto simp: ext_start_def thenE_def getMyThreadHandle_def)

text \<open>\<open>GetState\<close> hands over every text the sessions have sent to the cleanup handle, in the order sent,
  as one array, and leaves the mailbox empty. If the array does not fit the buffer of the game the
  process ends.
\<close>

lemma GetState_hands_over:
  assumes "hv_myThreadHandle (sv_cleanupThread sv) \<noteq> None" and "hv_myThreadHandle (sv_threadState sv) = Some a"
    and "has_mailbox a (wd_str sv)"
    and "text = c_str (''@['' @ commas (mailbox (wd_str sv) a) @ '']'')"
  shows "\<exists>sv'. RVExtension pf cl n ''GetState'' sv =
      (if length text < n then Inr text else Inl (Ended ''strncpy_s''), sv') \<and>
    mailbox (wd_str sv') a = [] \<and> wd_elem sv' = wd_elem sv \<and> hv_myThreadHandle (sv_threadState sv') = Some a"
proof -
  have "am_of (pf_stof pf) ''GetState'' = Inr (am_new\<lparr>am_hasFunc := True, am_name := ''GetState'', am_data := ad_new\<rparr>)"
    by (intro am_of_name) (simp_all add: ad_chars)
  then have msg: "of_ad (am_of (pf_stof pf) (c_str ''GetState'')) =
      Inr (am_new\<lparr>am_hasFunc := True, am_name := ''GetState'', am_data := ad_new\<rparr>)"
    by (simp add: c_str_def)
  obtain hv' rg' where r: "receiveAll False (sv_threadState sv) (wd_str sv) = Some (Inr (mailbox (wd_str sv) a \<noteq> [],
      map Some (mailbox (wd_str sv) a), of_nat (length (mailbox (wd_str sv) a)), hv', rg'))"
    "hv_myThreadHandle hv' = Some a" "mailbox rg' a = []"
    using receiveAll_eq [OF assms(3,2)] by blast
  have "RVExtension pf cl n ''GetState'' sv = ext_GetState n sv"
    using assms(1) msg by (simp add: RVExtension_def thenE_def [of "pureE _"] Let_def)
  also have "\<dots> = (if length text < n then Inr text else Inl (Ended ''strncpy_s''),
      sv\<lparr>wd_str := rg', sv_threadState := hv'\<rparr>)"
    using r(1) by (simp add: ext_GetState_def thenE_def onStr_def promptE_def state_text_eq copy_output_def assms(4) Suc_le_eq)
  finally show ?thesis
    using r(2,3) by (intro exI [of _ "sv\<lparr>wd_str := rg', sv_threadState := hv'\<rparr>"]) simp
qed

definition demo_server :: "(string, callback) registry \<Rightarrow> (unit, mem_db, unit, unit) server" where
  "demo_server rg =
     \<lparr>wd_elem = demo_registry ''CLEANUP_T'', wd_str = rg,
      wd_pool = Some \<lparr>cp_pool_size = 1, cp_pool = [0], cp_borrowed = []\<rparr>, wd_refs = (\<lambda>_. 0),
      wd_conns = [Some (Some mem_connection)], wd_out = mem_db0, sv_ehives = (\<lambda>_. None), sv_shives = (\<lambda>_. None),
      sv_thrdname = ''CLEANUP_O'', sv_cleanupThread = demo_hive, sv_threadState = demo_hive, sv_dllState = hive_new,
      sv_spawned = []\<rparr>"

definition demo_platform :: "(unit, mem_db, unit, unit) platform" where
  "demo_platform =
     \<lparr>pf_new = (\<lambda>sv. if sv_shives sv 4096 = None then 4096 else 8192), pf_shares = 0, pf_act = mem_account,
      pf_stof = (\<lambda>_. Inr ())\<rparr>"

lemma demo_mailbox:
  "has_mailbox 0 (demo_registry name)" "mailbox (demo_registry name :: ('m, callback) registry) 0 = []"
  "rg_rep [0] (demo_registry name)"
  using hqc_wf_new hqc_contents_new
  by (simp_all add: has_mailbox_def mailbox_def demo_registry_def rg_handle_def payload_def node_at_def rg_rep_def)
    (simp add: mkThreadHandle_def)

section \<open>Connect\<close>

text \<open>A new handle, registered last, with its first message and its thread.\<close>

lemma new_thread:
  assumes "rg_rep as rg"
  shows "\<exists>b rg1 rg2 rg3. addThread junk name cb ps hive_new rg = Inr (True, hive_new\<lparr>hv_myThreadHandle := Some b\<rparr>, rg1) \<and>
    sendMsg (Some b) msg rg1 = Inr (True, rg2) \<and>
    spawnThread (hive_new\<lparr>hv_myThreadHandle := Some b\<rparr>) rg2 = Inr (True, hive_new\<lparr>hv_myThreadHandle := Some b\<rparr>, rg3) \<and>
    b \<notin> set as \<and> rg_rep (as @ [b]) rg3 \<and> mailbox rg3 b = [msg] \<and> th_running (rg_handle rg3 b) \<and>
    th_hiveThread (rg_handle rg3 b) \<and>
    th_threadName (rg_handle rg3 b) = name \<and> th_callBack (rg_handle rg3 b) = cb \<and>
    (\<forall>a\<in>set as. rg_handle rg3 a = rg_handle rg a)"
proof -
  have none: "hv_myThreadHandle hive_new = None" by (simp add: hive_new_def)
  let ?hv = "\<lambda>b. hive_new\<lparr>hv_myThreadHandle := Some b\<rparr>"
  obtain b rg1 where 1: "addThread junk name cb ps hive_new rg = Inr (True, ?hv b, rg1)" "b \<notin> set as" "rg_rep (as @ [b]) rg1"
    "rg_handle rg1 b = (mkThreadHandle junk name)\<lparr>th_callBack := cb, th_parameters := ps,
                        th_msgQueue := Some hqc_new, th_shares := junk + 1\<rparr>"
    "\<forall>a\<in>set as. rg_handle rg1 a = rg_handle rg a"
    using addThread_rep [OF assms none, of junk name cb ps] by blast
  have box: "has_mailbox b rg1" "mailbox rg1 b = []" using new_mailbox [OF assms none 1(1)] by auto
  obtain rg2 where 2: "sendMsg (Some b) msg rg1 = Inr (True, rg2)" "has_mailbox b rg2" "mailbox rg2 b = [msg]" "same_but b rg1 rg2"
    using sendMsg_eq [OF box(1), of msg] box(2) by (auto simp: hqc_cap_def)
  obtain n1 where n1: "node_at (rg_mem rg1) b = Some n1" using box(1) by (rule has_mailboxE)
  note frame = same_but_frame [OF 2(4) n1]
  obtain n where n: "node_at (rg_mem rg2) b = Some n" using 2(2) by (rule has_mailboxE)
  let ?n = "n\<lparr>th_shares := th_shares n + 1, th_running := True, th_finished := False, th_success := False, th_hiveThread := True\<rparr>"
  let ?rg = "rg2\<lparr>rg_mem := (rg_mem rg2)[b := Some ?n]\<rparr>"
  have spawn: "spawnThread (?hv b) rg2 = Inr (True, ?hv b, ?rg)" using n by (simp add: spawnThread_def)
  have rep: "rg_rep (as @ [b]) ?rg" using rg_rep_assign [OF _ n, of "as @ [b]" ?n] 1(3) frame(1) by simp
  have name: "th_threadName n = name" "th_callBack n = cb"
    using arg_cong [OF frame(4), of th_threadName] arg_cong [OF frame(4), of th_callBack] n
      arg_cong [OF 1(4), of th_threadName] arg_cong [OF 1(4), of th_callBack]
    by (simp_all add: rg_handle_def payload_def mkThreadHandle_def)
  have "rg_handle ?rg a = rg_handle rg2 a" if "a \<noteq> b" for a using that by (simp add: rg_handle_def payload_def)
  then have others: "\<forall>a\<in>set as. rg_handle ?rg a = rg_handle rg a" using 1(2,5) frame(2) by (metis (no_types, lifting))
  have "mailbox ?rg b = [msg]" "th_running (rg_handle ?rg b)" "th_hiveThread (rg_handle ?rg b)" "th_threadName (rg_handle ?rg b) = name" "th_callBack (rg_handle ?rg b) = cb"
    using 2(3) n name node_at_less [OF n] by (simp_all add: mailbox_def rg_handle_def payload_def)
  with 1 2(1) spawn rep others show ?thesis by blast
qed

lemma is_hex_special: "is_hex c \<Longrightarrow> c \<notin> {AD_UNIT, AD_ARRAY, AD_SEPERATOR, AD_AS_LEFT, AD_AS_RIGHT}"
  by (auto simp: is_hex_def is_digit_def ad_chars)

lemma plain_address: "plain (AD_ADDRESS # show_ptr a)"
  using is_hex_special show_digits16_hex unfolding plain_def show_ptr_def
  by (auto simp: ad_chars)

lemma parse_address: "parse_new stof (AD_ADDRESS # show_ptr a) = Inr (whole (VAddress a))"
proof -
  have "show_ptr a \<noteq> []" using length_show_digits16 [of 16 "unat a"] unfolding show_ptr_def by (metis list.size(3) zero_neq_numeral)
  from parse_new_simps(5) [OF this, of stof] show ?thesis by (simp add: whole_def)
qed

lemma parse_handles:
  "ad_ParseArmaData stof (handles_text x y) ad_new =
     Inr (True, AData (VArray [whole (VAddress x), whole (VAddress y)]) True None False)"
proof -
  let ?x = "AD_ADDRESS # show_ptr x" and ?y = "AD_ADDRESS # show_ptr y"
  have eq: "handles_text x y = AD_ARRAY # AD_AS_LEFT # ?x @ AD_SEPERATOR # ?y @ [AD_AS_RIGHT]"
    by (simp add: handles_text_def ad_chars)
  have new: "new_element (parse_new stof) (AD_ADDRESS # show_ptr a) = Inr (whole (VAddress a))" for a
    by (simp add: new_element_def parse_address whole_def ad_GetType_def) (simp add: ad_chars)
  have "flat_loop (parse_new stof) [] False [] (?x @ AD_SEPERATOR # ?y @ [AD_AS_RIGHT])
      = flat_done (parse_new stof) ?x [] AD_SEPERATOR (?y @ [AD_AS_RIGHT])"
    using flat_plain [OF plain_address [of x], of AD_SEPERATOR "parse_new stof" "[]" "[]"] by simp
  also have "\<dots> = flat_loop (parse_new stof) [] False [whole (VAddress x)] (?y @ [AD_AS_RIGHT])"
    by (simp add: flat_done_def new)
  also have "\<dots> = flat_done (parse_new stof) ?y [whole (VAddress x)] AD_AS_RIGHT []"
    using flat_plain [OF plain_address [of y], of AD_AS_RIGHT "parse_new stof" "[]"] by simp
  also have "\<dots> = Inr (True, [whole (VAddress x), whole (VAddress y)], [])"
    by (simp add: flat_done_def new)
  finally have "arr_loop (parse_new stof) [] (?x @ AD_SEPERATOR # ?y @ [AD_AS_RIGHT])
      = Inr [whole (VAddress x), whole (VAddress y)]"
    by (simp add: arr_loop.simps [of _ "[]" "AD_ADDRESS # _"] del: flat_loop.simps) (simp add: ad_chars)
  then show ?thesis
    unfolding eq by (simp add: ad_ParseArmaData_def ad_ParseData_def BuildData_array ad_store_def) (simp add: ad_new_def)
qed

lemma c_str_plain: "\<forall>c\<in>set s. c \<noteq> CHR 0x00 \<Longrightarrow> c_str s = s"
  unfolding c_str_def by (simp add: takeWhile_eq_all_conv)

lemma handles_text_simps: "c_str (handles_text x y) = handles_text x y" "length (handles_text x y) = 38"
proof -
  have "\<forall>c\<in>set (show_ptr a). c \<noteq> CHR 0x00" for a
    using show_digits16_hex unfolding show_ptr_def by (fastforce simp: is_hex_def is_digit_def)
  then show "c_str (handles_text x y) = handles_text x y"
    by (intro c_str_plain) (simp add: handles_text_def ball_Un)
  show "length (handles_text x y) = 38" by (simp add: handles_text_def show_ptr_def)
qed

text \<open>What \<open>Connect\<close> changes.\<close>

lemma Connect_effect:
  assumes started: "hv_myThreadHandle (sv_cleanupThread sv) \<noteq> None"
    and reps: "rg_rep as (wd_elem sv)" "rg_rep bs (wd_str sv)"
    and msg: "am_of (pf_stof pf) (c_str call) = Inr msg" "am_name msg = ''Connect''"
    and names: "arg_string 0 (am_data msg) = Inr inputName" "arg_string 1 (am_data msg) = Inr outputName"
    and room: "38 < n"
  shows "\<exists>x y b c sv'. RVExtension pf cl n call sv = (Inr (handles_text x y), sv') \<and>
    ad_ParseArmaData stof (handles_text x y) ad_new =
      Inr (True, AData (VArray [whole (VAddress x), whole (VAddress y)]) True None False) \<and>
    map_option hv_myThreadHandle (sv_ehives sv' x) = Some (Some b) \<and>
    map_option hv_myThreadHandle (sv_shives sv' y) = Some (Some c) \<and>
    b \<notin> set as \<and> rg_rep (as @ [b]) (wd_elem sv') \<and> mailbox (wd_elem sv') b = [msg] \<and>
    th_threadName (rg_handle (wd_elem sv') b) = inputName \<and>
    th_callBack (rg_handle (wd_elem sv') b) = Some Mycallback \<and> th_running (rg_handle (wd_elem sv') b) \<and>
    c \<notin> set bs \<and> rg_rep (bs @ [c]) (wd_str sv') \<and> mailbox (wd_str sv') c = [] \<and>
    th_threadName (rg_handle (wd_str sv') c) = outputName \<and>
    (\<forall>a\<in>set as. rg_handle (wd_elem sv') a = rg_handle (wd_elem sv) a) \<and>
    (\<forall>a\<in>set bs. rg_handle (wd_str sv') a = rg_handle (wd_str sv) a) \<and>
    th_hiveThread (rg_handle (wd_elem sv') b) \<and> sv_cleanupThread sv' = sv_cleanupThread sv \<and> x = pf_new pf (sv\<lparr>sv_shives := (sv_shives sv)(pf_new pf sv := Some hive_new)\<rparr>) \<and>
    sv_spawned sv' = sv_spawned sv @ [session_new (pf_act pf) (hive_new\<lparr>hv_myThreadHandle := Some b\<rparr>)]"
proof -
  let ?hv = "\<lambda>b. hive_new\<lparr>hv_myThreadHandle := Some b\<rparr>"
  obtain b e1 e2 e3 where e:
    "addThread (pf_shares pf) inputName (Some Mycallback) None hive_new (wd_elem sv) = Inr (True, ?hv b, e1)"
    "sendMsg (Some b) msg e1 = Inr (True, e2)" "spawnThread (?hv b) e2 = Inr (True, ?hv b, e3)"
    "b \<notin> set as" "rg_rep (as @ [b]) e3" "mailbox e3 b = [msg]" "th_running (rg_handle e3 b)" "th_hiveThread (rg_handle e3 b)"
    "th_threadName (rg_handle e3 b) = inputName" "th_callBack (rg_handle e3 b) = Some Mycallback"
    "\<forall>a\<in>set as. rg_handle e3 a = rg_handle (wd_elem sv) a"
    using new_thread [OF reps(1), of "pf_shares pf" inputName "Some Mycallback" None msg] by blast
  have none: "hv_myThreadHandle hive_new = None" by (simp add: hive_new_def)
  obtain c o1 where o:
    "addThread (pf_shares pf) outputName None None hive_new (wd_str sv) = Inr (True, ?hv c, o1)" "c \<notin> set bs"
    "rg_rep (bs @ [c]) o1" "th_threadName (rg_handle o1 c) = outputName"
    "\<forall>a\<in>set bs. rg_handle o1 a = rg_handle (wd_str sv) a"
    using addThread_rep [OF reps(2) none, of "pf_shares pf" outputName None None] by (auto simp: mkThreadHandle_def)
  have empty: "mailbox o1 c = []" using new_mailbox [OF reps(2) none o(1)] by auto
  let ?y = "pf_new pf sv"
  let ?sv1 = "sv\<lparr>sv_shives := (sv_shives sv)(?y := Some hive_new)\<rparr>"
  let ?x = "pf_new pf ?sv1"
  let ?sv = "sv\<lparr>wd_elem := e3, wd_str := o1, sv_ehives := (sv_ehives sv)(?x := Some (?hv b)),
    sv_shives := (sv_shives sv)(?y := Some (?hv c)), sv_spawned := sv_spawned sv @ [session_new (pf_act pf) (?hv b)]\<rparr>"
  have "RVExtension pf cl n call sv = ext_Connect pf msg n sv"
    using started msg by (simp add: RVExtension_def thenE_def [of "pureE _"] Let_def)
  also have "\<dots> = (Inr (handles_text ?x ?y), ?sv)"
    using names room e(1-3) o(1)
    by (simp add: ext_Connect_def thenE_def Let_def onElem_def onStr_def getMyThreadHandle_def copy_output_def handles_text_simps)
  finally show ?thesis
    using e(4-) o(2-) empty parse_handles [of stof ?x ?y]
    by (intro exI [of _ ?x] exI [of _ ?y] exI [of _ b] exI [of _ c] exI [of _ ?sv]) (simp add: session_new_def)
qed

text \<open>
  C12: \<open>Connect\<close> answers with the two addresses of the objects it made, as an array the game's side can
  parse. The session gets a new handle under the first name of the message, whose mailbox holds just the
  message and whose thread runs \<open>mycallback\<close>; the output gets a new handle under the second name, with
  an empty mailbox. No other handle changes.
\<close>

theorem Connect_opens_session:
  assumes started: "hv_myThreadHandle (sv_cleanupThread sv) \<noteq> None"
    and reps: "rg_rep as (wd_elem sv)" "rg_rep bs (wd_str sv)"
    and msg: "am_of (pf_stof pf) (c_str call) = Inr msg" "am_name msg = ''Connect''"
    and names: "arg_string 0 (am_data msg) = Inr inputName" "arg_string 1 (am_data msg) = Inr outputName"
    and room: "38 < n"
  shows "\<exists>x y b c sv'. RVExtension pf cl n call sv = (Inr (handles_text x y), sv') \<and>
    ad_ParseArmaData stof (handles_text x y) ad_new =
      Inr (True, AData (VArray [whole (VAddress x), whole (VAddress y)]) True None False) \<and>
    map_option hv_myThreadHandle (sv_ehives sv' x) = Some (Some b) \<and>
    map_option hv_myThreadHandle (sv_shives sv' y) = Some (Some c) \<and>
    b \<notin> set as \<and> rg_rep (as @ [b]) (wd_elem sv') \<and> mailbox (wd_elem sv') b = [msg] \<and>
    th_threadName (rg_handle (wd_elem sv') b) = inputName \<and>
    th_callBack (rg_handle (wd_elem sv') b) = Some Mycallback \<and> th_running (rg_handle (wd_elem sv') b) \<and>
    c \<notin> set bs \<and> rg_rep (bs @ [c]) (wd_str sv') \<and> mailbox (wd_str sv') c = [] \<and>
    th_threadName (rg_handle (wd_str sv') c) = outputName \<and>
    (\<forall>a\<in>set as. rg_handle (wd_elem sv') a = rg_handle (wd_elem sv) a) \<and>
    (\<forall>a\<in>set bs. rg_handle (wd_str sv') a = rg_handle (wd_str sv) a) \<and>
    (\<exists>s. sv_spawned sv' = sv_spawned sv @ [s] \<and> ss_pc s = PStart \<and> hv_myThreadHandle (ss_hive s) = Some b)"
  using Connect_effect [OF assms, of cl stof] by (elim ex_forward) (simp add: session_new_def)

definition demo_names :: "unit adata list" where
  "demo_names = [whole (VString ''in''), whole (VString ''out'')]"

definition demo_call :: string where
  "demo_call = ''Connect'' @ AD_SEPERATOR # AD_ARRAY # AD_AS_LEFT # join (\<lambda>_ _. []) demo_names @ [AD_AS_RIGHT]"

lemma Connect_opens_session_witness:
  "\<exists>x y b c sv'. RVExtension demo_platform (calendar_clib dt_epoch) 10240 demo_call (demo_server (demo_registry ''CLEANUP_O'')) =
      (Inr (handles_text x y), sv') \<and>
    mailbox (wd_elem sv') b = [\<lparr>am_name = ''Connect'', am_hasFunc = True, am_data = AData (VArray demo_names) True None False\<rparr>] \<and>
    mailbox (wd_str sv') c = []"
proof -
  let ?sv = "demo_server (demo_registry ''CLEANUP_O'')"
  have rt: "rt_elems (pf_stof demo_platform) (\<lambda>_ _. []) demo_names"
    by (simp add: demo_names_def whole_def rt_string_def ad_chars)
  have "am_ParseArmaData (pf_stof demo_platform) demo_call am_new =
      Inr (True, \<lparr>am_name = ''Connect'', am_hasFunc = True, am_data = AData (VArray demo_names) True None False\<rparr>)"
    unfolding demo_call_def by (rule am_ParseArmaData_call [OF _ rt]) (simp_all add: demo_names_def ad_chars)
  moreover have "c_str demo_call = demo_call"
    by (rule c_str_plain) (simp add: demo_call_def demo_names_def whole_def ad_chars)
  ultimately have "am_of (pf_stof demo_platform) (c_str demo_call) =
      Inr \<lparr>am_name = ''Connect'', am_hasFunc = True, am_data = AData (VArray demo_names) True None False\<rparr>"
    by (simp add: am_of_def)
  moreover have "hv_myThreadHandle (sv_cleanupThread ?sv) \<noteq> None" "rg_rep [0] (wd_elem ?sv)" "rg_rep [0] (wd_str ?sv)"
    by (simp_all add: demo_server_def demo_hive_def demo_mailbox)
  ultimately show ?thesis
    using Connect_opens_session [of ?sv "[0]" "[0]" demo_platform demo_call _ "''in''" "''out''" 10240]
    by (fastforce simp: arg_string_def arg_def as_array_def as_string_def demo_names_def whole_def)
qed

end
