(* ===== verification/Cleanup_Props.thy ===== *)
theory Cleanup_Props
  imports Cleanup Hive_Invariant Extension_Props
begin

text \<open>
  The promise of the cleanup thread: it deletes the two objects of a session that committed once the
  thread of the session has stopped, and not before.
\<close>

lemma isRunning_eq: "node_at (rg_mem rg) a = Some n \<Longrightarrow> isRunning (Some a) rg = Inr (th_running (rg_handle rg a))"
  by (simp add: isRunning_def rg_handle_def payload_def)

text \<open>
  C21: At a session whose objects a commit names, the cleanup thread waits as long as the thread of the
  session runs. Then it deletes both objects: the output's handle leaves its registry, and the session's
  handle too if the object was its last owner; if the stopped thread still holds its copy, the handle
  stays for that copy to remove. No other handle changes, and the next session is the next in the message.
\<close>

theorem cleanup_deletes_stopped_session:
  assumes pc: "cu_pc cu = CDelete" "cu_items cu = j # js"
    and addresses: "arg_address 0 j = Inr x" "arg_address 1 j = Inr y"
    and objects: "sv_ehives sv x = Some hin" "hv_myThreadHandle hin = Some a" "sv_shives sv y = Some hout"
      "hv_myThreadHandle hout = Some c"
    and elem: "rg_ok (wd_elem sv)" "a \<in> set (rg_addrs (wd_elem sv))"
    and str: "rg_ok (wd_str sv)" "c \<in> set (rg_addrs (wd_str sv))" "th_shares (rg_handle (wd_str sv) c) = 1"
  shows "if th_running (rg_handle (wd_elem sv) a) then cleanup_step d cu sv = None
    else \<exists>cu1 sv1 cu2 sv2. cleanup_step d cu sv = Some (Inr cu1, sv1) \<and> cleanup_step d cu1 sv1 = Some (Inr cu2, sv2) \<and>
      cu_pc cu2 = CDelete \<and> cu_items cu2 = js \<and>
      sv_ehives sv2 = (sv_ehives sv)(x := None) \<and> sv_shives sv2 = (sv_shives sv)(y := None) \<and>
      rg_addrs (wd_str sv2) = filter (\<lambda>b. b \<noteq> c) (rg_addrs (wd_str sv)) \<and>
      (if th_shares (rg_handle (wd_elem sv) a) = 1 then rg_addrs (wd_elem sv2) = filter (\<lambda>b. b \<noteq> a) (rg_addrs (wd_elem sv))
       else rg_addrs (wd_elem sv2) = rg_addrs (wd_elem sv) \<and>
         th_shares (rg_handle (wd_elem sv2) a) = th_shares (rg_handle (wd_elem sv) a) - 1) \<and>
      (\<forall>b\<in>set (rg_addrs (wd_elem sv)) - {a}. rg_handle (wd_elem sv2) b = rg_handle (wd_elem sv) b) \<and>
      (\<forall>b\<in>set (rg_addrs (wd_str sv)) - {c}. rg_handle (wd_str sv2) b = rg_handle (wd_str sv) b)"
proof -
  obtain n where n: "node_at (rg_mem (wd_elem sv)) a = Some n"
    using elem by (auto simp: rg_ok_def has_mailbox_def)
  note running = isRunning_eq [OF n]
  obtain h1 rg1 where 1: "hive_destroy hin (wd_elem sv) = Some (Inr (h1, rg1))"
    "if th_shares (rg_handle (wd_elem sv) a) = 1 then rg_addrs rg1 = filter (\<lambda>b. b \<noteq> a) (rg_addrs (wd_elem sv))
     else rg_addrs rg1 = rg_addrs (wd_elem sv) \<and> th_shares (rg_handle rg1 a) = th_shares (rg_handle (wd_elem sv) a) - 1"
    "\<forall>b\<in>set (rg_addrs (wd_elem sv)) - {a}. rg_handle rg1 b = rg_handle (wd_elem sv) b"
    using hive_destroy_cases [OF elem(1) objects(2) elem(2)] by blast
  obtain h2 rg2 where 2: "hive_destroy hout (wd_str sv) = Some (Inr (h2, rg2))"
    "rg_addrs rg2 = filter (\<lambda>b. b \<noteq> c) (rg_addrs (wd_str sv))"
    "\<forall>b\<in>set (rg_addrs (wd_str sv)) - {c}. rg_handle rg2 b = rg_handle (wd_str sv) b"
    using hive_destroy_cases [OF str(1) objects(4) str(2)] str(3) by auto
  show ?thesis
  proof (cases "th_running (rg_handle (wd_elem sv) a)")
    case True
    with pc addresses objects running show ?thesis
      by (simp add: cleanup_step_def cleanup_delete_def getMyThreadHandle_def)
  next
    case False
    let ?cu1 = "cu\<lparr>cu_pc := CDeleteOutput\<rparr>" and ?sv1 = "sv\<lparr>wd_elem := rg1, sv_ehives := (sv_ehives sv)(x := None)\<rparr>"
    have "cleanup_step d cu sv = Some (Inr ?cu1, ?sv1)"
      using False pc addresses objects running 1(1)
      by (simp add: cleanup_step_def cleanup_delete_def getMyThreadHandle_def cu_goto_def)
    moreover have "cleanup_step d ?cu1 ?sv1 = Some (Inr (?cu1\<lparr>cu_items := js, cu_pc := CDelete\<rparr>),
        ?sv1\<lparr>wd_str := rg2, sv_shives := (sv_shives sv)(y := None)\<rparr>)"
      using pc addresses objects 2(1) by (simp add: cleanup_step_def cleanup_delete_output_def cu_goto_def)
    ultimately show ?thesis using False 1(2,3) 2(2,3) by simp
  qed
qed

definition demo_item :: "unit adata" where
  "demo_item = whole (VArray [whole (VAddress 4096), whole (VAddress 8192)])"

definition demo_stopped :: "(string, callback) registry \<Rightarrow> (unit, mem_db, unit, unit) server" where
  "demo_stopped rg =
     (demo_server rg)\<lparr>wd_elem := \<lparr>rg_i = 6, rg_threadCount = 1, rg_head = Some 0, rg_tail = Some 0,
        rg_mem = [Some ((mkThreadHandle 0 ''in'')\<lparr>th_msgQueue := Some hqc_new, th_shares := 1\<rparr>)]\<rparr>,
      sv_ehives := [4096 \<mapsto> demo_hive], sv_shives := [8192 \<mapsto> demo_hive]\<rparr>"

lemma demo_hive_handle [simp]: "hv_myThreadHandle demo_hive = Some 0"
  by (simp add: demo_hive_def)

lemma cleanup_deletes_stopped_session_witness:
  "\<exists>cu1 sv1 cu2 sv2. cleanup_step mem_sql ((cleanup_new demo_hive)\<lparr>cu_pc := CDelete, cu_items := [demo_item]\<rparr>)
      (demo_stopped (demo_registry ''out'')) = Some (Inr cu1, sv1) \<and>
    cleanup_step mem_sql cu1 sv1 = Some (Inr cu2, sv2) \<and> rg_addrs (wd_elem sv2) = [] \<and> rg_addrs (wd_str sv2) = []"
proof -
  let ?sv = "demo_stopped (demo_registry ''out'')" and ?cu = "(cleanup_new demo_hive)\<lparr>cu_pc := CDelete, cu_items := [demo_item]\<rparr>"
  have rep: "rg_rep [0] (wd_elem ?sv)" "\<forall>a\<in>set [0]. has_mailbox a (wd_elem ?sv)"
    "rg_rep [0] (wd_str ?sv)" "\<forall>a\<in>set [0]. has_mailbox a (wd_str ?sv)"
    using hqc_wf_new demo_mailbox(1,3) [of "''out''"]
    by (simp_all add: demo_stopped_def demo_server_def rg_rep_def has_mailbox_def node_at_def mkThreadHandle_def)
  note ok = rg_okI [OF rep(1,2)] rg_okI [OF rep(3,4)]
  have args: "arg_address 0 demo_item = Inr 4096" "arg_address 1 demo_item = Inr 8192"
    by (simp_all add: demo_item_def whole_def arg_address_def arg_def as_array_def as_address_def)
  have shares: "th_shares (rg_handle (wd_elem ?sv) 0) = 1" "\<not> th_running (rg_handle (wd_elem ?sv) 0)"
    "th_shares (rg_handle (wd_str ?sv) 0) = 1"
    by (simp_all add: demo_stopped_def demo_server_def demo_registry_def rg_handle_def payload_def node_at_def mkThreadHandle_def)
  have "cu_pc ?cu = CDelete" "cu_items ?cu = [demo_item]" by simp_all
  moreover have "sv_ehives ?sv 4096 = Some demo_hive" "sv_shives ?sv 8192 = Some demo_hive"
    by (simp_all add: demo_stopped_def)
  ultimately show ?thesis
    using cleanup_deletes_stopped_session [of ?cu demo_item "[]" 4096 8192 ?sv demo_hive 0 demo_hive 0 mem_sql] args ok shares
    by auto
qed

end
