(* ===== verification/Arma_Heap.thy ===== *)
theory Arma_Heap
  imports Arma_Data Linked_Heap
begin

text \<open>
  The memory behind \<open>ArmaData\<close> and \<open>ArmaMessage\<close> of \<^verbatim>\<open>OPFL/ThreadHive.h\<close>. \<open>Arma_Data\<close> models an array as a
  value; here it is what the code has, a pointer to a vector of pointers to elements on the heap. The
  command \<open>Commit\<close> lets two messages share one vector, which goes to two threads that delete it, so
  that which object owns the vector matters.
\<close>

section \<open>Objects\<close>

text \<open>
  What \<open>data\<close> points to; the constructor is \<open>type\<close>. For an array it is a cell of its own that holds the
  pointer to the vector.
\<close>

datatype 'f hvalue = HNull | HString string | HFloat 'f | HSigned u64 | HUnsigned u64 | HAddress u64
  | HArray "addr option"

text \<open>\<open>eo_msg\<close> is the name of an \<open>ArmaMessage\<close>, \<open>eo_hasFunc\<close> its \<open>hasFunc\<close>.\<close>

record 'f eobj =
  eo_msg :: "string option"
  eo_hasFunc :: bool
  eo_data :: "'f hvalue"
  eo_hasData :: bool
  eo_precision :: "u16 option"
  eo_protection :: bool

record 'f aheap =
  ah_elems :: "'f eobj heap"
  ah_vecs :: "addr option list heap"

definition eo_new :: "string option \<Rightarrow> 'f eobj" where
  "eo_new msg = \<lparr>eo_msg = msg, eo_hasFunc = False, eo_data = HNull, eo_hasData = False, eo_precision = None,
     eo_protection = False\<rparr>"

text \<open>A result, an error or no end yet.\<close>

type_synonym 'a run = "(mem_error + 'a) option"

fun bindX :: "'a run \<Rightarrow> ('a \<Rightarrow> 'b run) \<Rightarrow> 'b run" where
  "bindX None f = None"
| "bindX (Some (Inl e)) f = Some (Inl e)"
| "bindX (Some (Inr x)) f = f x"

definition onElems :: "('f eobj heap \<Rightarrow> mem_error + 'f eobj heap) \<Rightarrow> 'f aheap \<Rightarrow> mem_error + 'f aheap" where
  "onElems f h = bindE (f (ah_elems h)) (\<lambda>m. Inr (h\<lparr>ah_elems := m\<rparr>))"

definition onVecs ::
  "(addr option list heap \<Rightarrow> mem_error + addr option list heap) \<Rightarrow> 'f aheap \<Rightarrow> mem_error + 'f aheap" where
  "onVecs f h = bindE (f (ah_vecs h)) (\<lambda>m. Inr (h\<lparr>ah_vecs := m\<rparr>))"

section \<open>Deletion\<close>

text \<open>\<open>ClearVector\<close>: \<open>n\<close> entries from \<open>i\<close> on; \<open>del\<close> deletes an element.\<close>

fun clear_loop :: "(addr \<Rightarrow> 'f aheap \<Rightarrow> 'f aheap run) \<Rightarrow> addr \<Rightarrow> nat \<Rightarrow> nat \<Rightarrow> 'f aheap \<Rightarrow> 'f aheap run" where
  "clear_loop del v i 0 h = Some (Inr h)"
| "clear_loop del v i (Suc n) h =
     bindX (Some (deref (Some v) (ah_vecs h))) (\<lambda>ps.
       if i < length ps
       then bindX (case ps ! i of
                     None \<Rightarrow> Some (Inr h)
                   | Some a \<Rightarrow> bindX (del a h) (\<lambda>h. Some (onVecs (assign (Some v) (\<lambda>ps. ps[i := None])) h)))
                  (clear_loop del v (Suc i) n)
       else Some (Inl OutOfBounds))"

definition ClearVector :: "(addr \<Rightarrow> 'f aheap \<Rightarrow> 'f aheap run) \<Rightarrow> addr option \<Rightarrow> 'f aheap \<Rightarrow> 'f aheap run" where
  "ClearVector del vec h =
     bindX (Some (deref vec (ah_vecs h))) (\<lambda>ps. clear_loop del (the vec) 0 (length ps) h)"

definition ClearData :: "(addr \<Rightarrow> 'f aheap \<Rightarrow> 'f aheap run) \<Rightarrow> addr \<Rightarrow> 'f aheap \<Rightarrow> (bool \<times> 'f aheap) run" where
  "ClearData del a h =
     bindX (Some (deref (Some a) (ah_elems h))) (\<lambda>d.
     bindX (case eo_data d of
              HArray vec \<Rightarrow>
                if \<not> eo_protection d
                then bindX (ClearVector del vec h) (\<lambda>h. Some (onVecs (delete vec) h))
                else Some (Inr h)
            | _ \<Rightarrow> Some (Inr h)) (\<lambda>h.
     bindX (Some (onElems (assign (Some a) (\<lambda>d. d\<lparr>eo_data := HNull, eo_hasData := False\<rparr>)) h)) (\<lambda>h.
       Some (Inr (case eo_data d of HArray _ \<Rightarrow> False | HNull \<Rightarrow> False | _ \<Rightarrow> True, h)))))"

text \<open>
  \<open>delete\<close> of an element: the destructor of \<open>ArmaMessage\<close> calls the one of \<open>ArmaData\<close>, which then runs a
  second time as the base's. The first argument bounds the depth of the arrays.
\<close>

fun delete_elem :: "nat \<Rightarrow> addr \<Rightarrow> 'f aheap \<Rightarrow> 'f aheap run" where
  "delete_elem 0 a h = None"
| "delete_elem (Suc k) a h =
     bindX (Some (deref (Some a) (ah_elems h))) (\<lambda>d.
     bindX (if eo_msg d \<noteq> None then ClearData (delete_elem k) a h else Some (Inr (True, h))) (\<lambda>(_, h).
     bindX (ClearData (delete_elem k) a h) (\<lambda>(_, h).
       Some (onElems (delete (Some a)) h))))"

fun delete_elems :: "nat \<Rightarrow> addr list \<Rightarrow> 'f aheap \<Rightarrow> 'f aheap run" where
  "delete_elems k [] h = Some (Inr h)"
| "delete_elems k (a # as) h = bindX (delete_elem k a h) (delete_elems k as)"

section \<open>Commit\<close>

text \<open>
  The messages \<open>Commit\<close> makes. Each shares the vector of its element; an element that is no array ends
  the process.
\<close>

definition as_vec :: "addr option \<Rightarrow> 'f aheap \<Rightarrow> (ad_error + mem_error) + addr option" where
  "as_vec p h =
     bindE (map_sum Inr id (deref p (ah_elems h))) (\<lambda>d.
       case eo_data d of HArray vec \<Rightarrow> Inr vec | _ \<Rightarrow> map_sum Inl id AsType_error)"

text \<open>\<open>AsArmaMsg\<close>: the cast to a message ends the process for any other element.\<close>

definition AsArmaMsg :: "addr option \<Rightarrow> 'f aheap \<Rightarrow> (ad_error + mem_error) + addr option" where
  "AsArmaMsg p h =
     bindE (map_sum Inr id (deref p (ah_elems h))) (\<lambda>d.
       case eo_msg d of
         None \<Rightarrow> Inl (Inl (Terminate ''THiveError: Could not convert ArmaElement to ArmaMessage''))
       | Some _ \<Rightarrow> Inr p)"

definition new_commit :: "addr option \<Rightarrow> 'f eobj" where
  "new_commit vec = (eo_new (Some ''Commit''))\<lparr>eo_data := HArray vec, eo_hasData := True, eo_protection := True\<rparr>"

fun commit_heap_loop ::
  "addr option list \<Rightarrow> 'f aheap \<Rightarrow> (ad_error + mem_error) + addr list \<times> 'f aheap" where
  "commit_heap_loop [] h = Inr ([], h)"
| "commit_heap_loop (it # its) h =
     bindE (as_vec it h) (\<lambda>data.
       let (cmMsg, m) = alloc (new_commit data) (ah_elems h)
       in bindE (commit_heap_loop its (h\<lparr>ah_elems := m\<rparr>)) (\<lambda>(cms, h). Inr (cmMsg # cms, h)))"

definition commit_heap :: "addr \<Rightarrow> 'f aheap \<Rightarrow> (ad_error + mem_error) + addr list \<times> 'f aheap" where
  "commit_heap msg h =
     bindE (AsArmaMsg (Some msg) h) (\<lambda>msg.
     bindE (as_vec msg h) (\<lambda>vec.
     bindE (map_sum Inr id (deref vec (ah_vecs h))) (\<lambda>its.
       commit_heap_loop its h)))"

section \<open>Ownership\<close>

text \<open>
  \<open>owns h k a E V\<close>: deleting the element at \<open>a\<close> is to free the elements \<open>E\<close> and the vectors \<open>V\<close>, each of
  which is reached once; the arrays are less than \<open>k\<close> deep.
\<close>

inductive owns :: "'f aheap \<Rightarrow> nat \<Rightarrow> addr \<Rightarrow> addr set \<Rightarrow> addr set \<Rightarrow> bool"
  and owns_all :: "'f aheap \<Rightarrow> nat \<Rightarrow> addr option list \<Rightarrow> addr set \<Rightarrow> addr set \<Rightarrow> bool" for h where
  owns_leaf: "node_at (ah_elems h) a = Some d \<Longrightarrow> (\<forall>vec. eo_data d \<noteq> HArray vec) \<or> eo_protection d \<Longrightarrow> owns h (Suc k) a {a} {}"
| owns_array: "node_at (ah_elems h) a = Some d \<Longrightarrow> eo_data d = HArray (Some v) \<Longrightarrow> \<not> eo_protection d \<Longrightarrow>
    node_at (ah_vecs h) v = Some ps \<Longrightarrow> owns_all h k ps E V \<Longrightarrow> a \<notin> E \<Longrightarrow> v \<notin> V \<Longrightarrow>
    owns h (Suc k) a (insert a E) (insert v V)"
| owns_Nil: "owns_all h k [] {} {}"
| owns_None: "owns_all h k ps E V \<Longrightarrow> owns_all h k (None # ps) E V"
| owns_Some: "owns h k a E V \<Longrightarrow> owns_all h k ps E' V' \<Longrightarrow> E \<inter> E' = {} \<Longrightarrow> V \<inter> V' = {} \<Longrightarrow>
    owns_all h k (Some a # ps) (E \<union> E') (V \<union> V')"

inductive_cases ownsE: "owns h k a E V"

definition wipe :: "addr set \<Rightarrow> 'n heap \<Rightarrow> 'n heap" where
  "wipe A m = map (\<lambda>i. if i \<in> A then None else m ! i) [0..<length m]"

definition free :: "addr set \<Rightarrow> addr set \<Rightarrow> 'f aheap \<Rightarrow> 'f aheap" where
  "free E V h = h\<lparr>ah_elems := wipe E (ah_elems h), ah_vecs := wipe V (ah_vecs h)\<rparr>"

definition agree :: "addr set \<Rightarrow> addr set \<Rightarrow> 'f aheap \<Rightarrow> 'f aheap \<Rightarrow> bool" where
  "agree E V h h' \<longleftrightarrow> (\<forall>a\<in>E. node_at (ah_elems h') a = node_at (ah_elems h) a) \<and>
     (\<forall>v\<in>V. node_at (ah_vecs h') v = node_at (ah_vecs h) v)"

lemma length_wipe [simp]: "length (wipe A m) = length m"
  by (simp add: wipe_def)

lemma node_at_wipe [simp]: "node_at (wipe A m) a = (if a \<in> A then None else node_at m a)"
  by (simp add: node_at_def wipe_def)

lemma wipe_wipe [simp]: "wipe A (wipe B m) = wipe (A \<union> B) m"
  by (rule nth_equalityI) (auto simp: wipe_def)

lemma wipe_empty [simp]: "wipe {} m = m"
  by (simp add: wipe_def map_nth)

lemma wipe_update: "(wipe A m)[a := None] = wipe (insert a A) m"
  by (cases "a < length m"; rule nth_equalityI) (auto simp: wipe_def nth_list_update)

lemma wipe_overwrite: "a \<in> A \<Longrightarrow> wipe A (m[a := c]) = wipe A m"
  by (cases "a < length m"; rule nth_equalityI) (auto simp: wipe_def nth_list_update)

lemma update_wipe: "a \<notin> A \<Longrightarrow> (wipe A m)[a := c] = wipe A (m[a := c])"
  by (cases "a < length m"; rule nth_equalityI) (auto simp: wipe_def nth_list_update)

lemma wipe_single: "wipe {a} m = m[a := None]"
  using wipe_update [of "{}" m a] by simp

section \<open>Deletion frees what is owned\<close>

lemma agree_refl [simp]: "agree E V h h"
  by (simp add: agree_def)

abbreviation cleared :: "addr \<Rightarrow> 'f eobj \<Rightarrow> 'f aheap \<Rightarrow> 'f aheap" where
  "cleared a d h \<equiv> h\<lparr>ah_elems := (ah_elems h)[a := Some (d\<lparr>eo_data := HNull, eo_hasData := False\<rparr>)]\<rparr>"

lemma ClearData_leaf:
  assumes "node_at (ah_elems h) a = Some d" and "(\<forall>vec. eo_data d \<noteq> HArray vec) \<or> eo_protection d"
  shows "ClearData del a h =
    Some (Inr (case eo_data d of HArray _ \<Rightarrow> False | HNull \<Rightarrow> False | _ \<Rightarrow> True, cleared a d h))"
  using assms by (cases "eo_data d") (simp_all add: ClearData_def onElems_def)

lemma ClearData_array:
  assumes "node_at (ah_elems h) a = Some d" and "eo_data d = HArray (Some v)" and "\<not> eo_protection d"
    and "node_at (ah_vecs h) v = Some ps" and "clear_loop del v 0 (length ps) h = Some (Inr h')"
    and "node_at (ah_elems h') a = Some d" and "node_at (ah_vecs h') v = Some xs"
  shows "ClearData del a h = Some (Inr (False, cleared a d (h'\<lparr>ah_vecs := (ah_vecs h')[v := None]\<rparr>)))"
  using assms by (simp add: ClearData_def ClearVector_def onElems_def onVecs_def)

lemma delete_elem_cleared:
  assumes "node_at (ah_elems h) a = Some d" and "ClearData (delete_elem k) a h = Some (Inr (b, h'))"
    and "node_at (ah_elems h') a = Some d'" and "eo_data d' = HNull"
  shows "delete_elem (Suc k) a h = Some (Inr (h'\<lparr>ah_elems := (ah_elems h')[a := None]\<rparr>))"
proof -
  have "ClearData (delete_elem k) a h' = Some (Inr (False, cleared a d' h'))"
    using ClearData_leaf [OF assms(3), of "delete_elem k"] assms(4) by simp
  with assms node_at_less [OF assms(3)] show ?thesis by (simp add: onElems_def)
qed

lemma drop_Cons:
  assumes "drop i xs = x # ps"
  shows "i < length xs" and "xs ! i = x" and "drop (Suc i) xs = ps" and "take (Suc i) xs = take i xs @ [x]"
proof -
  show i: "i < length xs" using assms by (metis drop_eq_Nil2 list.distinct(1) not_le_imp_less)
  then show x: "xs ! i = x" "drop (Suc i) xs = ps" using assms by (simp_all add: Cons_nth_drop_Suc [symmetric])
  with i show "take (Suc i) xs = take i xs @ [x]" by (simp add: take_Suc_conv_app_nth)
qed

lemma delete_owned:
  "owns h k a E V \<Longrightarrow> agree E V h h0 \<Longrightarrow> delete_elem k a h0 = Some (Inr (free E V h0))"
  "owns_all h k ps E V \<Longrightarrow> agree E V h h0 \<Longrightarrow> node_at (ah_vecs h0) v = Some xs \<Longrightarrow> v \<notin> V \<Longrightarrow> drop i xs = ps \<Longrightarrow>
    clear_loop (delete_elem k) v i (length ps) h0 =
      Some (Inr (free E V (h0\<lparr>ah_vecs := (ah_vecs h0)[v := Some (take i xs @ replicate (length ps) None)]\<rparr>)))"
proof (induction arbitrary: h0 and h0 v xs i rule: owns_owns_all.inducts)
  case (owns_leaf a d k)
  then have d: "node_at (ah_elems h0) a = Some d" by (simp add: agree_def)
  from delete_elem_cleared [OF d ClearData_leaf [OF d owns_leaf(2)]] node_at_less [OF d] show ?case by (simp add: free_def wipe_single)
next
  case (owns_array a d v ps k E V)
  then have d: "node_at (ah_elems h0) a = Some d" and ps: "node_at (ah_vecs h0) v = Some ps" and ag: "agree E V h h0"
    by (simp_all add: agree_def)
  let ?h = "free E V (h0\<lparr>ah_vecs := (ah_vecs h0)[v := Some (replicate (length ps) None)]\<rparr>)"
  have loop: "clear_loop (delete_elem k) v 0 (length ps) h0 = Some (Inr ?h)"
    using owns_array.IH(4) [OF ag ps, of 0] owns_array.hyps(4) by simp
  have "node_at (ah_elems ?h) a = Some d" "node_at (ah_vecs ?h) v = Some (replicate (length ps) None)"
    using d owns_array.hyps(3,4) node_at_less [OF ps] by (simp_all add: free_def)
  note C = ClearData_array [OF d owns_array.hyps(1,2) ps loop this]
  have "node_at (ah_elems (cleared a d (?h\<lparr>ah_vecs := (ah_vecs ?h)[v := None]\<rparr>))) a =
      Some (d\<lparr>eo_data := HNull, eo_hasData := False\<rparr>)"
    using node_at_less [OF d] by (simp add: free_def)
  from delete_elem_cleared [OF d C this]
  show ?case by (simp add: free_def wipe_update wipe_overwrite update_wipe del: delete_elem.simps)
next
  case (owns_Nil k)
  then have "(ah_vecs h0)[v := Some (take i xs)] = ah_vecs h0"
    by (metis drop_eq_Nil list_update_id node_at_def option.distinct(1) take_all)
  then show ?case by (simp add: free_def)
next
  case (owns_None k ps E V)
  note xs = drop_Cons [OF owns_None.prems(4)]
  from owns_None.IH(2) [OF owns_None.prems(1-3) xs(3)] owns_None.prems(2) xs
  show ?case by simp
next
  case (owns_Some k a E V ps E' V')
  note xs = drop_Cons [OF owns_Some.prems(4)] and v = owns_Some.prems(2,3)
  have "agree E V h h0" using owns_Some.prems(1) by (simp add: agree_def)
  from owns_Some.IH(2) [OF this] have del: "delete_elem k a h0 = Some (Inr (free E V h0))" .
  let ?h = "(free E V h0)\<lparr>ah_vecs := (wipe V (ah_vecs h0))[v := Some (xs[i := None])]\<rparr>"
  have "agree E' V' h ?h" using owns_Some.prems(1,3) owns_Some.hyps by (auto simp: agree_def free_def)
  moreover have "node_at (ah_vecs ?h) v = Some (xs[i := None])" using v node_at_less [OF v(1)] by simp
  moreover have "v \<notin> V'" using v(2) by simp
  moreover have "drop (Suc i) (xs[i := None]) = ps" using xs(3) by simp
  ultimately have "clear_loop (delete_elem k) v (Suc i) (length ps) ?h = Some (Inr (free E' V' (?h\<lparr>ah_vecs :=
      (ah_vecs ?h)[v := Some (take (Suc i) (xs[i := None]) @ replicate (length ps) None)]\<rparr>)))"
    by (rule owns_Some.IH(4))
  moreover have "take (Suc i) (xs[i := None]) = take i xs @ [None]" using xs(1) by (simp add: take_Suc_conv_app_nth)
  ultimately show ?case
    using del v xs(1,2) by (simp add: onVecs_def free_def update_wipe Un_commute)
qed

lemma owns_agree:
  "owns h k a E V \<Longrightarrow> agree E V h h0 \<Longrightarrow> owns h0 k a E V"
  "owns_all h k ps E V \<Longrightarrow> agree E V h h0 \<Longrightarrow> owns_all h0 k ps E V"
proof (induction rule: owns_owns_all.inducts)
  case (owns_array a d v ps k E V)
  then show ?case by (intro owns_owns_all.owns_array) (auto simp: agree_def)
next
  case (owns_Some k a E V ps E' V')
  then show ?case by (intro owns_owns_all.owns_Some) (auto simp: agree_def)
qed (auto simp: agree_def intro: owns_owns_all.intros)

lemma owns_live:
  "owns h k a E V \<Longrightarrow> (\<forall>e\<in>E. node_at (ah_elems h) e \<noteq> None) \<and> (\<forall>v\<in>V. node_at (ah_vecs h) v \<noteq> None)"
  "owns_all h k ps E V \<Longrightarrow> (\<forall>e\<in>E. node_at (ah_elems h) e \<noteq> None) \<and> (\<forall>v\<in>V. node_at (ah_vecs h) v \<noteq> None)"
  by (induction rule: owns_owns_all.inducts) auto

section \<open>Messages that share a vector\<close>

lemma commit_heap_loop_appends:
  "commit_heap_loop its h = Inr (cms, h') \<Longrightarrow> ah_vecs h' = ah_vecs h \<and>
    (\<exists>vecs. ah_elems h' = ah_elems h @ map (\<lambda>v. Some (new_commit v)) vecs \<and>
      cms = [length (ah_elems h)..<length (ah_elems h')])"
proof (induction its arbitrary: h cms)
  case (Cons it its)
  then obtain data cms' where d: "as_vec it h = Inr data" "cms = length (ah_elems h) # cms'"
    "commit_heap_loop its (h\<lparr>ah_elems := ah_elems h @ [Some (new_commit data)]\<rparr>) = Inr (cms', h')"
    by (auto simp: alloc_def bindE_Inr_iff)
  from Cons.IH [OF d(3)] obtain vecs where "ah_vecs h' = ah_vecs h"
    "ah_elems h' = (ah_elems h @ [Some (new_commit data)]) @ map (\<lambda>v. Some (new_commit v)) vecs"
    "cms' = [Suc (length (ah_elems h))..<length (ah_elems h')]" by auto
  then show ?case using d(2) by (intro conjI exI [of _ "data # vecs"]) (simp_all del: upt_Suc add: upt_conv_Cons)
qed simp

lemma commit_heap_appends:
  assumes "commit_heap msg h = Inr (cms, h')"
  shows "ah_vecs h' = ah_vecs h" and "\<And>a. a < length (ah_elems h) \<Longrightarrow> node_at (ah_elems h') a = node_at (ah_elems h) a"
    and "\<And>c. c \<in> set cms \<Longrightarrow> length (ah_elems h) \<le> c \<and> (\<exists>vec. node_at (ah_elems h') c = Some (new_commit vec))"
    and "distinct cms" and "\<And>c. length (ah_elems h) \<le> c \<Longrightarrow> c \<notin> set cms \<Longrightarrow> node_at (ah_elems h') c = None"
proof -
  obtain its where "commit_heap_loop its h = Inr (cms, h')" using assms by (auto simp: commit_heap_def bindE_Inr_iff)
  then obtain vecs where r: "ah_vecs h' = ah_vecs h" "ah_elems h' = ah_elems h @ map (\<lambda>v. Some (new_commit v)) vecs"
    "cms = [length (ah_elems h)..<length (ah_elems h')]"
    using commit_heap_loop_appends by blast
  show "ah_vecs h' = ah_vecs h" "distinct cms" using r by simp_all
  show "\<And>a. a < length (ah_elems h) \<Longrightarrow> node_at (ah_elems h') a = node_at (ah_elems h) a"
    "\<And>c. c \<in> set cms \<Longrightarrow> length (ah_elems h) \<le> c \<and> (\<exists>vec. node_at (ah_elems h') c = Some (new_commit vec))"
    "\<And>c. length (ah_elems h) \<le> c \<Longrightarrow> c \<notin> set cms \<Longrightarrow> node_at (ah_elems h') c = None"
    using r by (auto simp: node_at_def nth_append)
qed

lemma delete_elems_protected:
  assumes "\<forall>c\<in>set cs. \<exists>vec. node_at (ah_elems h) c = Some (new_commit vec)" and "distinct cs" and "0 < k"
  shows "delete_elems k cs h = Some (Inr (free (set cs) {} h))"
  using assms(1,2)
proof (induction cs arbitrary: h)
  case (Cons c cs)
  then obtain vec where c: "node_at (ah_elems h) c = Some (new_commit vec)" by auto
  obtain k' where "k = Suc k'" using assms(3) by (cases k) auto
  then have "owns h k c {c} {}" using owns_leaf [OF c] by (simp add: new_commit_def)
  from delete_owned(1) [OF this agree_refl] have "delete_elem k c h = Some (Inr (free {c} {} h))" .
  moreover have "delete_elems k cs (free {c} {} h) = Some (Inr (free (set cs) {} (free {c} {} h)))"
    using Cons.prems by (intro Cons.IH) (auto simp: free_def)
  ultimately show ?case by (simp add: free_def)
qed (simp add: free_def)

text \<open>
  The messages \<open>Commit\<close> makes share their vectors with the message of the game, and yet every object is
  freed exactly once: whatever the order in which the sessions delete their messages, the message of the
  game is then still whole for the cleanup thread, and deleting it succeeds and leaves the heap as it was
  before, less what that message owned.
\<close>

lemma Commit_frees_once:
  assumes "owns h k msg E V" and "commit_heap msg h = Inr (cms, h')" and "distinct cs" and "set cs = set cms"
  shows "\<exists>h1 h2. delete_elems k cs h' = Some (Inr h1) \<and> agree E V h h1 \<and>
    delete_elem k msg h1 = Some (Inr h2) \<and>
    (\<forall>a. node_at (ah_elems h2) a = (if a \<in> E then None else node_at (ah_elems h) a)) \<and>
    (\<forall>v. node_at (ah_vecs h2) v = (if v \<in> V then None else node_at (ah_vecs h) v))"
proof (intro exI conjI)
  note new = commit_heap_appends [OF assms(2)]
  let ?h1 = "free (set cs) {} h'"
  have "0 < k" using assms(1) by cases simp_all
  then show "delete_elems k cs h' = Some (Inr ?h1)"
    using new(3) assms(3,4) by (intro delete_elems_protected) auto
  have old: "e < length (ah_elems h)" if "e \<in> E" for e using owns_live(1) [OF assms(1)] that by (auto dest: node_at_less)
  then have "e \<notin> set cs" if "e \<in> E" for e using new(3) assms(4) that by fastforce
  then show "agree E V h ?h1" using new(1,2) old by (simp add: agree_def free_def)
  from owns_agree(1) [OF assms(1) this] have "owns ?h1 k msg E V" .
  from delete_owned(1) [OF this agree_refl] show "delete_elem k msg ?h1 = Some (Inr (free E V ?h1))" .
  have "node_at (ah_elems h) a = None" if "length (ah_elems h) \<le> a" for a using that by (simp add: node_at_def)
  then show "\<forall>a. node_at (ah_elems (free E V ?h1)) a = (if a \<in> E then None else node_at (ah_elems h) a)"
    using new(2,3,5) assms(4) by (auto simp: free_def) (metis not_le_imp_less)+
  show "\<forall>v. node_at (ah_vecs (free E V ?h1)) v = (if v \<in> V then None else node_at (ah_vecs h) v)"
    using new(1) by (simp add: free_def)
qed

end
