(* ===== verification/Arma_Parse.thy ===== *)
theory Arma_Parse
  imports Arma_Heap Arma_Roundtrip
begin

text \<open>
  The parser of \<^verbatim>\<open>OPFL/ThreadHive.h\<close> with the memory it takes: every element of an array is an object of its
  own, an array a vector of pointers. \<open>Arma_Data\<close> gives what is parsed as a value; here the same loops
  work on the heap of \<open>Arma_Heap\<close>. The theory shows that the two agree, that the heap then holds that value
  and nothing else, and that each object has one owner, so deleting the message frees them all.
\<close>

section \<open>Results\<close>

text \<open>An error of the parser, an access C++ leaves undefined, a result, or no end yet.\<close>

type_synonym 'a hrun = "((ad_error + mem_error) + 'a) option"

fun bindH :: "'a hrun \<Rightarrow> ('a \<Rightarrow> 'b hrun) \<Rightarrow> 'b hrun" where
  "bindH None f = None"
| "bindH (Some (Inl e)) f = Some (Inl e)"
| "bindH (Some (Inr x)) f = f x"

definition doneH :: "'a \<Rightarrow> 'a hrun" where
  "doneH x = Some (Inr x)"

definition parseH :: "ad_error + 'a \<Rightarrow> 'a hrun" where
  "parseH r = Some (map_sum Inl id r)"

definition memH :: "mem_error + 'a \<Rightarrow> 'a hrun" where
  "memH r = Some (map_sum Inr id r)"

section \<open>The parser on the heap\<close>

text \<open>
  \<open>new ArmaData(temp)\<close> for an element, and its place in the vector \<open>tempArray\<close> at \<open>v\<close>; \<open>p\<close> is the
  constructor.
\<close>

type_synonym 'f hparser = "string \<Rightarrow> 'f aheap \<Rightarrow> (addr \<times> 'f aheap) hrun"

definition h_new_element :: "'f hparser \<Rightarrow> string \<Rightarrow> addr \<Rightarrow> 'f aheap \<Rightarrow> 'f aheap hrun" where
  "h_new_element p temp v h =
     bindH (p temp h) (\<lambda>(tempElement, h).
     bindH (memH (deref (Some tempElement) (ah_elems h))) (\<lambda>d.
       if eo_data d = HNull then parseH (Inl (Terminate parseErrorType))
       else memH (onVecs (assign (Some v) (\<lambda>ps. ps @ [Some tempElement])) h)))"

fun h_nest_loop ::
  "'f hparser \<Rightarrow> string \<Rightarrow> bool \<Rightarrow> nat \<Rightarrow> nat \<Rightarrow> addr \<Rightarrow> string \<Rightarrow> 'f aheap \<Rightarrow> (string \<times> 'f aheap) hrun" where
  "h_nest_loop p temp ignore L R v [] h = parseH (Inl EndDeref)"
| "h_nest_loop p temp ignore L R v (c # cs) h =
     (let ignore = (if c = AD_UNIT then \<not> ignore else ignore);
          temp = temp @ [c];
          L = (if \<not> ignore \<and> c = AD_AS_LEFT then L + 1 else L);
          R = (if \<not> ignore \<and> c = AD_AS_RIGHT then R + 1 else R)
      in if \<not> ignore \<and> L = R
         then bindH (h_new_element p temp v h) (\<lambda>h.
              bindH (parseH (after_nested cs)) (\<lambda>rest. doneH (rest, h)))
         else h_nest_loop p temp ignore L R v cs h)"

fun h_flat_loop ::
  "'f hparser \<Rightarrow> string \<Rightarrow> bool \<Rightarrow> addr \<Rightarrow> string \<Rightarrow> 'f aheap \<Rightarrow> (bool \<times> string \<times> 'f aheap) hrun" where
  "h_flat_loop p temp ignore v [] h = parseH (Inl EndDeref)"
| "h_flat_loop p temp ignore v (c # cs) h =
     (if c = AD_ARRAY then doneH (False, c # cs, h)
      else
        let (ignore, temp) = (if c = AD_UNIT then (\<not> ignore, temp) else (ignore, temp @ [c]))
        in if \<not> ignore
           then (case cs of
                   [] \<Rightarrow> parseH (Inl EndDeref)
                 | x # xs \<Rightarrow>
                     if x = AD_SEPERATOR \<or> x = AD_AS_RIGHT
                     then bindH (h_new_element p temp v h) (\<lambda>h.
                            if x = AD_AS_RIGHT
                            then (if xs = [] then doneH (True, [], h) else parseH (Inl (Terminate parseErrorEnd)))
                            else if xs = [] then parseH (Inl (Terminate parseErrorExpected))
                            else h_flat_loop p [] ignore v xs h)
                     else h_flat_loop p temp ignore v cs h)
           else (if cs = [] then parseH (Inl (Terminate parseErrorExpected))
                 else h_flat_loop p temp ignore v cs h))"

text \<open>The outer loop; its first argument bounds the number of rounds.\<close>

fun h_arr_loop :: "nat \<Rightarrow> 'f hparser \<Rightarrow> addr \<Rightarrow> string \<Rightarrow> 'f aheap \<Rightarrow> 'f aheap hrun" where
  "h_arr_loop 0 p v rest h = None"
| "h_arr_loop (Suc n) p v rest h =
     (case rest of
        [] \<Rightarrow> doneH h
      | c # cs \<Rightarrow>
          if c = AD_ARRAY
          then (case cs of
                  [] \<Rightarrow> parseH (Inl EndDeref)
                | x # xs \<Rightarrow>
                    if x = AD_AS_LEFT \<and> xs \<noteq> []
                    then bindH (h_nest_loop p [c, x] False 1 0 v xs h) (\<lambda>(rest, h). h_arr_loop n p v rest h)
                    else parseH (Inl (Terminate parseErrorExpected)))
          else bindH (h_flat_loop p [] False v rest h) (\<lambda>(done, rest, h).
                 if done then doneH h else h_arr_loop n p v rest h))"

text \<open>\<open>BuildData\<close> stores what it builds in the object at \<open>a\<close>.\<close>

definition h_store :: "addr \<Rightarrow> 'f hvalue \<Rightarrow> u16 option \<Rightarrow> 'f aheap \<Rightarrow> 'f aheap hrun" where
  "h_store a v pr h =
     memH (onElems (assign (Some a) (\<lambda>d. d\<lparr>eo_data := v, eo_hasData := v \<noteq> HNull,
       eo_precision := (case pr of None \<Rightarrow> eo_precision d | Some p \<Rightarrow> Some p)\<rparr>)) h)"

definition h_BuildData ::
  "'f hparser \<Rightarrow> (string \<Rightarrow> std_exc + 'f) \<Rightarrow> string \<Rightarrow> addr \<Rightarrow> 'f aheap \<Rightarrow> 'f aheap hrun" where
  "h_BuildData p stof s a h =
     (case s of
        [] \<Rightarrow> parseH (Inl EndDeref)
      | type # r \<Rightarrow>
          if r = [] then parseH (Inl (Terminate parseErrorType))
          else if type = AD_STRING then h_store a (HString r) None h
          else if type = AD_FLOAT then
            (case stof r of Inl e \<Rightarrow> parseH (Inl (Throws e))
             | Inr f \<Rightarrow> h_store a (HFloat f) (Some (ucast (DecimalPlaces r))) h)
          else if type = AD_SIGNED then
            (case stoll r of Inl e \<Rightarrow> parseH (Inl (Throws e)) | Inr i \<Rightarrow> h_store a (HSigned i) None h)
          else if type = AD_UNSIGNED then
            (case stoull r of Inl e \<Rightarrow> parseH (Inl (Throws e)) | Inr u \<Rightarrow> h_store a (HUnsigned u) None h)
          else if type = AD_ARRAY then
            (if hd r = AD_AS_LEFT
             then let (v, m) = alloc [] (ah_vecs h)
                  in bindH (h_arr_loop (length r) p v (tl r) (h\<lparr>ah_vecs := m\<rparr>)) (\<lambda>h.
                       h_store a (HArray (Some v)) None h)
             else h_store a HNull None h)
          else if type = AD_ADDRESS then h_store a (HAddress (stream_hex r)) None h
          else parseH (Inl (Terminate parseErrorType)))"

text \<open>The constructor \<open>ArmaData(std::string)\<close>; the first argument bounds the depth of the arrays.\<close>

fun h_parse_new :: "nat \<Rightarrow> (string \<Rightarrow> std_exc + 'f) \<Rightarrow> 'f hparser" where
  "h_parse_new 0 stof t h = None"
| "h_parse_new (Suc k) stof t h =
     (let (a, m) = alloc (eo_new None) (ah_elems h);
          h = h\<lparr>ah_elems := m\<rparr>
      in if t = [] then doneH (a, h)
         else bindH (h_BuildData (h_parse_new k stof) stof t a h) (\<lambda>h. doneH (a, h)))"

text \<open>The constructor \<open>ArmaMessage(std::string)\<close>, which has no data to clear.\<close>

definition h_am_of :: "(string \<Rightarrow> std_exc + 'f) \<Rightarrow> 'f hparser" where
  "h_am_of stof armaData h =
     (let (a, m) = alloc (eo_new (Some [])) (ah_elems h);
          h = h\<lparr>ah_elems := m\<rparr>;
          Build = h_BuildData (h_parse_new (length armaData) stof) stof
      in case armaData of
        [] \<Rightarrow> doneH (a, h)
      | c # cs \<Rightarrow>
          let nullFunc = (c = AD_STRING \<or> c = AD_FLOAT \<or> c = AD_SIGNED \<or> c = AD_UNSIGNED \<or> c = AD_ADDRESS \<or>
                          c = AD_ARRAY)
          in bindH (memH (onElems (assign (Some a) (\<lambda>d. d\<lparr>eo_hasFunc := \<not> nullFunc\<rparr>)) h)) (\<lambda>h.
             if nullFunc
             then bindH (Build armaData a h) (\<lambda>h. doneH (a, h))
             else
               let rest = dropWhile (\<lambda>c. c \<noteq> AD_SEPERATOR) armaData
               in bindH (memH (onElems (assign (Some a) (\<lambda>d. d\<lparr>eo_msg :=
                          Some (takeWhile (\<lambda>c. c \<noteq> AD_SEPERATOR) armaData)\<rparr>)) h)) (\<lambda>h.
                  if rest = []
                  then bindH (memH (onElems (assign (Some a) (\<lambda>d. d\<lparr>eo_hasData := False\<rparr>)) h)) (\<lambda>h. doneH (a, h))
                  else bindH (Build (tl rest) a h) (\<lambda>h. doneH (a, h)))))"

section \<open>What the heap holds\<close>

text \<open>\<open>holds h a d\<close>: the object at \<open>a\<close> is the value \<open>d\<close>, which nothing protects.\<close>

fun holds :: "'f aheap \<Rightarrow> addr \<Rightarrow> 'f adata \<Rightarrow> bool"
  and holds_value :: "'f aheap \<Rightarrow> 'f hvalue \<Rightarrow> 'f avalue \<Rightarrow> bool"
  and holds_list :: "'f aheap \<Rightarrow> addr option list \<Rightarrow> 'f adata list \<Rightarrow> bool" where
  "holds h a (AData v has pr prot) =
     (case node_at (ah_elems h) a of
        None \<Rightarrow> False
      | Some d \<Rightarrow> eo_hasData d = has \<and> eo_precision d = pr \<and> \<not> prot \<and> \<not> eo_protection d \<and>
          holds_value h (eo_data d) v)"
| "holds_value h x VNull = (x = HNull)"
| "holds_value h x (VString s) = (x = HString s)"
| "holds_value h x (VFloat f) = (x = HFloat f)"
| "holds_value h x (VSigned i) = (x = HSigned i)"
| "holds_value h x (VUnsigned u) = (x = HUnsigned u)"
| "holds_value h x (VAddress p) = (x = HAddress p)"
| "holds_value h x (VArray es) =
     (case x of
        HArray (Some v) \<Rightarrow> (case node_at (ah_vecs h) v of None \<Rightarrow> False | Some ps \<Rightarrow> holds_list h ps es)
      | _ \<Rightarrow> False)"
| "holds_list h [] [] = True"
| "holds_list h (Some a # ps) (e # es) = (holds h a e \<and> holds_list h ps es)"
| "holds_list h ps es = False"

definition holds_message :: "'f aheap \<Rightarrow> addr \<Rightarrow> 'f amessage \<Rightarrow> bool" where
  "holds_message h a m \<longleftrightarrow> holds h a (am_data m) \<and>
     (case node_at (ah_elems h) a of
        None \<Rightarrow> False
      | Some d \<Rightarrow> eo_msg d = Some (am_name m) \<and> eo_hasFunc d = am_hasFunc m)"

text \<open>What is held stays held while the cells of its owner stay.\<close>

lemma holds_agree:
  "holds h a d \<Longrightarrow> owns h k a E V \<Longrightarrow> agree E V h h' \<Longrightarrow> holds h' a d"
  "holds_value h x v \<Longrightarrow>
     (\<And>vec ps. x = HArray (Some vec) \<Longrightarrow> node_at (ah_vecs h) vec = Some ps \<Longrightarrow>
        \<exists>k E V. owns_all h k ps E V \<and> agree E V h h' \<and> node_at (ah_vecs h') vec = Some ps) \<Longrightarrow>
     holds_value h' x v"
  "holds_list h ps es \<Longrightarrow> owns_all h k ps E V \<Longrightarrow> agree E V h h' \<Longrightarrow> holds_list h' ps es"
proof (induction h a d and h x v and h ps es arbitrary: k E V and k E V and k E V
    rule: holds_holds_value_holds_list.induct)
  case (1 h a v has pr prot)
  then obtain d where d: "node_at (ah_elems h) a = Some d" by (auto split: option.splits)
  with "1.prems" have un: "\<not> eo_protection d" by simp
  from "1.prems"(2,3) d have d': "node_at (ah_elems h') a = Some d" by cases (auto simp: agree_def)
  have "holds_value h' (eo_data d) v"
  proof (rule "1.IH" [OF d])
    fix vec ps assume "eo_data d = HArray (Some vec)" "node_at (ah_vecs h) vec = Some ps"
    with "1.prems"(2,3) d un show "\<exists>k E V. owns_all h k ps E V \<and> agree E V h h' \<and> node_at (ah_vecs h') vec = Some ps"
      by cases (auto simp: agree_def)
  qed (use "1.prems" d in simp)
  with "1.prems"(1) d d' show ?case by simp
next
  case (8 h x es)
  then obtain v ps where x: "x = HArray (Some v)" "node_at (ah_vecs h) v = Some ps" "holds_list h ps es"
    by (auto split: hvalue.splits option.splits)
  from "8.prems"(2) [OF x(1,2)] obtain k E V where
    "owns_all h k ps E V" "agree E V h h'" "node_at (ah_vecs h') v = Some ps" by blast
  with "8.IH" [OF x(1) refl x(2,3)] x show ?case by simp
next
  case (10 h a ps e es)
  from "10.prems"(2) obtain E1 V1 E2 V2 where o: "owns h k a E1 V1" "owns_all h k ps E2 V2" "E = E1 \<union> E2" "V = V1 \<union> V2"
    by cases auto
  then have "agree E1 V1 h h'" "agree E2 V2 h h'" using "10.prems"(3) by (auto simp: agree_def)
  with o "10.IH" "10.prems"(1) show ?case by auto
qed simp_all

lemma owns_all_snoc:
  "owns_all h k ps E V \<Longrightarrow> owns h k a E' V' \<Longrightarrow> E \<inter> E' = {} \<Longrightarrow> V \<inter> V' = {} \<Longrightarrow>
   owns_all h k (ps @ [Some a]) (E \<union> E') (V \<union> V')"
proof (induction k ps E V rule: owns_owns_all.inducts(2) [where ?P1.0 = "\<lambda>_ _ _ _. True"])
  case (owns_Nil k)
  from owns_owns_all.owns_Some [OF owns_Nil(1) owns_owns_all.owns_Nil] show ?case by simp
next
  case (owns_None k ps E V)
  then show ?case by (simp add: owns_owns_all.owns_None)
next
  case (owns_Some k b E1 V1 ps E2 V2)
  then have "owns_all h k (ps @ [Some a]) (E2 \<union> E') (V2 \<union> V')" by blast
  from owns_owns_all.owns_Some [OF owns_Some.hyps(1) this] owns_Some show ?case
    by (simp add: Un_assoc Int_Un_distrib Int_Un_distrib2)
qed simp_all

text \<open>A new element, and a vector that is being filled, over the heap there was before.\<close>

definition made :: "nat \<Rightarrow> 'f aheap \<Rightarrow> 'f adata \<Rightarrow> addr \<times> 'f aheap \<Rightarrow> bool" where
  "made k h d ah' \<longleftrightarrow> (case ah' of (a, h') \<Rightarrow>
     a = length (ah_elems h) \<and> (\<exists>es vs. ah_elems h' = ah_elems h @ es \<and> ah_vecs h' = ah_vecs h @ vs) \<and>
     holds h' a d \<and> owns h' k a {a..<length (ah_elems h')} {length (ah_vecs h)..<length (ah_vecs h')})"

definition filling :: "nat \<Rightarrow> 'f aheap \<Rightarrow> 'f adata list \<Rightarrow> 'f aheap \<Rightarrow> bool" where
  "filling k h0 arr h \<longleftrightarrow> (\<exists>es vs ps. ah_elems h = ah_elems h0 @ es \<and> ah_vecs h = ah_vecs h0 @ Some ps # vs \<and>
     holds_list h ps arr \<and>
     owns_all h k ps {length (ah_elems h0)..<length (ah_elems h)} {Suc (length (ah_vecs h0))..<length (ah_vecs h)})"

lemma node_at_prefix: "a < length m \<Longrightarrow> node_at (m @ m') a = node_at m a"
  by (simp add: node_at_def nth_append)

lemma node_at_middle [simp]: "node_at (m @ Some x # m') (length m) = Some x"
  by (simp add: node_at_def)

lemma holds_list_snoc: "holds_list h ps es \<Longrightarrow> holds h a e \<Longrightarrow> holds_list h (ps @ [Some a]) (es @ [e])"
proof (induction ps arbitrary: es)
  case Nil
  then show ?case by (cases es) simp_all
next
  case (Cons p ps)
  then show ?case by (cases es; cases p) simp_all
qed

text \<open>The new element goes to the end of the vector.\<close>

lemma filling_push:
  assumes fill: "filling k h0 arr h" and made: "made k h d (a, h1)"
  shows "\<exists>ps. node_at (ah_vecs h1) (length (ah_vecs h0)) = Some ps \<and>
    filling k h0 (arr @ [d]) (h1\<lparr>ah_vecs := (ah_vecs h1)[length (ah_vecs h0) := Some (ps @ [Some a])]\<rparr>)"
proof -
  let ?v = "length (ah_vecs h0)"
  obtain es vs ps where f: "ah_elems h = ah_elems h0 @ es" "ah_vecs h = ah_vecs h0 @ Some ps # vs" "holds_list h ps arr"
    "owns_all h k ps {length (ah_elems h0)..<length (ah_elems h)} {Suc ?v..<length (ah_vecs h)}"
    using fill by (auto simp: filling_def)
  obtain es' vs' where m: "a = length (ah_elems h)" "ah_elems h1 = ah_elems h @ es'" "ah_vecs h1 = ah_vecs h @ vs'"
    "holds h1 a d" "owns h1 k a {a..<length (ah_elems h1)} {length (ah_vecs h)..<length (ah_vecs h1)}"
    using made by (auto simp: made_def)
  let ?h = "h1\<lparr>ah_vecs := (ah_vecs h1)[?v := Some (ps @ [Some a])]\<rparr>"
  have ps: "node_at (ah_vecs h1) ?v = Some ps" using f(2) m(3) by simp
  have old: "agree {length (ah_elems h0)..<length (ah_elems h)} {Suc ?v..<length (ah_vecs h)} h ?h"
    using m(2,3) by (simp add: agree_def node_at_prefix)
  have new: "agree {a..<length (ah_elems h1)} {length (ah_vecs h)..<length (ah_vecs h1)} h1 ?h"
    using f by (simp add: agree_def)
  have "holds_list ?h (ps @ [Some a]) (arr @ [d])"
    by (rule holds_list_snoc [OF holds_agree(3) [OF f(3,4) old] holds_agree(1) [OF m(4,5) new]])
  moreover have "{Suc ?v..<length (ah_vecs h)} \<union> {length (ah_vecs h)..<length (ah_vecs h1)} = {Suc ?v..<length (ah_vecs ?h)}"
    "{length (ah_elems h0)..<length (ah_elems h)} \<union> {a..<length (ah_elems h1)} = {length (ah_elems h0)..<length (ah_elems ?h)}"
    using f(1,2) m(1-3) by (auto simp: ivl_disj_un)
  moreover have "owns_all ?h k (ps @ [Some a])
      ({length (ah_elems h0)..<length (ah_elems h)} \<union> {a..<length (ah_elems h1)})
      ({Suc ?v..<length (ah_vecs h)} \<union> {length (ah_vecs h)..<length (ah_vecs h1)})"
    using m(1) by (intro owns_all_snoc owns_agree(2) [OF f(4) old] owns_agree(1) [OF m(5) new]) auto
  ultimately have "filling k h0 (arr @ [d]) ?h"
    using f(1,2) m(2,3) by (auto simp: filling_def)
  with ps show ?thesis by blast
qed

section \<open>The loops on the heap follow the loops on values\<close>

fun sim :: "('a \<Rightarrow> 'b \<Rightarrow> bool) \<Rightarrow> ad_error + 'a \<Rightarrow> 'b hrun \<Rightarrow> bool" where
  "sim P (Inl e) r = (r = Some (Inl (Inl e)))"
| "sim P (Inr x) r = (\<exists>y. r = Some (Inr y) \<and> P x y)"

lemma sim_bind: "sim P m m' \<Longrightarrow> (\<And>x y. m = Inr x \<Longrightarrow> P x y \<Longrightarrow> sim Q (f x) (f' y)) \<Longrightarrow> sim Q (bindE m f) (bindH m' f')"
  by (cases m) (auto simp: sim.simps(2))

lemma sim_parse: "(\<And>x. r = Inr x \<Longrightarrow> P x x) \<Longrightarrow> sim P r (parseH r)"
  by (cases r) (simp_all add: parseH_def sim.simps(2))

lemma parseH_error [simp]: "parseH (Inl e) = Some (Inl (Inl e))"
  by (simp add: parseH_def)

lemma sim_done [simp]: "sim P (Inr x) (doneH y) = P x y"
  by (simp add: doneH_def sim.simps(2))

declare sim.simps(2) [simp del]

text \<open>An element parser for texts of less than \<open>n\<close> characters.\<close>

definition parses :: "nat \<Rightarrow> nat \<Rightarrow> (string \<Rightarrow> ad_error + 'f adata) \<Rightarrow> 'f hparser \<Rightarrow> bool" where
  "parses k n p hp \<longleftrightarrow> (\<forall>t h. length t < n \<longrightarrow> sim (made k h) (p t) (hp t h))"

lemma sim_new_element:
  assumes "parses k n p hp" and "length t < n" and "filling k h0 arr h"
  shows "sim (\<lambda>d h'. filling k h0 (arr @ [d]) h') (new_element p t) (h_new_element hp t (length (ah_vecs h0)) h)"
proof (cases "p t")
  case (Inl e)
  with assms(1,2) have "hp t h = Some (Inl (Inl e))" by (fastforce simp: parses_def)
  with Inl show ?thesis by (simp add: new_element_def h_new_element_def)
next
  case (Inr d)
  with assms(1,2) obtain a h1 where r: "hp t h = Some (Inr (a, h1))" and m: "made k h d (a, h1)"
    by (fastforce simp: parses_def sim.simps(2))
  then have "holds h1 a d" unfolding made_def by blast
  then obtain x where x: "node_at (ah_elems h1) a = Some x" "holds_value h1 (eo_data x) (ad_data d)"
    by (cases d) (auto split: option.splits)
  then have type: "eo_data x = HNull \<longleftrightarrow> ad_GetType d = AD_NULL"
    unfolding ad_GetType_def by (cases "ad_data d") (auto simp: ad_chars)
  from filling_push [OF assms(3) m] obtain ps where "node_at (ah_vecs h1) (length (ah_vecs h0)) = Some ps"
    "filling k h0 (arr @ [d]) (h1\<lparr>ah_vecs := (ah_vecs h1)[length (ah_vecs h0) := Some (ps @ [Some a])]\<rparr>)" by blast
  then show ?thesis
    using Inr r x(1) type
    by (simp add: new_element_def h_new_element_def memH_def parseH_def onVecs_def sim.simps(2))
qed

lemma sim_nest_loop:
  assumes "parses k n p hp" and "filling k h0 arr h" and "length temp + length rest < n"
  shows "sim (\<lambda>(arr, rest) (rest', h). rest' = rest \<and> filling k h0 arr h)
    (nest_loop p temp ignore L R arr rest) (h_nest_loop hp temp ignore L R (length (ah_vecs h0)) rest h)"
  using assms(2,3)
proof (induction rest arbitrary: temp ignore L R h)
  case (Cons c cs)
  have new: "sim (\<lambda>d h'. filling k h0 (arr @ [d]) h') (new_element p (temp @ [c])) (h_new_element hp (temp @ [c]) (length (ah_vecs h0)) h)"
    by (rule sim_new_element [OF assms(1)]) (use Cons.prems in simp_all)
  have rec: "sim (\<lambda>(arr, rest) (rest', h). rest' = rest \<and> filling k h0 arr h)
      (nest_loop p (temp @ [c]) i l r arr cs) (h_nest_loop hp (temp @ [c]) i l r (length (ah_vecs h0)) cs h)" for i l r
    using Cons.prems by (intro Cons.IH) simp_all
  let ?i = "if c = AD_UNIT then \<not> ignore else ignore"
  let ?L = "if \<not> ?i \<and> c = AD_AS_LEFT then L + 1 else L" and ?R = "if \<not> ?i \<and> c = AD_AS_RIGHT then R + 1 else R"
  show ?case
  proof (cases "\<not> ?i \<and> ?L = ?R")
    case True
    have "sim (\<lambda>(arr, rest) (rest', h). rest' = rest \<and> filling k h0 arr h)
      (bindE (new_element p (temp @ [c])) (\<lambda>d. bindE (after_nested cs) (\<lambda>rest. Inr (arr @ [d], rest))))
      (bindH (h_new_element hp (temp @ [c]) (length (ah_vecs h0)) h) (\<lambda>h. bindH (parseH (after_nested cs)) (\<lambda>rest. doneH (rest, h))))"
      by (rule sim_bind [OF new], rule sim_bind [OF sim_parse [where P = "(=)"]]) simp_all
    then show ?thesis unfolding nest_loop.simps h_nest_loop.simps Let_def if_P [OF True] .
  next
    case False
    show ?thesis unfolding nest_loop.simps h_nest_loop.simps Let_def if_not_P [OF False] by (rule rec)
  qed
qed simp

lemma sim_flat_loop:
  assumes "parses k n p hp" and "filling k h0 arr h" and "length temp + length rest < n"
  shows "sim (\<lambda>(b, arr, rest) (b', rest', h). b' = b \<and> rest' = rest \<and> filling k h0 arr h)
    (flat_loop p temp ignore arr rest) (h_flat_loop hp temp ignore (length (ah_vecs h0)) rest h)"
  using assms(2,3)
proof (induction rest arbitrary: temp ignore arr h rule: length_induct)
  case (1 rest)
  let ?v = "length (ah_vecs h0)"
  let ?Q = "\<lambda>(b, arr, rest) (b', rest', h). b' = b \<and> rest' = rest \<and> filling k h0 arr h"
  show ?case
  proof (cases rest)
    case (Cons c cs)
    let ?i = "if c = AD_UNIT then \<not> ignore else ignore" and ?t = "if c = AD_UNIT then temp else temp @ [c]"
    have rec: "sim ?Q (flat_loop p ?t i arr cs) (h_flat_loop hp ?t i ?v cs h)" for i
      using "1.prems" Cons by (intro "1.IH" [rule_format]) auto
    have more: "sim ?Q
        (if x = AD_SEPERATOR \<or> x = AD_AS_RIGHT
         then bindE (new_element p ?t) (\<lambda>d.
                if x = AD_AS_RIGHT then (if xs = [] then Inr (True, arr @ [d], []) else Inl (Terminate parseErrorEnd))
                else if xs = [] then Inl (Terminate parseErrorExpected) else flat_loop p [] i (arr @ [d]) xs)
         else flat_loop p ?t i arr cs)
        (if x = AD_SEPERATOR \<or> x = AD_AS_RIGHT
         then bindH (h_new_element hp ?t ?v h) (\<lambda>h.
                if x = AD_AS_RIGHT then (if xs = [] then doneH (True, [], h) else parseH (Inl (Terminate parseErrorEnd)))
                else if xs = [] then parseH (Inl (Terminate parseErrorExpected)) else h_flat_loop hp [] i ?v xs h)
         else h_flat_loop hp ?t i ?v cs h)" if "cs = x # xs" for x xs i
    proof -
      have new: "sim (\<lambda>d h'. filling k h0 (arr @ [d]) h') (new_element p ?t) (h_new_element hp ?t ?v h)"
        by (rule sim_new_element [OF assms(1)]) (use "1.prems" Cons that in auto)
      have "sim ?Q (flat_loop p [] i (arr @ [d]) xs) (h_flat_loop hp [] i ?v xs h')" if "filling k h0 (arr @ [d]) h'" for d h'
        using "1.prems" Cons \<open>cs = x # xs\<close> that by (intro "1.IH" [rule_format]) auto
      note step = this
      show ?thesis
      proof (cases "x = AD_SEPERATOR \<or> x = AD_AS_RIGHT")
        case True
        show ?thesis unfolding if_P [OF True] by (rule sim_bind [OF new]) (use step in simp)
      next
        case False
        show ?thesis unfolding if_not_P [OF False] by (rule rec)
      qed
    qed
    show ?thesis
    proof (cases "c = AD_ARRAY")
      case True
      with Cons "1.prems" show ?thesis by simp
    next
      case False
      have eq: "(if c = AD_UNIT then (\<not> ignore, temp) else (ignore, temp @ [c])) = (?i, ?t)" by simp
      show ?thesis
      proof (cases cs)
        case Nil
        with Cons False show ?thesis by simp
      next
        case (Cons x xs)
        note unfold = \<open>rest = c # cs\<close> flat_loop.simps h_flat_loop.simps if_not_P [OF False] eq Let_def prod.case
        show ?thesis
        proof (cases ?i)
          case True
          then have i: "\<not> \<not> ?i" and ne: "cs \<noteq> []" using Cons by simp_all
          show ?thesis unfolding unfold if_not_P [OF i] if_not_P [OF ne] by (rule rec)
        next
          case i: False
          show ?thesis unfolding unfold if_P [OF i] using more [OF Cons, of ?i] unfolding Cons list.case .
        qed
      qed
    qed
  qed simp
qed

lemma sim_arr_loop:
  assumes "parses k n p hp" and "filling k h0 arr h" and "length rest < n" and "length rest < m"
  shows "sim (\<lambda>arr h. filling k h0 arr h) (arr_loop p arr rest) (h_arr_loop m hp (length (ah_vecs h0)) rest h)"
  using assms(2-4)
proof (induction m arbitrary: arr rest h)
  case (Suc m)
  let ?v = "length (ah_vecs h0)"
  show ?case
  proof (cases rest)
    case Nil
    with Suc.prems show ?thesis by (simp add: arr_loop.simps)
  next
    case (Cons c cs)
    show ?thesis
    proof (cases "c = AD_ARRAY")
      case False
      have flat: "sim (\<lambda>(b, arr, rest) (b', rest', h). b' = b \<and> rest' = rest \<and> filling k h0 arr h)
          (flat_loop p [] False arr rest) (h_flat_loop hp [] False ?v rest h)"
        using Suc.prems by (intro sim_flat_loop [OF assms(1)]) simp_all
      have "sim (\<lambda>arr h. filling k h0 arr h) (arr_loop p arr' rest') (h_arr_loop m hp ?v rest' h')"
        if "flat_loop p [] False arr rest = Inr (False, arr', rest')" and "filling k h0 arr' h'" for arr' rest' h'
        using flat_loop_shrinks [OF False, of p "[]" False arr cs] that Suc.prems Cons by (intro Suc.IH) simp_all
      then show ?thesis
        using False unfolding Cons arr_loop.simps [of p arr "c # cs"]
        by (auto intro!: sim_bind [OF flat [unfolded Cons]] simp del: flat_loop.simps h_flat_loop.simps)
    next
      case True
      show ?thesis
      proof (cases "\<exists>x xs. cs = x # xs \<and> x = AD_AS_LEFT \<and> xs \<noteq> []")
        case False
        then show ?thesis using True unfolding Cons arr_loop.simps [of p arr "c # cs"]
          by (auto simp del: nest_loop.simps h_nest_loop.simps split: list.split)
      next
        case left: True
        then obtain xs where cs: "cs = AD_AS_LEFT # xs" "xs \<noteq> []" by blast
        have nest: "sim (\<lambda>(arr, rest) (rest', h). rest' = rest \<and> filling k h0 arr h)
            (nest_loop p [c, AD_AS_LEFT] False 1 0 arr xs) (h_nest_loop hp [c, AD_AS_LEFT] False 1 0 ?v xs h)"
          using Suc.prems Cons cs by (intro sim_nest_loop [OF assms(1)]) simp_all
        have "sim (\<lambda>arr h. filling k h0 arr h) (arr_loop p arr' rest') (h_arr_loop m hp ?v rest' h')"
          if "nest_loop p [c, AD_AS_LEFT] False 1 0 arr xs = Inr (arr', rest')" and "filling k h0 arr' h'" for arr' rest' h'
          using nest_loop_shorter [OF that(1)] that(2) Suc.prems Cons cs by (intro Suc.IH) simp_all
        then show ?thesis
          using True cs unfolding Cons arr_loop.simps [of p arr "c # cs"]
          by (auto intro!: sim_bind [OF nest [unfolded True One_nat_def]] simp del: nest_loop.simps h_nest_loop.simps)
      qed
    qed
  qed
qed simp

section \<open>Objects that are parsed\<close>

text \<open>The object \<open>x\<close>, the newest of the heap before, has been filled with what \<open>BuildData\<close> returned.\<close>

definition stored :: "nat \<Rightarrow> 'f aheap \<Rightarrow> 'f eobj \<Rightarrow> 'f avalue \<times> u16 option \<Rightarrow> 'f aheap \<Rightarrow> bool" where
  "stored k h0 x vp h \<longleftrightarrow> (case vp of (v, pr) \<Rightarrow>
     (\<exists>x' es vs. ah_elems h = ah_elems h0 @ Some x' # es \<and> ah_vecs h = ah_vecs h0 @ vs \<and>
        eo_msg x' = eo_msg x \<and> eo_hasFunc x' = eo_hasFunc x) \<and>
     holds h (length (ah_elems h0)) (ad_store v pr ad_new) \<and>
     owns h k (length (ah_elems h0)) {length (ah_elems h0)..<length (ah_elems h)} {length (ah_vecs h0)..<length (ah_vecs h)})"

definition blank :: "'f eobj \<Rightarrow> bool" where
  "blank x \<longleftrightarrow> eo_data x = HNull \<and> \<not> eo_hasData x \<and> eo_precision x = None \<and> \<not> eo_protection x"

lemma h_store_eq:
  "h_store (length m) v pr \<lparr>ah_elems = m @ Some x # es, ah_vecs = vs\<rparr> =
     Some (Inr \<lparr>ah_elems = m @ Some (x\<lparr>eo_data := v, eo_hasData := v \<noteq> HNull,
       eo_precision := (case pr of None \<Rightarrow> eo_precision x | Some p \<Rightarrow> Some p)\<rparr>) # es, ah_vecs = vs\<rparr>)"
  by (simp add: h_store_def memH_def onElems_def)

lemma store_leaf:
  assumes "holds_value h v v'" and "\<And>vec. v \<noteq> HArray vec" and "blank x" and "ah_elems h = ah_elems h0 @ [Some x]"
    and "ah_vecs h = ah_vecs h0"
  shows "sim (stored (Suc k) h0 x) (Inr (v', pr)) (h_store (length (ah_elems h0)) v pr h)"
proof -
  let ?x = "x\<lparr>eo_data := v, eo_hasData := v \<noteq> HNull, eo_precision := (case pr of None \<Rightarrow> eo_precision x | Some p \<Rightarrow> Some p)\<rparr>"
  let ?h = "\<lparr>ah_elems = ah_elems h0 @ [Some ?x], ah_vecs = ah_vecs h0\<rparr>"
  have "h = \<lparr>ah_elems = ah_elems h0 @ [Some x], ah_vecs = ah_vecs h0\<rparr>" using assms(4,5) by simp
  then have s: "h_store (length (ah_elems h0)) v pr h = Some (Inr ?h)" using h_store_eq [of "ah_elems h0" v pr x "[]"] by simp
  have "{length (ah_elems h0)..<length (ah_elems ?h)} = {length (ah_elems h0)}"
    "{length (ah_vecs h0)..<length (ah_vecs ?h)} = {}" by auto
  moreover have "owns ?h (Suc k) (length (ah_elems h0)) {length (ah_elems h0)} {}"
    using assms(2) by (intro owns_leaf [where d = ?x]) simp_all
  moreover have "holds ?h (length (ah_elems h0)) (ad_store v' pr ad_new)"
    using assms(1-3) by (cases v'; cases pr) (auto simp: ad_store_def ad_new_def blank_def split: hvalue.splits)
  ultimately show ?thesis using s by (simp add: sim.simps(2) stored_def del: holds.simps)
qed

lemma sim_BuildData:
  assumes "parses k n (parse_new stof) p" and "length s \<le> n" and x: "blank x"
    and h: "ah_elems h = ah_elems h0 @ [Some x]" "ah_vecs h = ah_vecs h0"
  shows "sim (stored (Suc k) h0 x) (BuildData stof s) (h_BuildData p stof s (length (ah_elems h0)) h)"
proof (cases "\<exists>r. s = AD_ARRAY # AD_AS_LEFT # r")
  case True
  then obtain r where s: "s = AD_ARRAY # AD_AS_LEFT # r" by blast
  let ?v = "length (ah_vecs h)" and ?a = "length (ah_elems h0)" and ?h1 = "h\<lparr>ah_vecs := ah_vecs h @ [Some []]\<rparr>"
  have "filling k h [] ?h1" by (simp add: filling_def owns_Nil)
  then have loop: "sim (\<lambda>arr h'. filling k h arr h') (arr_loop (parse_new stof) [] r) (h_arr_loop (Suc (length r)) p ?v r ?h1)"
    using assms(2) s by (intro sim_arr_loop [OF assms(1)]) simp_all
  have "sim (stored (Suc k) h0 x) (Inr (VArray arr, None)) (h_store ?a (HArray (Some ?v)) None h2)"
    if "filling k h arr h2" for arr h2
  proof -
    from that h obtain es vs ps where f: "ah_elems h2 = ah_elems h0 @ Some x # es" "ah_vecs h2 = ah_vecs h0 @ Some ps # vs"
      "holds_list h2 ps arr" "owns_all h2 k ps {Suc ?a..<length (ah_elems h2)} {Suc ?v..<length (ah_vecs h2)}"
      by (auto simp: filling_def)
    let ?x = "x\<lparr>eo_data := HArray (Some ?v), eo_hasData := True, eo_precision := None\<rparr>"
    let ?h = "\<lparr>ah_elems = ah_elems h0 @ Some ?x # es, ah_vecs = ah_vecs h0 @ Some ps # vs\<rparr>"
    have "h2 = \<lparr>ah_elems = ah_elems h0 @ Some x # es, ah_vecs = ah_vecs h0 @ Some ps # vs\<rparr>" using f(1,2) by simp
    then have s: "h_store ?a (HArray (Some ?v)) None h2 = Some (Inr ?h)"
      using h_store_eq [of "ah_elems h0" "HArray (Some ?v)" None x es] x by (simp add: blank_def)
    have ag: "agree {Suc ?a..<length (ah_elems h2)} {Suc ?v..<length (ah_vecs h2)} h2 ?h"
      using f(1,2) by (auto simp: agree_def node_at_def nth_append nth_Cons split: nat.split)
    have lens: "insert ?a {Suc ?a..<length (ah_elems h2)} = {?a..<length (ah_elems ?h)}"
      "insert ?v {Suc ?v..<length (ah_vecs h2)} = {length (ah_vecs h0)..<length (ah_vecs ?h)}"
      using f(1,2) h by auto
    have v: "node_at (ah_vecs ?h) ?v = Some ps" using h by simp
    have un: "\<not> eo_protection ?x" using x by (simp add: blank_def)
    have "owns ?h (Suc k) ?a (insert ?a {Suc ?a..<length (ah_elems h2)}) (insert ?v {Suc ?v..<length (ah_vecs h2)})"
      using v un by (intro owns_array [where d = ?x and ps = ps] owns_agree(2) [OF f(4) ag]) simp_all
    moreover have "holds_list ?h ps arr" by (rule holds_agree(3) [OF f(3,4) ag])
    then have "holds ?h ?a (ad_store (VArray arr) None ad_new)"
      using v x by (simp add: ad_store_def ad_new_def blank_def)
    ultimately show ?thesis using s unfolding lens by (simp add: sim.simps(2) stored_def del: holds.simps)
  qed
  then show ?thesis
    unfolding s BuildData_array h_BuildData_def
    by (auto simp: alloc_def ad_chars Let_def intro!: sim_bind [OF loop] simp del: h_arr_loop.simps)
next
  case False
  have leaf: "sim (stored (Suc k) h0 x) (Inr (v', pr)) (h_store (length (ah_elems h0)) v pr h)"
    if "holds_value h v v'" and "\<And>vec. v \<noteq> HArray vec" for v v' pr
    by (rule store_leaf [OF that x h])
  show ?thesis
  proof (cases s)
    case Nil
    then show ?thesis by (simp add: BuildData.simps h_BuildData_def)
  next
    case (Cons type r)
    with False have "type = AD_ARRAY \<Longrightarrow> r \<noteq> [] \<Longrightarrow> hd r \<noteq> AD_AS_LEFT" by (cases r) auto
    then show ?thesis unfolding Cons BuildData.simps [of stof "type # r"] h_BuildData_def
      by (auto simp: leaf split: sum.split)
  qed
qed

lemma parses_parse_new: "parses k k (parse_new stof) (h_parse_new k stof)"
proof (induction k)
  case 0
  show ?case by (simp add: parses_def)
next
  case (Suc k)
  show ?case
    unfolding parses_def
  proof (intro allI impI)
    fix t :: string and h :: "'a aheap"
    assume t: "length t < Suc k"
    let ?h = "h\<lparr>ah_elems := ah_elems h @ [Some (eo_new None)]\<rparr>"
    have blank: "blank (eo_new None)" by (simp add: blank_def eo_new_def)
    have build: "sim (stored (Suc k) h (eo_new None)) (BuildData stof t)
        (h_BuildData (h_parse_new k stof) stof t (length (ah_elems h)) ?h)"
      using t by (intro sim_BuildData [OF Suc.IH _ blank]) simp_all
    have empty: "made (Suc k) h ad_new (length (ah_elems h), ?h)"
    proof -
      have "owns ?h (Suc k) (length (ah_elems h)) {length (ah_elems h)} {}"
        by (rule owns_leaf [where d = "eo_new None"]) (simp_all add: eo_new_def)
      moreover have "{length (ah_elems h)..<length (ah_elems ?h)} = {length (ah_elems h)}" by auto
      ultimately show ?thesis by (simp add: made_def ad_new_def eo_new_def)
    qed
    have "sim (made (Suc k) h) (Inr (ad_store v pr ad_new)) (doneH (length (ah_elems h), h'))"
      if "stored (Suc k) h (eo_new None) (v, pr) h'" for v pr h'
      using that by (auto simp: stored_def made_def)
    then show "sim (made (Suc k) h) (parse_new stof t) (h_parse_new (Suc k) stof t h)"
      using empty by (auto simp: parse_new_def alloc_def Let_def intro!: sim_bind [OF build])
  qed
qed

text \<open>A message that is parsed, and all the memory it takes.\<close>

definition made_message :: "nat \<Rightarrow> 'f aheap \<Rightarrow> 'f amessage \<Rightarrow> addr \<times> 'f aheap \<Rightarrow> bool" where
  "made_message k h m ah' \<longleftrightarrow> (case ah' of (a, h') \<Rightarrow>
     a = length (ah_elems h) \<and> (\<exists>es vs. ah_elems h' = ah_elems h @ es \<and> ah_vecs h' = ah_vecs h @ vs) \<and>
     holds_message h' a m \<and> owns h' k a {a..<length (ah_elems h')} {length (ah_vecs h)..<length (ah_vecs h')})"

lemma made_message_blank:
  assumes "blank x" and "eo_msg x = Some (am_name m)" and "eo_hasFunc x = am_hasFunc m" and "am_data m = ad_new"
  shows "made_message (Suc k) h m (length (ah_elems h), h\<lparr>ah_elems := ah_elems h @ [Some x]\<rparr>)"
proof -
  let ?h = "h\<lparr>ah_elems := ah_elems h @ [Some x]\<rparr>"
  have "owns ?h (Suc k) (length (ah_elems h)) {length (ah_elems h)} {}"
    using assms(1) by (intro owns_leaf [where d = x]) (simp_all add: blank_def)
  moreover have "{length (ah_elems h)..<length (ah_elems ?h)} = {length (ah_elems h)}" by auto
  ultimately show ?thesis using assms by (simp add: made_message_def holds_message_def ad_new_def blank_def)
qed

lemma made_message_stored:
  assumes "stored k h x (v, pr) h'" and "eo_msg x = Some (am_name m)" and "eo_hasFunc x = am_hasFunc m"
    and "am_data m = ad_store v pr ad_new"
  shows "made_message k h m (length (ah_elems h), h')"
  using assms by (auto simp: stored_def made_message_def holds_message_def)

lemma sim_am_of: "sim (made_message (Suc (length t)) h) (am_of stof t) (h_am_of stof t h)"
proof (cases t)
  case Nil
  show ?thesis
    using made_message_blank [of "eo_new (Some [])" am_new]
    by (simp add: Nil am_of_def am_ParseArmaData_def h_am_of_def alloc_def blank_def eo_new_def am_new_def)
next
  case (Cons c cs)
  let ?null = "c = AD_STRING \<or> c = AD_FLOAT \<or> c = AD_SIGNED \<or> c = AD_UNSIGNED \<or> c = AD_ADDRESS \<or> c = AD_ARRAY"
  let ?p = "h_parse_new (length t) stof" and ?a = "length (ah_elems h)"
  have build: "sim (stored (Suc (length t)) h x) (BuildData stof s) (h_BuildData ?p stof s ?a (h\<lparr>ah_elems := ah_elems h @ [Some x]\<rparr>))"
    if "blank x" and "length s \<le> length t" for x s
    using that by (intro sim_BuildData [OF parses_parse_new]) simp_all
  show ?thesis
  proof (cases ?null)
    case True
    let ?x = "(eo_new (Some []))\<lparr>eo_hasFunc := False\<rparr>"
    have "blank ?x" by (simp add: blank_def eo_new_def)
    note b = build [OF this, of t]
    have "am_of stof t = bindE (BuildData stof t) (\<lambda>(v, pr). Inr (am_new\<lparr>am_hasFunc := False, am_data := ad_store v pr ad_new\<rparr>))"
      using True by (simp add: Cons am_of_def am_ParseArmaData_def ad_ParseData_def am_new_def ad_new_def bindE_assoc Let_def split_def)
    moreover have "h_am_of stof t h = bindH (h_BuildData ?p stof t ?a (h\<lparr>ah_elems := ah_elems h @ [Some ?x]\<rparr>)) (\<lambda>h. doneH (?a, h))"
      using True by (simp add: Cons h_am_of_def alloc_def memH_def onElems_def Let_def)
    moreover have "made_message (Suc (length t)) h (am_new\<lparr>am_hasFunc := False, am_data := ad_store v pr ad_new\<rparr>) (?a, h')"
      if "stored (Suc (length t)) h ?x (v, pr) h'" for v pr h'
      using that by (rule made_message_stored) (simp_all add: am_new_def eo_new_def)
    ultimately show ?thesis by (auto intro!: sim_bind [OF b])
  next
    case False
    let ?name = "takeWhile (\<lambda>c. c \<noteq> AD_SEPERATOR) t" and ?rest = "dropWhile (\<lambda>c. c \<noteq> AD_SEPERATOR) t"
    let ?x = "(eo_new (Some ?name))\<lparr>eo_hasFunc := True\<rparr>"
    have blank: "blank ?x" by (simp add: blank_def eo_new_def)
    have len: "length (tl ?rest) \<le> length t" using length_dropWhile_le [of _ t] by (simp add: le_diff_conv le_SucI)
    note b = build [OF blank len]
    have "am_of stof t = (if ?rest = [] then Inr (am_new\<lparr>am_hasFunc := True, am_name := ?name\<rparr>)
        else bindE (BuildData stof (tl ?rest)) (\<lambda>(v, pr).
          Inr (am_new\<lparr>am_hasFunc := True, am_name := ?name, am_data := ad_store v pr ad_new\<rparr>)))"
      using False by (simp add: Cons am_of_def am_ParseArmaData_def ad_ParseData_def am_new_def ad_new_def bindE_assoc Let_def split_def)
    moreover have "h_am_of stof t h = (if ?rest = [] then doneH (?a, h\<lparr>ah_elems := ah_elems h @ [Some ?x]\<rparr>)
        else bindH (h_BuildData ?p stof (tl ?rest) ?a (h\<lparr>ah_elems := ah_elems h @ [Some ?x]\<rparr>)) (\<lambda>h. doneH (?a, h)))"
      using False by (simp add: Cons h_am_of_def alloc_def memH_def onElems_def Let_def eo_new_def)
    moreover have "made_message (Suc (length t)) h (am_new\<lparr>am_hasFunc := True, am_name := ?name\<rparr>)
        (?a, h\<lparr>ah_elems := ah_elems h @ [Some ?x]\<rparr>)"
      using blank by (intro made_message_blank) (simp_all add: am_new_def eo_new_def)
    moreover have "made_message (Suc (length t)) h (am_new\<lparr>am_hasFunc := True, am_name := ?name, am_data := ad_store v pr ad_new\<rparr>) (?a, h')"
      if "stored (Suc (length t)) h ?x (v, pr) h'" for v pr h'
      using that by (rule made_message_stored) (simp_all add: am_new_def eo_new_def)
    ultimately show ?thesis by (auto intro!: sim_bind [OF b])
  qed
qed

section \<open>Properties\<close>

lemma node_at_beyond: "length m \<le> a \<Longrightarrow> node_at m a = None"
  by (simp add: node_at_def)

text \<open>Whatever is freed of a message that was parsed, the heap is as before.\<close>

lemma made_message_freed:
  assumes "made_message k h m (msg, h')" and "free {msg..<length (ah_elems h')} {length (ah_vecs h)..<length (ah_vecs h')} h' = h''"
  shows "node_at (ah_elems h'') a = node_at (ah_elems h) a" and "node_at (ah_vecs h'') a = node_at (ah_vecs h) a"
  using assms by (auto simp: made_message_def free_def node_at_prefix node_at_beyond not_less)

text \<open>
  C11: Parsing a message takes memory for that message and nothing else. The parser on the heap ends on
  every text, reports the errors of the parser on values, and otherwise leaves an object that is the
  value parsed; deleting it ends, follows no dangling pointer, and leaves the heap as it was before.
\<close>

theorem parsed_message_freed:
  "(\<forall>e. am_of stof t = Inl e \<longrightarrow> h_am_of stof t h = Some (Inl (Inl e))) \<and>
   (\<forall>m. am_of stof t = Inr m \<longrightarrow>
      (\<exists>msg h' h''. h_am_of stof t h = Some (Inr (msg, h')) \<and> holds_message h' msg m \<and>
         delete_elem (Suc (length t)) msg h' = Some (Inr h'') \<and>
         (\<forall>a. node_at (ah_elems h'') a = node_at (ah_elems h) a) \<and>
         (\<forall>v. node_at (ah_vecs h'') v = node_at (ah_vecs h) v)))"
proof (intro conjI allI impI)
  fix e assume "am_of stof t = Inl e"
  with sim_am_of [of t h stof] show "h_am_of stof t h = Some (Inl (Inl e))" by simp
next
  fix m assume "am_of stof t = Inr m"
  with sim_am_of [of t h stof] obtain msg h' where r: "h_am_of stof t h = Some (Inr (msg, h'))"
    and m: "made_message (Suc (length t)) h m (msg, h')" by (auto simp: sim.simps(2))
  then have "owns h' (Suc (length t)) msg {msg..<length (ah_elems h')} {length (ah_vecs h)..<length (ah_vecs h')}"
    and "holds_message h' msg m" by (auto simp: made_message_def)
  with r delete_owned(1) [OF this(1) agree_refl] made_message_freed [OF m refl] show
    "\<exists>msg h' h''. h_am_of stof t h = Some (Inr (msg, h')) \<and> holds_message h' msg m \<and>
       delete_elem (Suc (length t)) msg h' = Some (Inr h'') \<and>
       (\<forall>a. node_at (ah_elems h'') a = node_at (ah_elems h) a) \<and>
       (\<forall>v. node_at (ah_vecs h'') v = node_at (ah_vecs h) v)"
    by blast
qed

lemma commit_heap_loop_total:
  assumes "holds_list h ps es" and "\<forall>e\<in>set es. \<exists>es'. ad_data e = VArray es'" and "ah_elems h1 = ah_elems h @ xs"
  shows "\<exists>cms h'. commit_heap_loop ps h1 = Inr (cms, h') \<and> length cms = length es"
  using assms
proof (induction ps arbitrary: es h1 xs)
  case Nil
  then show ?case by (cases es) simp_all
next
  case (Cons p ps)
  then obtain a e es' where e: "p = Some a" "es = e # es'" "holds h a e" "holds_list h ps es'"
    by (cases p; cases es) simp_all
  with Cons.prems(2) obtain fs where "ad_data e = VArray fs" by auto
  with e(3) obtain d vec where d: "node_at (ah_elems h) a = Some d" "eo_data d = HArray (Some vec)"
    by (cases e) (auto split: option.splits hvalue.splits)
  then have "as_vec p h1 = Inr (Some vec)"
    using Cons.prems(3) e(1) node_at_less [OF d(1)] by (simp add: as_vec_def node_at_prefix)
  moreover have "\<exists>cms h'. commit_heap_loop ps (h1\<lparr>ah_elems := ah_elems h1 @ [Some (new_commit (Some vec))]\<rparr>) = Inr (cms, h') \<and>
      length cms = length es'"
    using Cons.prems(2,3) e(2,4) by (intro Cons.IH [of es' _ "xs @ [Some (new_commit (Some vec))]"]) simp_all
  ultimately show ?case using e(2) by (auto simp: alloc_def)
qed

text \<open>
  C40: A message that is parsed as an array of arrays can be committed, and every object is freed exactly
  once: the messages \<open>Commit\<close> makes are new, one for each element, and share the vectors of the message
  parsed; when the sessions have deleted theirs, in any order, that message is still whole for the
  cleanup thread, and once it deletes it the heap is as before the call.
\<close>

theorem parsed_Commit_frees_once:
  assumes "am_of stof t = Inr m" and "ad_data (am_data m) = VArray es" and "\<forall>e\<in>set es. \<exists>es'. ad_data e = VArray es'"
  shows "\<exists>msg h cms h'. h_am_of stof t h0 = Some (Inr (msg, h)) \<and> commit_heap msg h = Inr (cms, h') \<and>
    length cms = length es \<and> distinct cms \<and>
    (\<forall>cs. distinct cs \<and> set cs = set cms \<longrightarrow>
       (\<exists>h1 h2. delete_elems (Suc (length t)) cs h' = Some (Inr h1) \<and> holds_message h1 msg m \<and>
          delete_elem (Suc (length t)) msg h1 = Some (Inr h2) \<and>
          (\<forall>a. node_at (ah_elems h2) a = node_at (ah_elems h0) a) \<and>
          (\<forall>v. node_at (ah_vecs h2) v = node_at (ah_vecs h0) v)))"
proof -
  from sim_am_of [of t h0 stof] assms(1) obtain msg h where r: "h_am_of stof t h0 = Some (Inr (msg, h))"
    and m: "made_message (Suc (length t)) h0 m (msg, h)" by (auto simp: sim.simps(2))
  let ?E = "{msg..<length (ah_elems h)}" and ?V = "{length (ah_vecs h0)..<length (ah_vecs h)}"
  from m have own: "owns h (Suc (length t)) msg ?E ?V" and held: "holds_message h msg m" by (auto simp: made_message_def)
  obtain d v ps where d: "node_at (ah_elems h) msg = Some d" "eo_data d = HArray (Some v)" "eo_msg d = Some (am_name m)"
    "node_at (ah_vecs h) v = Some ps" "holds_list h ps es"
    using held assms(2) by (cases "am_data m") (auto simp: holds_message_def split: option.splits hvalue.splits)
  obtain cms h' where "commit_heap_loop ps h = Inr (cms, h')" "length cms = length es"
    using commit_heap_loop_total [OF d(5) assms(3), of h "[]"] by auto
  then have c: "commit_heap msg h = Inr (cms, h')" "length cms = length es"
    using d by (simp_all add: commit_heap_def AsArmaMsg_def as_vec_def)
  have "\<exists>h1 h2. delete_elems (Suc (length t)) cs h' = Some (Inr h1) \<and> holds_message h1 msg m \<and>
      delete_elem (Suc (length t)) msg h1 = Some (Inr h2) \<and>
      (\<forall>a. node_at (ah_elems h2) a = node_at (ah_elems h0) a) \<and> (\<forall>v. node_at (ah_vecs h2) v = node_at (ah_vecs h0) v)"
    if cs: "distinct cs" "set cs = set cms" for cs
  proof -
    from Commit_frees_once [OF own c(1) cs] obtain h1 h2 where f: "delete_elems (Suc (length t)) cs h' = Some (Inr h1)"
      "agree ?E ?V h h1" "delete_elem (Suc (length t)) msg h1 = Some (Inr h2)"
      "\<And>a. node_at (ah_elems h2) a = (if a \<in> ?E then None else node_at (ah_elems h) a)"
      "\<And>v. node_at (ah_vecs h2) v = (if v \<in> ?V then None else node_at (ah_vecs h) v)" by blast
    have "node_at (ah_elems h1) msg = Some d" using f(2) d(1) node_at_less [OF d(1)] by (simp add: agree_def)
    then have "holds_message h1 msg m"
      using held d(1) holds_agree(1) [OF _ own f(2)] by (auto simp: holds_message_def)
    with f made_message_freed [OF m refl] show ?thesis by (simp add: free_def)
  qed
  with r c commit_heap_appends(4) [OF c(1)] show ?thesis by blast
qed

text \<open>The commit of one session, as the game sends it: the addresses of its two objects.\<close>

definition demo_pair :: "string adata list" where
  "demo_pair = [AData (VArray [AData (VAddress 4096) True None False, AData (VAddress 8192) True None False]) True None False]"

definition demo_text :: string where
  "demo_text = ''Commit'' @ AD_SEPERATOR # AD_ARRAY # AD_AS_LEFT # join example_fixed demo_pair @ [AD_AS_RIGHT]"

lemma demo_text_parsed:
  "am_of Inr demo_text = Inr \<lparr>am_name = ''Commit'', am_hasFunc = True, am_data = AData (VArray demo_pair) True None False\<rparr>"
proof -
  let ?m = "\<lparr>am_name = ''Commit'', am_hasFunc = True, am_data = AData (VArray demo_pair) True None False\<rparr>"
  have rt: "rt_elems Inr example_fixed demo_pair" by (simp add: demo_pair_def)
  have "am_ParseArmaData Inr demo_text am_new = Inr (True, ?m)"
    unfolding demo_text_def by (rule am_ParseArmaData_call [OF _ rt]) (simp_all add: demo_pair_def ad_chars)
  then show ?thesis by (simp add: am_of_def)
qed

lemma node_at_Nil: "node_at [] a = None"
  by (simp add: node_at_def)

lemma parsed_message_freed_witness:
  "\<exists>msg h' h''. h_am_of Inr demo_text \<lparr>ah_elems = [], ah_vecs = []\<rparr> = Some (Inr (msg, h')) \<and>
     delete_elem (Suc (length demo_text)) msg h' = Some (Inr h'') \<and>
     (\<forall>a. node_at (ah_elems h'') a = None) \<and> (\<forall>v. node_at (ah_vecs h'') v = None)"
  using conjunct2 [OF parsed_message_freed [of Inr demo_text "\<lparr>ah_elems = [], ah_vecs = []\<rparr>"], rule_format, OF demo_text_parsed]
  unfolding aheap.select_convs node_at_Nil by blast

lemma parsed_Commit_frees_once_witness:
  "\<exists>msg h cms h' h1 h2. h_am_of Inr demo_text \<lparr>ah_elems = [], ah_vecs = []\<rparr> = Some (Inr (msg, h)) \<and>
     commit_heap msg h = Inr (cms, h') \<and> length cms = 1 \<and>
     delete_elems (Suc (length demo_text)) cms h' = Some (Inr h1) \<and> delete_elem (Suc (length demo_text)) msg h1 = Some (Inr h2) \<and>
     (\<forall>a. node_at (ah_elems h2) a = None)"
proof -
  let ?h0 = "\<lparr>ah_elems = [], ah_vecs = []\<rparr> :: string aheap"
  have "ad_data (am_data \<lparr>am_name = ''Commit'', am_hasFunc = True, am_data = AData (VArray demo_pair) True None False\<rparr>) = VArray demo_pair"
    "\<forall>e\<in>set demo_pair. \<exists>es'. ad_data e = VArray es'" "length demo_pair = 1"
    by (simp_all add: demo_pair_def)
  with parsed_Commit_frees_once [OF demo_text_parsed this(1,2), of ?h0] show ?thesis
    unfolding aheap.select_convs node_at_Nil by metis
qed

end
