(* ===== verification/Arma_Typing.thy ===== *)
theory Arma_Typing
  imports Arma_Roundtrip
begin

text \<open>
  What the parser delivers has types all the way down: every element has data of its kind, owns it, and
  has a precision exactly if it is a \<open>float\<close>. So the accessors see what the type promises, and the
  printer never reads a precision nobody assigned.
\<close>

section \<open>Types\<close>

fun wt_data :: "'f adata \<Rightarrow> bool"
  and wt_value :: "u16 option \<Rightarrow> 'f avalue \<Rightarrow> bool" where
  "wt_data (AData v h pr prot) = (h \<and> \<not> prot \<and> wt_value pr v)"
| "wt_value pr VNull = False"
| "wt_value pr (VFloat f) = (pr \<noteq> None)"
| "wt_value pr (VArray es) = (pr = None \<and> (\<forall>e\<in>set es. wt_data e))"
| "wt_value pr (VString s) = (pr = None)"
| "wt_value pr (VSigned i) = (pr = None)"
| "wt_value pr (VUnsigned u) = (pr = None)"
| "wt_value pr (VAddress a) = (pr = None)"

text \<open>A parser of elements that delivers typed data or none.\<close>

definition wt_parser :: "(string \<Rightarrow> ad_error + 'f adata) \<Rightarrow> bool" where
  "wt_parser p \<longleftrightarrow> (\<forall>t d. p t = Inr d \<longrightarrow> wt_data d \<or> ad_GetType d = AD_NULL)"

lemma wt_new_element: "wt_parser p \<Longrightarrow> new_element p t = Inr d \<Longrightarrow> wt_data d"
  by (auto simp: wt_parser_def new_element_def bindE_Inr_iff split: if_splits)

section \<open>The loops\<close>

lemma nest_loop_wt:
  assumes "wt_parser p" and "nest_loop p temp ignore L R arr rest = Inr (arr', rest')" and "\<forall>e\<in>set arr. wt_data e"
  shows "\<forall>e\<in>set arr'. wt_data e"
  using assms(2,3)
proof (induction rest arbitrary: temp ignore L R)
  case (Cons c cs)
  from Cons.prems(1) show ?case
    using Cons.IH [OF _ Cons.prems(2)] wt_new_element [OF assms(1)] Cons.prems(2)
    by (auto simp: Let_def bindE_Inr_iff split: if_splits)
qed simp

lemma flat_loop_cases:
  assumes "c \<noteq> AD_ARRAY" and "flat_loop p temp ignore arr (c # cs) = Inr r"
  shows "(\<exists>t i. flat_loop p t i arr cs = Inr r) \<or>
    (\<exists>x xs t d i. cs = x # xs \<and> new_element p t = Inr d \<and> flat_loop p [] i (arr @ [d]) xs = Inr r) \<or>
    (\<exists>t d. new_element p t = Inr d \<and> r = (True, arr @ [d], []))"
proof -
  have "flat_loop p temp ignore arr (c # cs) = Inr r" by fact
  then show ?thesis
    unfolding flat_loop.simps(2) [of p temp ignore arr c cs] using assms(1)
    by (cases cs; cases "c = AD_UNIT"; cases ignore)
      (simp_all add: bindE_Inr_iff del: flat_loop.simps split: if_splits; blast)+
qed

lemma flat_loop_wt:
  assumes "wt_parser p" and "flat_loop p temp ignore arr rest = Inr (b, arr', rest')" and "\<forall>e\<in>set arr. wt_data e"
  shows "\<forall>e\<in>set arr'. wt_data e"
  using assms(2,3)
proof (induction rest arbitrary: temp ignore arr rule: length_induct)
  case (1 rest)
  show ?case
  proof (cases rest)
    case (Cons c cs)
    have IH: "\<forall>e\<in>set arr'. wt_data e"
      if "length r < length rest" "flat_loop p t i a r = Inr (b, arr', rest')" "\<forall>e\<in>set a. wt_data e" for r t i a
      using "1.IH" that by blast
    show ?thesis
    proof (cases "c = AD_ARRAY")
      case False
      from flat_loop_cases [OF this "1.prems"(1) [unfolded Cons]] consider
        t i where "flat_loop p t i arr cs = Inr (b, arr', rest')"
      | x xs t d i where "cs = x # xs" "new_element p t = Inr d" "flat_loop p [] i (arr @ [d]) xs = Inr (b, arr', rest')"
      | t d where "new_element p t = Inr d" "arr' = arr @ [d]"
        by auto
      then show ?thesis
      proof cases
        case 1
        from IH [OF _ this "1.prems"(2)] Cons show ?thesis by simp
      next
        case 2
        from IH [OF _ 2(3)] Cons 2(1) wt_new_element [OF assms(1) 2(2)] "1.prems"(2) show ?thesis by simp
      next
        case 3
        with wt_new_element [OF assms(1) 3(1)] "1.prems"(2) show ?thesis by simp
      qed
    qed (use "1.prems" Cons in simp)
  qed (use "1.prems" in simp)
qed

lemma arr_loop_wt:
  "wt_parser p \<Longrightarrow> arr_loop p arr rest = Inr arr' \<Longrightarrow> \<forall>e\<in>set arr. wt_data e \<Longrightarrow> \<forall>e\<in>set arr'. wt_data e"
proof (induction p arr rest rule: arr_loop.induct)
  case (1 p arr rest)
  show ?case
  proof (cases rest)
    case Nil
    with "1.prems" show ?thesis by (simp add: arr_loop.simps)
  next
    case (Cons c cs)
    show ?thesis
    proof (cases "c = AD_ARRAY")
      case True
      with "1.prems"(2) Cons obtain xs r arr1 where x: "cs = AD_AS_LEFT # xs" "xs \<noteq> []"
        "nest_loop p [c, AD_AS_LEFT] False 1 0 arr xs = Inr (arr1, r)" "arr_loop p arr1 r = Inr arr'"
        by (subst (asm) arr_loop.simps) (auto simp: bindE_Inr_iff split: list.splits if_splits)
      have "AD_AS_LEFT = AD_AS_LEFT \<and> xs \<noteq> []" using x(2) by simp
      from "1.IH"(1) [OF Cons True x(1) this x(3) refl "1.prems"(1) x(4)]
        nest_loop_wt [OF "1.prems"(1) x(3) "1.prems"(3)] show ?thesis by blast
    next
      case False
      with "1.prems"(2) Cons obtain b arr1 r where f: "flat_loop p [] False arr rest = Inr (b, arr1, r)"
        "if b then arr' = arr1 else arr_loop p arr1 r = Inr arr'"
        by (subst (asm) arr_loop.simps) (auto simp: bindE_Inr_iff split: if_splits)
      note typed = flat_loop_wt [OF "1.prems"(1) f(1) "1.prems"(3)]
      show ?thesis
      proof (cases b)
        case True
        with f(2) typed show ?thesis by simp
      next
        case b: False
        then have "arr_loop p arr1 r = Inr arr'" using f(2) by simp
        from "1.IH"(2) [OF Cons False f(1) refl refl b "1.prems"(1) this typed] show ?thesis .
      qed
    qed
  qed
qed

section \<open>The parser\<close>

lemma wt_store:
  assumes "v \<noteq> VNull \<Longrightarrow> wt_value pr v"
  shows "if v = VNull then ad_data (ad_store v pr ad_new) = VNull \<and> \<not> ad_hasData (ad_store v pr ad_new)
    else wt_data (ad_store v pr ad_new) \<and> ad_hasData (ad_store v pr ad_new)"
  using assms by (cases v; cases pr) (simp_all add: ad_store_def ad_new_def)

lemma BuildData_wt: "BuildData stof s = Inr (v, pr) \<Longrightarrow> v \<noteq> VNull \<Longrightarrow> wt_value pr v"
proof (induction s arbitrary: v pr rule: length_induct)
  case (1 s)
  from "1.prems"(1) obtain type r where s: "s = type # r" "r \<noteq> []"
    by (subst (asm) BuildData.simps) (auto split: list.splits if_splits)
  let ?p = "\<lambda>t. if length t < length s then parse_new stof t else Inl EndDeref"
  have parser: "wt_parser ?p"
    unfolding wt_parser_def
  proof (intro allI impI)
    fix t d assume "?p t = Inr d"
    then have t: "length t < length s" "parse_new stof t = Inr d" by (auto split: if_splits)
    show "wt_data d \<or> ad_GetType d = AD_NULL"
    proof (cases "t = []")
      case True
      with t(2) have "d = ad_new" by (simp add: parse_new_def)
      then show ?thesis by (simp add: ad_new_def ad_GetType_def)
    next
      case False
      with t(2) obtain w q where w: "BuildData stof t = Inr (w, q)" "d = ad_store w q ad_new"
        by (auto simp: parse_new_def bindE_Inr_iff)
      have "w \<noteq> VNull \<Longrightarrow> wt_value q w" using "1.IH" t(1) w(1) by blast
      from wt_store [OF this] w(2) show ?thesis by (auto simp: ad_GetType_def split: if_splits)
    qed
  qed
  have array: "\<forall>e\<in>set arr. wt_data e" if "arr_loop (parse_new stof) [] (tl r) = Inr arr" for arr
  proof -
    have "arr_loop (parse_new stof) [] (tl r) = arr_loop ?p [] (tl r)" using s by (cases r) (auto intro!: arr_loop_cong)
    with that arr_loop_wt [OF parser, of "[]" "tl r" arr] show ?thesis by simp
  qed
  show ?case
  proof (cases "type = AD_ARRAY \<and> hd r = AD_AS_LEFT")
    case True
    then have "s = AD_ARRAY # AD_AS_LEFT # tl r" using s by (cases r) auto
    with "1.prems"(1) obtain arr where "arr_loop (parse_new stof) [] (tl r) = Inr arr" "v = VArray arr" "pr = None"
      by (auto simp: BuildData_array bindE_Inr_iff)
    with array show ?thesis by simp
  next
    case False
    with "1.prems" s show ?thesis
      by (subst (asm) BuildData.simps) (auto split: if_splits sum.splits)
  qed
qed

text \<open>
  C17: Whatever text the game sends: if it parses, the message has no data, or its data is typed down to the
  last element of the last nested array: every element has data of a kind, does not protect it, and has
  a precision exactly if it is a \<open>float\<close>.
\<close>

theorem parsed_message_typed:
  assumes "am_of stof s = Inr m"
  shows "if ad_hasData (am_data m) then wt_data (am_data m) else ad_data (am_data m) = VNull"
proof -
  have data: "if ad_hasData d then wt_data d else ad_data d = VNull"
    if "ad_ParseData stof w rest ad_new = Inr (ok, d)" for w rest ok d
  proof (cases "w = []")
    case True
    with that have "d = ad_new" by (simp add: ad_ParseData_def)
    then show ?thesis by (simp add: ad_new_def)
  next
    case False
    with that obtain v pr where v: "BuildData stof rest = Inr (v, pr)" "d = ad_store v pr ad_new"
      by (auto simp: ad_ParseData_def ad_new_def bindE_Inr_iff Let_def)
    from wt_store [OF BuildData_wt [OF v(1)]] v(2) show ?thesis by (auto split: if_splits)
  qed
  from assms obtain ok where p: "am_ParseArmaData stof s am_new = Inr (ok, m)" by (auto simp: am_of_def bindE_Inr_iff)
  consider "am_data m = ad_new" | w rest ok' where "ad_ParseData stof w rest ad_new = Inr (ok', am_data m)"
  proof (cases s)
    case Nil
    with p that(1) show ?thesis by (auto simp: am_ParseArmaData_def am_new_def)
  next
    case (Cons c cs)
    with p that show ?thesis
      by (auto simp: am_ParseArmaData_def am_new_def bindE_Inr_iff Let_def ad_new_def split: if_splits)
  qed
  then show ?thesis
  proof cases
    case 1
    then show ?thesis by (simp add: ad_new_def)
  next
    case 2
    then show ?thesis by (rule data)
  qed
qed

lemma parsed_message_typed_witness:
  "\<exists>m. am_of Inr (''Connect'' @ AD_SEPERATOR # AD_ARRAY # AD_AS_LEFT # join example_fixed example_elements @ [AD_AS_RIGHT]) = Inr m \<and>
     ad_data (am_data m) = VArray example_elements \<and> wt_data (am_data m)"
proof -
  let ?text = "''Connect'' @ AD_SEPERATOR # AD_ARRAY # AD_AS_LEFT # join example_fixed example_elements @ [AD_AS_RIGHT]"
  let ?m = "\<lparr>am_name = ''Connect'', am_hasFunc = True, am_data = AData (VArray example_elements) True None False\<rparr>"
  have rt: "rt_elems Inr example_fixed example_elements"
    by (simp add: example_elements_def example_fixed_def rt_string_def rt_float_def plain_def ad_chars DecimalPlaces_def)
  have "am_ParseArmaData Inr ?text am_new = Inr (True, ?m)"
    by (rule am_ParseArmaData_call [OF _ rt]) (simp_all add: example_elements_def ad_chars)
  then have "am_of Inr ?text = Inr ?m" by (simp add: am_of_def)
  from parsed_message_typed [OF this] this show ?thesis by (intro exI [of _ ?m]) simp
qed

end
