(* ===== verification/Error_File.thy ===== *)
theory Error_File
  imports Prelude
begin

text \<open>
  \<open>ErrorFile\<close> of \<^verbatim>\<open>OPFL/ThreadHive.h\<close>: the log \<open>tHiveError\<close> to which every component writes, and through
  which the parser ends the process. The part of \<open>std::ofstream\<close> the class uses is modelled with it:
  a stream has a buffer, and what the buffer holds when the process ends never reaches the file.
\<close>

section \<open>Streams\<close>

text \<open>
  The files by name, the names that cannot be opened and the text sent to \<open>std::cerr\<close>, which has no
  buffer. A line ends with one character, as the program sees it.
\<close>

record disk =
  dk_files :: "string \<Rightarrow> string option"
  dk_denied :: "string \<Rightarrow> bool"
  dk_cerr :: string

text \<open>\<open>os_file\<close> is the file the stream is open on; \<open>os_fail\<close> stands for its failbit and badbit.\<close>

record ofstream =
  os_file :: "string option"
  os_buffer :: string
  os_fail :: bool

definition ofstream_new :: ofstream where
  "ofstream_new = \<lparr>os_file = None, os_buffer = [], os_fail = False\<rparr>"

definition contents :: "string \<Rightarrow> disk \<Rightarrow> string" where
  "contents name dk = (case dk_files dk name of None \<Rightarrow> [] | Some s \<Rightarrow> s)"

definition put_text :: "string \<Rightarrow> string \<Rightarrow> disk \<Rightarrow> disk" where
  "put_text name s dk = dk\<lparr>dk_files := (dk_files dk)(name := Some (contents name dk @ s))\<rparr>"

datatype openmode = Trunc | App

text \<open>\<open>open\<close> fails on a stream that is open already.\<close>

definition os_open :: "string \<Rightarrow> openmode \<Rightarrow> ofstream \<Rightarrow> disk \<Rightarrow> ofstream \<times> disk" where
  "os_open name mode os dk =
     (if os_file os \<noteq> None \<or> dk_denied dk name then (os\<lparr>os_fail := True\<rparr>, dk)
      else (\<lparr>os_file = Some name, os_buffer = [], os_fail = False\<rparr>,
            dk\<lparr>dk_files := (dk_files dk)(name := Some (case mode of Trunc \<Rightarrow> [] | App \<Rightarrow> contents name dk))\<rparr>))"

definition os_close :: "ofstream \<Rightarrow> disk \<Rightarrow> ofstream \<times> disk" where
  "os_close os dk =
     (case os_file os of
        None \<Rightarrow> (os\<lparr>os_fail := True\<rparr>, dk)
      | Some name \<Rightarrow> (os\<lparr>os_file := None, os_buffer := []\<rparr>, put_text name (os_buffer os) dk))"

text \<open>
  \<open>operator<<\<close>. How much of the buffer a write passes on to the file is up to the library: the
  parameter \<open>spill\<close>.
\<close>

definition os_write :: "(string \<Rightarrow> nat) \<Rightarrow> string \<Rightarrow> ofstream \<Rightarrow> disk \<Rightarrow> ofstream \<times> disk" where
  "os_write spill s os dk =
     (case os_file os of
        None \<Rightarrow> (os\<lparr>os_fail := True\<rparr>, dk)
      | Some name \<Rightarrow>
          if os_fail os then (os, dk)
          else let b = os_buffer os @ s; n = spill b
               in (os\<lparr>os_buffer := drop n b\<rparr>, put_text name (take n b) dk))"

section \<open>The class\<close>

record error_file =
  ef_fileName :: string
  ef_errorMark :: string
  ef_isCerr :: bool
  ef_isOpen :: bool
  ef_outFile :: ofstream

definition on_stream ::
  "(ofstream \<Rightarrow> disk \<Rightarrow> ofstream \<times> disk) \<Rightarrow> error_file \<times> disk \<Rightarrow> error_file \<times> disk" where
  "on_stream f = (\<lambda>(ef, dk). let (os, dk) = f (ef_outFile ef) dk in (ef\<lparr>ef_outFile := os\<rparr>, dk))"

definition SetErrorMark :: "string \<Rightarrow> error_file \<Rightarrow> error_file" where
  "SetErrorMark errorMark ef = ef\<lparr>ef_errorMark := errorMark\<rparr>"

definition GetErrorMark :: "error_file \<Rightarrow> string" where
  "GetErrorMark ef = ef_errorMark ef"

definition ErrorFile_cerr :: error_file where
  "ErrorFile_cerr =
     \<lparr>ef_fileName = [], ef_errorMark = [], ef_isCerr = True, ef_isOpen = True, ef_outFile = ofstream_new\<rparr>"

definition ErrorFile_unmarked :: "string \<Rightarrow> bool \<Rightarrow> disk \<Rightarrow> error_file \<times> disk" where
  "ErrorFile_unmarked fileName stayOpen dk =
     (let ef = \<lparr>ef_fileName = fileName, ef_errorMark = [], ef_isCerr = False, ef_isOpen = stayOpen,
                ef_outFile = ofstream_new\<rparr>;
          s = on_stream (os_open fileName Trunc) (ef, dk);
          s = on_stream os_close s;
          s = on_stream (os_open fileName App) s
      in if \<not> stayOpen then on_stream os_close s else s)"

definition ErrorFile :: "string \<Rightarrow> string \<Rightarrow> bool \<Rightarrow> disk \<Rightarrow> error_file \<times> disk" where
  "ErrorFile fileName errorMark stayOpen dk =
     (let (ef, dk) = ErrorFile_unmarked fileName stayOpen dk in (SetErrorMark errorMark ef, dk))"

text \<open>The destructor, and then the one of the stream, which closes it if it is open.\<close>

definition ErrorFile_destroy :: "error_file \<Rightarrow> disk \<Rightarrow> disk" where
  "ErrorFile_destroy ef dk =
     (let (ef, dk) = (if ef_isOpen ef \<and> \<not> ef_isCerr ef then on_stream os_close (ef, dk) else (ef, dk))
      in if os_file (ef_outFile ef) \<noteq> None then snd (os_close (ef_outFile ef) dk) else dk)"

definition IsOpen :: "error_file \<Rightarrow> bool" where
  "IsOpen ef = ef_isOpen ef"

text \<open>
  \<open>ClearFile\<close> returns no value when it clears the file: \<open>None\<close>, and using it is undefined.
\<close>

definition ClearFile :: "error_file \<times> disk \<Rightarrow> bool option \<times> error_file \<times> disk" where
  "ClearFile s =
     (let ef = fst s in
      if ef_isCerr ef then (Some False, s)
      else let s = (if ef_isOpen ef then on_stream os_close s else s);
               s = on_stream (os_open (ef_fileName ef) Trunc) s;
               s = on_stream os_close s
           in (None, if ef_isOpen ef then on_stream (os_open (ef_fileName ef) App) s else s))"

definition OpenFile :: "error_file \<times> disk \<Rightarrow> bool \<times> error_file \<times> disk" where
  "OpenFile s =
     (let ef = fst s in
      if ef_isCerr ef then (False, s)
      else let s = (if ef_isOpen ef then on_stream os_close s else s)
           in (True, on_stream (os_open (ef_fileName ef) App) s))"

definition CloseFile :: "error_file \<times> disk \<Rightarrow> bool \<times> error_file \<times> disk" where
  "CloseFile s =
     (if ef_isCerr (fst s) then (False, s)
      else if ef_isOpen (fst s) then (True, on_stream os_close s)
      else (False, s))"

text \<open>The three texts of a line go to the stream one after the other.\<close>

definition write_line :: "(string \<Rightarrow> nat) \<Rightarrow> string \<Rightarrow> error_file \<times> disk \<Rightarrow> error_file \<times> disk" where
  "write_line spill errorMsg s =
     on_stream (os_write spill [CHR 0x0A])
       (on_stream (os_write spill errorMsg) (on_stream (os_write spill (ef_errorMark (fst s))) s))"

definition WriteError :: "(string \<Rightarrow> nat) \<Rightarrow> string \<Rightarrow> error_file \<times> disk \<Rightarrow> error_file \<times> disk" where
  "WriteError spill errorMsg s =
     (let (ef, dk) = s in
      if ef_isCerr ef
      then (ef, dk\<lparr>dk_cerr := dk_cerr dk @ ef_errorMark ef @ errorMsg @ [CHR 0x0A]\<rparr>)
      else if ef_isOpen ef then write_line spill errorMsg s
      else on_stream os_close (write_line spill errorMsg (on_stream (os_open (ef_fileName ef) App) s)))"

text \<open>The exception is caught where it is thrown. The first component tells whether the process ended.\<close>

definition ThrowError ::
  "(string \<Rightarrow> nat) \<Rightarrow> string \<Rightarrow> bool \<Rightarrow> error_file \<times> disk \<Rightarrow> bool \<times> error_file \<times> disk" where
  "ThrowError spill errorMsg closePrg s = (closePrg, WriteError spill errorMsg s)"

text \<open>The calls of a run, until the process ends.\<close>

fun log_run ::
  "(string \<Rightarrow> nat) \<Rightarrow> (string \<times> bool) list \<Rightarrow> error_file \<times> disk \<Rightarrow> bool \<times> error_file \<times> disk" where
  "log_run spill [] s = (False, s)"
| "log_run spill ((m, b) # ms) s =
     (let (ended, s) = ThrowError spill m b s in if ended then (True, s) else log_run spill ms s)"

definition tHiveError :: "disk \<Rightarrow> error_file \<times> disk" where
  "tHiveError = ErrorFile ''T_HIVE_ERROR.txt'' ''T_HIVE_ERROR: '' False"

section \<open>The log is complete\<close>

text \<open>Text is never lost between the buffer and the file.\<close>

definition log_text :: "error_file \<times> disk \<Rightarrow> string" where
  "log_text s = contents (ef_fileName (fst s)) (snd s) @ os_buffer (ef_outFile (fst s))"

text \<open>An object that opens the file for each message, between two messages.\<close>

definition ef_idle :: "error_file \<times> disk \<Rightarrow> bool" where
  "ef_idle s \<longleftrightarrow> \<not> ef_isCerr (fst s) \<and> \<not> ef_isOpen (fst s) \<and> os_file (ef_outFile (fst s)) = None \<and>
     \<not> dk_denied (snd s) (ef_fileName (fst s))"

definition ef_writable :: "error_file \<times> disk \<Rightarrow> bool" where
  "ef_writable s \<longleftrightarrow> os_file (ef_outFile (fst s)) = Some (ef_fileName (fst s)) \<and> \<not> os_fail (ef_outFile (fst s))"

lemma contents_put [simp]: "contents n (put_text m s dk) = contents n dk @ (if n = m then s else [])"
  by (simp add: contents_def put_text_def)

lemma put_text_frame [simp]:
  "dk_denied (put_text m s dk) = dk_denied dk" "dk_cerr (put_text m s dk) = dk_cerr dk"
  by (simp_all add: put_text_def)

lemma os_write_keeps:
  assumes "ef_writable s"
  shows "ef_writable (on_stream (os_write spill t) s) \<and>
    log_text (on_stream (os_write spill t) s) = log_text s @ t \<and>
    (\<exists>os dk. on_stream (os_write spill t) s = ((fst s)\<lparr>ef_outFile := os\<rparr>, dk) \<and> dk_denied dk = dk_denied (snd s))"
  using assms by (cases s) (auto simp: on_stream_def os_write_def ef_writable_def log_text_def Let_def simp del: take_append drop_append)

lemma write_line_keeps:
  assumes "ef_writable s"
  shows "ef_writable (write_line spill m s) \<and>
    log_text (write_line spill m s) = log_text s @ ef_errorMark (fst s) @ m @ [CHR 0x0A] \<and>
    (\<exists>os dk. write_line spill m s = ((fst s)\<lparr>ef_outFile := os\<rparr>, dk) \<and> dk_denied dk = dk_denied (snd s))"
proof -
  let ?s1 = "on_stream (os_write spill (ef_errorMark (fst s))) s"
  let ?s2 = "on_stream (os_write spill m) ?s1"
  note 1 = os_write_keeps [OF assms, of spill "ef_errorMark (fst s)"]
  note 2 = os_write_keeps [of ?s1 spill m, OF 1 [THEN conjunct1]]
  note 3 = os_write_keeps [of ?s2 spill "[CHR 0x0A]", OF 2 [THEN conjunct1]]
  from 1 2 3 show ?thesis unfolding write_line_def by auto
qed

lemma WriteError_idle:
  assumes "ef_idle s"
  shows "ef_idle (WriteError spill m s) \<and> ef_errorMark (fst (WriteError spill m s)) = ef_errorMark (fst s) \<and>
    ef_fileName (fst (WriteError spill m s)) = ef_fileName (fst s) \<and>
    contents (ef_fileName (fst s)) (snd (WriteError spill m s)) =
      contents (ef_fileName (fst s)) (snd s) @ ef_errorMark (fst s) @ m @ [CHR 0x0A]"
proof -
  obtain ef dk where s: "s = (ef, dk)" by (cases s)
  let ?o = "on_stream (os_open (ef_fileName ef) App) s"
  have o: "ef_writable ?o" "log_text ?o = contents (ef_fileName ef) dk" "ef_errorMark (fst ?o) = ef_errorMark ef"
    "ef_fileName (fst ?o) = ef_fileName ef" "\<not> ef_isCerr (fst ?o)" "\<not> ef_isOpen (fst ?o)" "dk_denied (snd ?o) = dk_denied dk"
    using assms by (simp_all add: s ef_idle_def on_stream_def os_open_def ef_writable_def log_text_def contents_def)
  have W: "WriteError spill m s = on_stream os_close (write_line spill m ?o)"
    using assms by (simp add: s ef_idle_def WriteError_def)
  from write_line_keeps [OF o(1), of spill m] obtain os dk' where
    w: "write_line spill m ?o = ((fst ?o)\<lparr>ef_outFile := os\<rparr>, dk')" "dk_denied dk' = dk_denied dk" "os_file os = Some (ef_fileName ef)"
    "contents (ef_fileName ef) dk' @ os_buffer os = contents (ef_fileName ef) dk @ ef_errorMark ef @ m @ [CHR 0x0A]"
    using o by (auto simp: ef_writable_def log_text_def)
  show ?thesis
    unfolding W w(1) using assms o w(2-) by (simp add: s on_stream_def os_close_def ef_idle_def)
qed

text \<open>The calls that are made: those up to the first that ends the process.\<close>

definition calls_made :: "(string \<times> bool) list \<Rightarrow> (string \<times> bool) list" where
  "calls_made ms = takeWhile (\<lambda>c. \<not> snd c) ms @ take 1 (dropWhile (\<lambda>c. \<not> snd c) ms)"

lemma calls_made_simps [simp]:
  "calls_made [] = []" "calls_made ((m, b) # ms) = (m, b) # (if b then [] else calls_made ms)"
  by (simp_all add: calls_made_def)

lemma log_run_idle:
  assumes "ef_idle s" and "log_run spill ms s = (ended, s')"
  shows "ended = (\<exists>c\<in>set ms. snd c) \<and> contents (ef_fileName (fst s)) (snd s') =
    contents (ef_fileName (fst s)) (snd s) @ concat (map (\<lambda>c. ef_errorMark (fst s) @ fst c @ [CHR 0x0A]) (calls_made ms))"
  using assms
proof (induction ms arbitrary: s)
  case (Cons c ms)
  obtain m b where c: "c = (m, b)" by (cases c)
  note W = WriteError_idle [OF Cons.prems(1), of spill m]
  show ?case
  proof (cases b)
    case True
    with Cons.prems(2) W show ?thesis by (auto simp: c ThrowError_def)
  next
    case False
    then have "log_run spill ms (WriteError spill m s) = (ended, s')" using Cons.prems(2) by (simp add: c ThrowError_def)
    from Cons.IH [OF _ this] W False show ?thesis by (simp add: c)
  qed
qed simp

lemma ErrorFile_idle:
  assumes "\<not> dk_denied dk name"
  shows "ef_idle (ErrorFile name mark False dk)" "contents name (snd (ErrorFile name mark False dk)) = []"
    "ef_errorMark (fst (ErrorFile name mark False dk)) = mark" "ef_fileName (fst (ErrorFile name mark False dk)) = name"
  using assms
  by (simp_all add: ErrorFile_def ErrorFile_unmarked_def on_stream_def os_open_def os_close_def ofstream_new_def
      SetErrorMark_def ef_idle_def contents_def put_text_def Let_def)

text \<open>
  C39: A log made as \<open>tHiveError\<close> is, on a file that can be opened, holds one marked line for every call of
  \<open>ThrowError\<close>, in order and nothing else, the call that ends the process included: its line has reached
  the file before the process ends, however the library buffers.
\<close>

theorem error_log_complete:
  assumes "\<not> dk_denied dk name" and "log_run spill ms (ErrorFile name mark False dk) = (ended, ef, dk')"
  shows "contents name dk' = concat (map (\<lambda>c. mark @ fst c @ [CHR 0x0A]) (calls_made ms)) \<and>
    ended = (\<exists>c\<in>set ms. snd c)"
  using log_run_idle [OF ErrorFile_idle(1) [OF assms(1)] assms(2)] ErrorFile_idle [OF assms(1), of mark] by simp

definition empty_disk :: disk where
  "empty_disk = \<lparr>dk_files = (\<lambda>_. None), dk_denied = (\<lambda>_. False), dk_cerr = []\<rparr>"

lemma error_log_complete_witness:
  "contents ''T_HIVE_ERROR.txt'' (snd (snd (log_run (\<lambda>_. 0) [(''a'', False), (''b'', True), (''c'', False)] (tHiveError empty_disk)))) =
    ''T_HIVE_ERROR: a'' @ CHR 0x0A # ''T_HIVE_ERROR: b'' @ [CHR 0x0A]"
proof -
  obtain ended ef dk' where r: "log_run (\<lambda>_. 0) [(''a'', False), (''b'', True), (''c'', False)] (tHiveError empty_disk) = (ended, ef, dk')"
    by (cases "log_run (\<lambda>_. 0) [(''a'', False), (''b'', True), (''c'', False)] (tHiveError empty_disk)") auto
  moreover have "\<not> dk_denied empty_disk ''T_HIVE_ERROR.txt''" by (simp add: empty_disk_def)
  ultimately have "contents ''T_HIVE_ERROR.txt'' dk' =
      concat (map (\<lambda>c. ''T_HIVE_ERROR: '' @ fst c @ [CHR 0x0A]) (calls_made [(''a'', False), (''b'', True), (''c'', False)]))"
    unfolding tHiveError_def using error_log_complete by blast
  then show ?thesis unfolding r by simp
qed

section \<open>Closing and opening by hand\<close>

lemma write_line_closed:
  assumes "os_file (ef_outFile (fst s)) = None"
  shows "\<exists>os. write_line spill m s = ((fst s)\<lparr>ef_outFile := os\<rparr>, snd s) \<and> os_file os = None"
  using assms
  by (cases s) (auto simp: write_line_def on_stream_def os_write_def
      intro!: exI [of _ "(ef_outFile (fst s))\<lparr>os_fail := True\<rparr>"])

lemma write_line_failed:
  assumes "os_fail (ef_outFile (fst s))" and "os_file (ef_outFile (fst s)) \<noteq> None"
  shows "write_line spill m s = s"
  using assms by (cases s) (auto simp: write_line_def on_stream_def os_write_def)

lemma log_run_closed:
  assumes "\<not> ef_isCerr (fst s)" and "ef_isOpen (fst s)" and "os_file (ef_outFile (fst s)) = None"
  shows "snd (snd (log_run spill ms s)) = snd s"
  using assms
proof (induction ms arbitrary: s)
  case (Cons c ms)
  obtain m b where c: "c = (m, b)" by (cases c)
  obtain os where w: "write_line spill m s = ((fst s)\<lparr>ef_outFile := os\<rparr>, snd s)" "os_file os = None"
    using write_line_closed [OF Cons.prems(3)] by blast
  have "WriteError spill m s = write_line spill m s" using Cons.prems(1,2) by (cases s) (simp add: WriteError_def)
  with Cons.IH [of "((fst s)\<lparr>ef_outFile := os\<rparr>, snd s)"] Cons.prems w show ?case by (simp add: c ThrowError_def)
qed simp

text \<open>
  \<open>CloseFile\<close> and \<open>OpenFile\<close> leave \<open>isOpen\<close> as it was, and the log loses messages: after \<open>CloseFile\<close> a
  log kept open still says it is open and writes nothing any more; after \<open>OpenFile\<close> a log that opens
  its file for each message drops the next one.
\<close>

lemma close_and_open_lose_messages:
  assumes "\<not> ef_isCerr (fst s)"
  shows "(ef_isOpen (fst s) \<longrightarrow> (\<exists>s'. CloseFile s = (True, s') \<and> IsOpen (fst s') \<and>
      (\<forall>ms. snd (snd (log_run spill ms s')) = snd s'))) \<and>
    (ef_idle s \<longrightarrow> (\<exists>s'. OpenFile s = (True, s') \<and> \<not> IsOpen (fst s') \<and>
      contents (ef_fileName (fst s)) (snd (WriteError spill m s')) = contents (ef_fileName (fst s)) (snd s) \<and>
      ef_idle (WriteError spill m s')))"
proof (intro conjI impI)
  obtain ef dk where s: "s = (ef, dk)" by (cases s)
  {
    assume open_log: "ef_isOpen (fst s)"
    let ?s = "on_stream os_close s"
    have "\<not> ef_isCerr (fst ?s)" "ef_isOpen (fst ?s)" "os_file (ef_outFile (fst ?s)) = None"
      using assms open_log by (simp_all add: s on_stream_def os_close_def split: option.split)
    with log_run_closed [of ?s spill] show "\<exists>s'. CloseFile s = (True, s') \<and> IsOpen (fst s') \<and>
      (\<forall>ms. snd (snd (log_run spill ms s')) = snd s')"
      using assms open_log by (simp add: CloseFile_def IsOpen_def)
  }
  assume idle: "ef_idle s"
  let ?o = "on_stream (os_open (ef_fileName ef) App)"
  have o: "ef_outFile (fst (?o s)) = \<lparr>os_file = Some (ef_fileName ef), os_buffer = [], os_fail = False\<rparr>"
    "contents (ef_fileName ef) (snd (?o s)) = contents (ef_fileName ef) dk" "dk_denied (snd (?o s)) = dk_denied dk"
    "\<not> ef_isCerr (fst (?o s))" "\<not> ef_isOpen (fst (?o s))" "ef_fileName (fst (?o s)) = ef_fileName ef"
    using idle by (simp_all add: s ef_idle_def on_stream_def os_open_def contents_def)
  have twice: "?o (?o s) = ((fst (?o s))\<lparr>ef_outFile := \<lparr>os_file = Some (ef_fileName ef), os_buffer = [], os_fail = True\<rparr>\<rparr>, snd (?o s))"
    using o(1) by (cases "?o s") (simp add: on_stream_def os_open_def)
  have "write_line spill m (?o (?o s)) = ?o (?o s)" by (rule write_line_failed) (simp_all add: twice)
  then have W: "WriteError spill m (?o s) = on_stream os_close (?o (?o s))"
    using o(4-6) by (cases "?o s") (simp add: WriteError_def)
  have "OpenFile s = (True, ?o s)" using idle by (simp add: s OpenFile_def ef_idle_def)
  moreover have "contents (ef_fileName ef) (snd (WriteError spill m (?o s))) = contents (ef_fileName ef) dk"
    "ef_idle (WriteError spill m (?o s))"
    unfolding W twice using o idle by (simp_all add: on_stream_def os_close_def ef_idle_def s)
  ultimately show "\<exists>s'. OpenFile s = (True, s') \<and> \<not> IsOpen (fst s') \<and>
      contents (ef_fileName (fst s)) (snd (WriteError spill m s')) = contents (ef_fileName (fst s)) (snd s) \<and>
      ef_idle (WriteError spill m s')"
    using o(5) by (simp add: s IsOpen_def)
qed

lemma close_and_open_lose_messages_witness:
  "(\<exists>s'. CloseFile (ErrorFile ''log'' [] True empty_disk) = (True, s') \<and> IsOpen (fst s') \<and>
      snd (snd (log_run length [(''lost'', True)] s')) = snd s') \<and>
   (\<exists>s'. OpenFile (tHiveError empty_disk) = (True, s') \<and>
      contents ''T_HIVE_ERROR.txt'' (snd (WriteError length ''lost'' s')) = [])"
proof
  have "\<not> ef_isCerr (fst (ErrorFile ''log'' [] True empty_disk))" "ef_isOpen (fst (ErrorFile ''log'' [] True empty_disk))"
    by (simp_all add: ErrorFile_def ErrorFile_unmarked_def on_stream_def os_open_def os_close_def SetErrorMark_def Let_def
        ofstream_new_def empty_disk_def)
  with close_and_open_lose_messages [of "ErrorFile ''log'' [] True empty_disk" length]
  show "\<exists>s'. CloseFile (ErrorFile ''log'' [] True empty_disk) = (True, s') \<and> IsOpen (fst s') \<and>
      snd (snd (log_run length [(''lost'', True)] s')) = snd s'"
    by blast
  have "\<not> dk_denied empty_disk ''T_HIVE_ERROR.txt''" by (simp add: empty_disk_def)
  note idle = ErrorFile_idle [OF this, of "''T_HIVE_ERROR: ''", folded tHiveError_def]
  then have "\<not> ef_isCerr (fst (tHiveError empty_disk))" by (simp add: ef_idle_def)
  from close_and_open_lose_messages [OF this, of length "''lost''"] idle
  show "\<exists>s'. OpenFile (tHiveError empty_disk) = (True, s') \<and>
      contents ''T_HIVE_ERROR.txt'' (snd (WriteError length ''lost'' s')) = []"
    by auto
qed

end
