(* ===== verification/DB_Account.thy ===== *)
theory DB_Account
  imports DB_Rules Linked_Heap
begin

text \<open>
  The memory of a loaded account. \<open>GetAccount\<close> of \<^verbatim>\<open>DatabaseConnector.cpp\<close> copies the player's name into an
  array of its own, which \<open>DeleteData\<close> frees with the account; \<^verbatim>\<open>DB_Connector\<close> has the same function with
  the name as a value. The two agree, and a load takes one array that one deletion gives back.
\<close>

section \<open>Operations\<close>

text \<open>An account as it is stored: its numbers, and the pointer \<open>UIDName\<close>.\<close>

record account_obj =
  ao_act :: opfl_account
  ao_UIDName :: "addr option"

text \<open>The account handed in by reference and the arrays of characters on the heap.\<close>

type_synonym account_mem = "account_obj \<times> string heap"

definition setM :: "(opfl_account \<Rightarrow> opfl_account) \<Rightarrow> (account_mem \<times> 'w, unit) eff" where
  "setM f = setE (\<lambda>(ao, mem). (ao\<lparr>ao_act := f (ao_act ao)\<rparr>, mem))"

text \<open>\<open>new char[strlen(UIDName) + 1]\<close> and the copy into it.\<close>

definition new_name :: "string \<Rightarrow> (account_mem \<times> 'w, unit) eff" where
  "new_name UIDName =
     setE (\<lambda>(ao, mem). let (a, mem) = alloc UIDName mem in (ao\<lparr>ao_UIDName := Some a\<rparr>, mem))"

definition GetAccount_mem ::
  "('w, 'con, 'st, 'rs) sql \<Rightarrow> ('con, 'st) OPFL_CON \<Rightarrow> string \<Rightarrow> (account_mem \<times> 'w, bool) eff" where
  "GetAccount_mem d con UIDName =
     catch_sql
       (thenE (derefE con) (\<lambda>oc.
        thenE (onSnd (callE (sql_setString d (oc_prep_getAccount oc) 1 UIDName))) (\<lambda>_.
        thenE (onSnd (callE (sql_executeQuery d (oc_prep_getAccount oc)))) (\<lambda>res.
        thenE (onSnd (callE (sql_next d res))) (\<lambda>_.
        thenE (new_name UIDName) (\<lambda>_.
        thenE (onSnd (callE (sql_getInt d res ''Rank''))) (\<lambda>v.
        thenE (setM (\<lambda>act. act\<lparr>act_rank := v\<rparr>)) (\<lambda>_.
        thenE (onSnd (callE (sql_getInt d res ''Level''))) (\<lambda>v.
        thenE (setM (\<lambda>act. act\<lparr>act_level := v\<rparr>)) (\<lambda>_.
        thenE (onSnd (callE (sql_getInt64 d res ''Matches''))) (\<lambda>v.
        thenE (setM (\<lambda>act. act\<lparr>act_matches := v\<rparr>)) (\<lambda>_.
        thenE (onSnd (callE (sql_getInt64 d res ''Wins''))) (\<lambda>v.
        thenE (setM (\<lambda>act. act\<lparr>act_wins := v\<rparr>)) (\<lambda>_.
        thenE (onSnd (callE (sql_getInt64 d res ''Losses''))) (\<lambda>v.
        thenE (setM (\<lambda>act. act\<lparr>act_losses := v\<rparr>)) (\<lambda>_.
        thenE (onSnd (callE (sql_getInt64 d res ''Kills''))) (\<lambda>v.
        thenE (setM (\<lambda>act. act\<lparr>act_kills := v\<rparr>)) (\<lambda>_.
        thenE (onSnd (callE (sql_getInt64 d res ''Chickens''))) (\<lambda>v.
        thenE (setM (\<lambda>act. act\<lparr>act_chickens := v\<rparr>)) (\<lambda>_.
        thenE (onSnd (updE (sql_deleteResultSet d res))) (\<lambda>_. retE True)))))))))))))))))))))
       (retE False)"

text \<open>The deletions; \<open>delete[]\<close> on a null pointer does nothing.\<close>

definition DeleteCSTRING :: "addr option \<Rightarrow> string heap \<Rightarrow> mem_error + bool \<times> string heap" where
  "DeleteCSTRING ptr mem = bindE (delete ptr mem) (\<lambda>mem. Inr (True, mem))"

definition DeleteData ::
  "addr option \<Rightarrow> account_obj heap \<times> string heap \<Rightarrow> mem_error + bool \<times> account_obj heap \<times> string heap" where
  "DeleteData ptr = (\<lambda>(objs, mem).
     bindE (deref ptr objs) (\<lambda>ao.
     bindE (if ao_UIDName ao \<noteq> None then DeleteCSTRING (ao_UIDName ao) mem else Inr (True, mem)) (\<lambda>(_, mem).
     bindE (delete ptr objs) (\<lambda>objs. Inr (True, objs, mem)))))"

section \<open>The account as a value\<close>

definition name_at :: "string heap \<Rightarrow> addr option \<Rightarrow> string" where
  "name_at mem p = (case p of None \<Rightarrow> [] | Some a \<Rightarrow> (case node_at mem a of None \<Rightarrow> [] | Some s \<Rightarrow> s))"

definition account_of :: "account_mem \<Rightarrow> opfl_account" where
  "account_of = (\<lambda>(ao, mem). (ao_act ao)\<lparr>act_UIDName := name_at mem (ao_UIDName ao)\<rparr>)"

text \<open>\<open>refines m m'\<close>: what \<open>m'\<close> does in memory is what \<open>m\<close> does on values.\<close>

definition refines :: "(opfl_account \<times> 'w, 'a) eff \<Rightarrow> (account_mem \<times> 'w, 'a) eff \<Rightarrow> bool" where
  "refines m m' \<longleftrightarrow> (\<forall>x w r x' w'. m' (x, w) = (r, x', w') \<longrightarrow> m (account_of x, w) = (r, account_of x', w'))"

named_theorems refines_intros \<open>the steps of a load\<close>

lemma refines_basic [refines_intros]: "refines (retE x) (retE x)" "refines (derefE c) (derefE c)" "refines (onSnd k) (onSnd k)"
  by (simp_all add: refines_def derefE_def)

lemma refines_thenE [refines_intros]:
  "refines m m' \<Longrightarrow> (\<And>x. refines (f x) (f' x)) \<Longrightarrow> refines (thenE m f) (thenE m' f')"
  unfolding refines_def thenE_def by (fastforce split: prod.splits sum.splits)

lemma refines_catch_sql [refines_intros]:
  "refines m m' \<Longrightarrow> refines h h' \<Longrightarrow> refines (catch_sql m h) (catch_sql m' h')"
  unfolding refines_def catch_sql_def by (fastforce split: prod.splits sum.splits failure.splits exc.splits)

lemma refines_setM [refines_intros]:
  "(\<And>act s. f (act\<lparr>act_UIDName := s\<rparr>) = (f act)\<lparr>act_UIDName := s\<rparr>) \<Longrightarrow> refines (setE f) (setM f)"
  by (simp add: refines_def setM_def setE_def account_of_def case_prod_unfold)

lemma refines_new_name [refines_intros]: "refines (setE (\<lambda>act. act\<lparr>act_UIDName := s\<rparr>)) (new_name s)"
  by (simp add: refines_def new_name_def setE_def account_of_def alloc_def name_at_def case_prod_unfold)

lemma GetAccount_refines: "refines (GetAccount d con UIDName) (GetAccount_mem d con UIDName)"
  unfolding GetAccount_def GetAccount_mem_def by (intro refines_intros; simp)

section \<open>The name\<close>

text \<open>What a call that succeeds does to the heap: \<open>ns\<close> are the names it adds, the account points to the first.\<close>

definition takes :: "string list \<Rightarrow> (account_mem \<times> 'w, 'a) eff \<Rightarrow> bool" where
  "takes ns m \<longleftrightarrow> (\<forall>ao mem w y ao' mem' w'. m ((ao, mem), w) = (Inr y, (ao', mem'), w') \<longrightarrow>
     mem' = mem @ map Some ns \<and> ao_UIDName ao' = (if ns = [] then ao_UIDName ao else Some (length mem)))"

lemma takes_quiet: "takes [] (retE y)" "takes [] (derefE c)" "takes [] (onSnd k)" "takes [] (setM f)"
  by (auto simp: takes_def derefE_def setM_def setE_def)

lemma takes_then:
  assumes "takes [] m" and "\<And>y. takes ns (f y)"
  shows "takes ns (thenE m f)"
  unfolding takes_def
proof (intro allI impI)
  fix ao mem w z ao' mem' w' assume "thenE m f ((ao, mem), w) = (Inr z, (ao', mem'), w')"
  then obtain y s where y: "m ((ao, mem), w) = (Inr y, s)" "f y s = (Inr z, (ao', mem'), w')" by (auto simp: thenE_Inr_iff)
  obtain ao1 mem1 w1 where s: "s = ((ao1, mem1), w1)" by (metis surj_pair)
  have "mem1 = mem \<and> ao_UIDName ao1 = ao_UIDName ao" using assms(1) y(1) unfolding takes_def s by fastforce
  moreover have "mem' = mem1 @ map Some ns \<and> ao_UIDName ao' = (if ns = [] then ao_UIDName ao1 else Some (length mem1))"
    using assms(2) [of y] y(2) unfolding takes_def s by fastforce
  ultimately show "mem' = mem @ map Some ns \<and> ao_UIDName ao' = (if ns = [] then ao_UIDName ao else Some (length mem))"
    by simp
qed

lemma takes_name:
  assumes "\<And>y. takes [] (f y)"
  shows "takes [s] (thenE (new_name s) f)"
  unfolding takes_def
proof (intro allI impI)
  fix ao mem w z ao' mem' w' assume "thenE (new_name s) f ((ao, mem), w) = (Inr z, (ao', mem'), w')"
  then have "f () ((ao\<lparr>ao_UIDName := Some (length mem)\<rparr>, mem @ [Some s]), w) = (Inr z, (ao', mem'), w')"
    by (simp add: thenE_def new_name_def setE_def alloc_def)
  with assms [of "()"] show "mem' = mem @ map Some [s] \<and> ao_UIDName ao' = (if [s] = [] then ao_UIDName ao else Some (length mem))"
    unfolding takes_def by fastforce
qed

lemma takes_caught:
  assumes "catch_sql m (retE False) ((ao, mem), w) = (Inr True, (ao', mem'), w')" and "takes [s] m"
  shows "mem' = mem @ [Some s] \<and> ao_UIDName ao' = Some (length mem)"
  using catch_sql_True [OF assms(1)] assms(2) unfolding takes_def by fastforce

lemma load_takes_one_name:
  assumes "GetAccount_mem d con UIDName ((ao, mem), w) = (Inr True, (ao', mem'), w')"
  shows "mem' = mem @ [Some UIDName] \<and> ao_UIDName ao' = Some (length mem)"
  using assms unfolding GetAccount_mem_def
  by (rule takes_caught) (rule takes_name takes_quiet | rule takes_then)+

text \<open>
  A load that succeeds takes one array for the name and gives the account its values; \<open>DeleteData\<close> on it
  frees that array and the account, and nothing else.
\<close>

lemma loaded_account_deleted:
  assumes "GetAccount_mem d con UIDName ((ao, mem), w) = (Inr True, (ao', mem'), w')"
    and "node_at objs ptr = Some ao'"
  shows "GetAccount d con UIDName (account_of (ao, mem), w) = (Inr True, account_of (ao', mem'), w')"
    and "live mem' = Suc (live mem)"
    and "DeleteData (Some ptr) (objs, mem') = Inr (True, objs[ptr := None], mem @ [None])"
proof -
  show "GetAccount d con UIDName (account_of (ao, mem), w) = (Inr True, account_of (ao', mem'), w')"
    using GetAccount_refines [of d con UIDName, unfolded refines_def] assms(1) by simp
  note one = load_takes_one_name [OF assms(1)]
  then show "live mem' = Suc (live mem)" by simp
  from one assms(2) show "DeleteData (Some ptr) (objs, mem') = Inr (True, objs[ptr := None], mem @ [None])"
    by (simp add: DeleteData_def DeleteCSTRING_def delete_def deref_def)
qed

end
