(* ===== verification/System.thy ===== *)
theory System
  imports Cleanup Hive_Invariant Extension_Props
begin

text \<open>
  The whole program as one transition system: the game calls \<open>RVExtension\<close> with any text, and between
  the calls every session's thread and the cleanup thread take steps in any order, while the clock and
  the database change as they like. A call or step that fails ends the process, so it leads nowhere.
\<close>

section \<open>Steps\<close>

text \<open>A step of a session sees the part of the server's state that \<open>mycallback\<close> works on.\<close>

definition on_world ::
  "(('f, 'w, 'con, 'st) world \<Rightarrow> ('r \<times> ('f, 'w, 'con, 'st) world) option) \<Rightarrow>
   ('f, 'w, 'con, 'st) server \<Rightarrow> ('r \<times> ('f, 'w, 'con, 'st) server) option" where
  "on_world f sv = map_option (map_prod id (\<lambda>wd. world.extend wd (world.more sv))) (f (world.truncate sv))"

text \<open>The cleanup thread is there once the first call has started it, on a copy of its object.\<close>

type_synonym ('f, 'w, 'con, 'st) config = "('f, 'w, 'con, 'st) server \<times> 'f cleanup option"

inductive sys_step ::
  "('f, 'w, 'con, 'st) platform \<Rightarrow> 'w clib \<Rightarrow> ('w, 'con, 'st, 'rs) sql \<Rightarrow>
   ('f, 'w, 'con, 'st) config \<Rightarrow> ('f, 'w, 'con, 'st) config \<Rightarrow> bool" for pf cl d where
  step_call: "RVExtension pf cl outputSize function sv = (Inr out, sv') \<Longrightarrow>
    sys_step pf cl d (sv, cu)
      (sv', case cu of None \<Rightarrow> Some (cleanup_new (sv_cleanupThread sv')) | Some c \<Rightarrow> Some c)"
| step_session: "i < length (sv_spawned sv) \<Longrightarrow>
    on_world (session_step d cl (sv_spawned sv ! i)) sv = Some (Inr ss, sv') \<Longrightarrow>
    sys_step pf cl d (sv, cu) (sv'\<lparr>sv_spawned := (sv_spawned sv)[i := ss]\<rparr>, cu)"
| step_cleanup_thread: "cleanup_step d c sv = Some (Inr c', sv') \<Longrightarrow> sys_step pf cl d (sv, Some c) (sv', Some c')"
| step_outside: "sys_step pf cl d (sv, cu) (sv\<lparr>wd_out := w\<rparr>, cu)"

text \<open>The state in which the library is loaded.\<close>

definition server_new :: "'w \<Rightarrow> ('f, 'w, 'con, 'st) server" where
  "server_new w =
     \<lparr>wd_elem = registry_new, wd_str = registry_new, wd_pool = None, wd_refs = (\<lambda>_. 0), wd_conns = [], wd_out = w,
      sv_ehives = (\<lambda>_. None), sv_shives = (\<lambda>_. None), sv_thrdname = ''CLEANUP_T'', sv_cleanupThread = hive_new,
      sv_threadState = hive_new, sv_dllState = hive_new, sv_spawned = []\<rparr>"

inductive sys_reach ::
  "('f, 'w, 'con, 'st) platform \<Rightarrow> 'w clib \<Rightarrow> ('w, 'con, 'st, 'rs) sql \<Rightarrow> ('f, 'w, 'con, 'st) config \<Rightarrow> bool"
  for pf cl d where
  reach_new: "sys_reach pf cl d (server_new w, None)"
| reach_step: "sys_reach pf cl d c \<Longrightarrow> sys_step pf cl d c c' \<Longrightarrow> sys_reach pf cl d c'"

inductive_cases sys_stepE: "sys_step pf cl d c c'"

section \<open>Triples\<close>

text \<open>If \<open>P\<close> holds before and the call returns, \<open>Q\<close> holds after.\<close>

definition triple :: "('s \<Rightarrow> bool) \<Rightarrow> ('s, 'a) eff \<Rightarrow> ('a \<Rightarrow> 's \<Rightarrow> bool) \<Rightarrow> bool" where
  "triple P m Q \<longleftrightarrow> (\<forall>s x t. P s \<longrightarrow> m s = (Inr x, t) \<longrightarrow> Q x t)"

named_theorems triple_rules \<open>what the calls of the entry point keep\<close>

lemma tripleD: "triple P m Q \<Longrightarrow> P s \<Longrightarrow> m s = (Inr x, t) \<Longrightarrow> Q x t"
  by (auto simp: triple_def)

lemma triple_then: "triple P m Q \<Longrightarrow> (\<And>x. triple (Q x) (f x) R) \<Longrightarrow> triple P (thenE m f) R"
  by (simp add: triple_def thenE_Inr_iff) blast

lemma triple_pre: "triple P m Q \<Longrightarrow> (\<And>s. P' s \<Longrightarrow> P s) \<Longrightarrow> triple P' m Q"
  unfolding triple_def by blast

lemma triple_ret: "triple P (retE x) (\<lambda>_. P)"
  and triple_pure: "triple P (pureE r) (\<lambda>_. P)"
  and triple_get: "triple P getE (\<lambda>x s. P s \<and> x = s)"
  by (simp_all add: triple_def)

lemma triple_upd: "triple (\<lambda>s. Q (g s)) (updE g) (\<lambda>_. Q)"
  by (simp add: triple_def)

section \<open>The invariant\<close>

text \<open>The handles the game reads the state of the library from.\<close>

definition readers :: "('f, 'w, 'con, 'st) server \<Rightarrow> addr set" where
  "readers sv = set_option (hv_myThreadHandle (sv_threadState sv)) \<union> set_option (hv_myThreadHandle (sv_dllState sv))"

text \<open>
  Both registries are in order; the readers' handles are registered under their names and no object a session
  owns refers to them, so no destructor removes them.
\<close>

definition sv_ok :: "('f, 'w, 'con, 'st) server \<Rightarrow> bool" where
  "sv_ok sv \<longleftrightarrow> rg_ok (wd_elem sv) \<and> rg_ok (wd_str sv) \<and> readers sv \<subseteq> set (rg_addrs (wd_str sv)) \<and>
     (\<forall>a. hv_myThreadHandle (sv_threadState sv) = Some a \<longrightarrow> rg_name (wd_str sv) a = ''CLEANUP_O'') \<and>
     (\<forall>a. hv_myThreadHandle (sv_dllState sv) = Some a \<longrightarrow> rg_name (wd_str sv) a = ''DLL_O'') \<and>
     (\<forall>x hv. sv_shives sv x = Some hv \<longrightarrow> readers sv \<inter> set_option (hv_myThreadHandle hv) = {})"

definition sv_started :: "('f, 'w, 'con, 'st) server \<Rightarrow> bool" where
  "sv_started sv \<longleftrightarrow> hv_myThreadHandle (sv_cleanupThread sv) \<noteq> None \<and>
     hv_myThreadHandle (sv_threadState sv) \<noteq> None \<and> hv_myThreadHandle (sv_dllState sv) \<noteq> None"

definition sv_fresh :: "('f, 'w, 'con, 'st) server \<Rightarrow> bool" where
  "sv_fresh sv \<longleftrightarrow> hv_myThreadHandle (sv_cleanupThread sv) = None \<and>
     hv_myThreadHandle (sv_threadState sv) = None \<and> hv_myThreadHandle (sv_dllState sv) = None \<and>
     sv_shives sv = (\<lambda>_. None) \<and> sv_spawned sv = []"

abbreviation sv_run :: "('f, 'w, 'con, 'st) server \<Rightarrow> bool" where
  "sv_run sv \<equiv> sv_ok sv \<and> sv_started sv"

lemma on_registry_Inr:
  "onElem m sv = (Inr x, sv') \<longleftrightarrow> (\<exists>rg. m (wd_elem sv) = Inr (x, rg) \<and> sv' = sv\<lparr>wd_elem := rg\<rparr>)"
  "onStr m' sv = (Inr y, sv') \<longleftrightarrow> (\<exists>rg. m' (wd_str sv) = Inr (y, rg) \<and> sv' = sv\<lparr>wd_str := rg\<rparr>)"
  by (auto simp: onElem_def onStr_def split: sum.splits)

lemma onElem_run:
  assumes "\<And>rg x rg'. rg_ok rg \<Longrightarrow> m rg = Inr (x, rg') \<Longrightarrow> rg_ok rg'"
  shows "triple sv_run (onElem m) (\<lambda>_. sv_run)"
  using assms by (fastforce simp: triple_def onElem_def sv_ok_def sv_started_def readers_def split: sum.splits)

lemma onStr_run:
  assumes "\<And>rg x rg'. rg_ok rg \<Longrightarrow> m rg = Inr (x, rg') \<Longrightarrow> rg_keeps rg rg'"
  shows "triple sv_run (onStr m) (\<lambda>_. sv_run)"
  using assms by (fastforce simp: triple_def onStr_def sv_ok_def sv_started_def readers_def rg_keeps_def split: sum.splits)

lemma send_run [triple_rules]: "triple sv_run (onElem (sendMsg th msg)) (\<lambda>_. sv_run)"
  by (rule onElem_run) (auto dest: sendMsg_keeps simp: rg_keeps_def)

lemma spawn_run [triple_rules]:
  "triple sv_run (onElem (\<lambda>rg. bindE (spawnThread hv rg) (\<lambda>(_, hv, rg). Inr ((), rg)))) (\<lambda>_. sv_run)"
  using spawnThread_keeps by (intro onElem_run) (fastforce simp: rg_keeps_def bindE_Inr_iff)

lemma add_elem_run [triple_rules]:
  "triple sv_run (onElem (\<lambda>rg. bindE (addThread junk name cb ps hv rg) (\<lambda>(_, hv, rg). Inr (hv, rg)))) (\<lambda>_. sv_run)"
proof (intro onElem_run)
  fix rg :: "('a amessage, callback) registry" and x rg'
  assume ok: "rg_ok rg" and "bindE (addThread junk name cb ps hv rg) (\<lambda>(_, hv, rg). Inr (hv, rg)) = Inr (x, rg')"
  then obtain b where "addThread junk name cb ps hv rg = Inr (b, x, rg')" by (auto simp: bindE_Inr_iff)
  from addThread_ok [OF ok this] ok show "rg_ok rg'" by (auto split: if_splits)
qed

text \<open>The new handle is none of the readers'.\<close>

lemma add_str_run:
  "triple sv_run (onStr (\<lambda>rg. bindE (addThread junk name cb ps hive_new rg) (\<lambda>(_, hv, rg). Inr (hv, rg))))
     (\<lambda>hv sv. sv_run sv \<and> readers sv \<inter> set_option (hv_myThreadHandle hv) = {})"
  unfolding triple_def
proof (intro allI impI)
  fix sv :: "('a, 'b, 'c, 'd) server" and hv sv'
  assume run: "sv_run sv" and
    "onStr (\<lambda>rg. bindE (addThread junk name cb ps hive_new rg) (\<lambda>(_, hv, rg). Inr (hv, rg))) sv = (Inr hv, sv')"
  then obtain b rg where a: "addThread junk name cb ps hive_new (wd_str sv) = Inr (b, hv, rg)" "sv' = sv\<lparr>wd_str := rg\<rparr>"
    by (auto simp: onStr_def bindE_Inr_iff split: sum.splits)
  from run have "rg_ok (wd_str sv)" by (simp add: sv_ok_def)
  from addThread_ok [OF this a(1)] obtain c where "c \<notin> set (rg_addrs (wd_str sv))" "hv_myThreadHandle hv = Some c"
    "rg_ok rg" "rg_addrs rg = rg_addrs (wd_str sv) @ [c]" "\<forall>a\<in>set (rg_addrs (wd_str sv)). rg_name rg a = rg_name (wd_str sv) a"
    by (auto simp: hive_new_def rg_name_handle [symmetric])
  with run a(2) show "sv_run sv' \<and> readers sv' \<inter> set_option (hv_myThreadHandle hv) = {}"
    by (auto simp: sv_ok_def sv_started_def readers_def)
qed

section \<open>The commands keep the invariant\<close>

lemma run_upd:
  "(\<And>s. sv_run s \<Longrightarrow> sv_run (g s)) \<Longrightarrow> triple sv_run (updE g) (\<lambda>_. sv_run)"
  by (rule triple_pre [OF triple_upd])

lemma ret_run [triple_rules]: "triple sv_run (retE x) (\<lambda>_. sv_run)"
  and pure_run [triple_rules]: "triple sv_run (pureE r) (\<lambda>_. sv_run)"
  and copy_run [triple_rules]: "triple sv_run (copy_output n out) (\<lambda>_. sv_run)"
  and fetch_run [triple_rules]: "triple sv_run (fetchE f) (\<lambda>_. sv_run)"
  by (auto simp: triple_def copy_output_def fetchE_def split: option.splits)

lemma then_run [triple_rules]:
  "triple sv_run m (\<lambda>_. sv_run) \<Longrightarrow> (\<And>x. triple sv_run (f x) (\<lambda>_. sv_run)) \<Longrightarrow> triple sv_run (thenE m f) (\<lambda>_. sv_run)"
  by (rule triple_then)

lemma if_run: "triple P m Q \<Longrightarrow> triple P m' Q \<Longrightarrow> triple P (if c then m else m') Q"
  by simp

lemma get_run [triple_rules]:
  "(\<And>sv. triple (\<lambda>s. sv_run s \<and> sv = s) (f sv) (\<lambda>_. sv_run)) \<Longrightarrow> triple sv_run (thenE getE f) (\<lambda>_. sv_run)"
  by (rule triple_then [OF triple_get])

lemma PublishData_run [triple_rules]: "triple sv_run (PublishData msg) (\<lambda>_. sv_run)"
  unfolding PublishData_def by (intro triple_rules)

lemma GetState_run: "triple sv_run (ext_GetState n) (\<lambda>_. sv_run)"
  unfolding triple_def
proof (intro allI impI)
  fix sv :: "('a, 'b, 'c, 'd) server" and out sv'
  assume run: "sv_run sv" and "ext_GetState n sv = (Inr out, sv')"
  then obtain ok msgs k hv rg where r: "receiveAll False (sv_threadState sv) (wd_str sv) = Some (Inr (ok, msgs, k, hv, rg))"
    "sv' = sv\<lparr>wd_str := rg, sv_threadState := hv\<rparr>"
    by (auto simp: ext_GetState_def thenE_Inr_iff onStr_def promptE_def copy_output_def bindE_Inr_iff
        split: sum.splits option.splits)
  from run have "rg_ok (wd_str sv)" by (simp add: sv_ok_def)
  from receiveAll_keeps [OF this r(1)] run r(2) show "sv_run sv'"
    by (simp add: sv_ok_def sv_started_def readers_def rg_keeps_def)
qed

lemma GetDllState_run: "triple sv_run (ext_GetDllState n) (\<lambda>_. sv_run)"
  unfolding triple_def
proof (intro allI impI)
  fix sv :: "('a, 'b, 'c, 'd) server" and out sv'
  assume run: "sv_run sv" and "ext_GetDllState n sv = (Inr out, sv')"
  then obtain ok msg hv rg where r: "receiveMsg False (sv_dllState sv) (wd_str sv) = Some (Inr (ok, msg, hv, rg))"
    "sv' = sv\<lparr>wd_str := rg, sv_dllState := hv\<rparr>"
    by (auto simp: ext_GetDllState_def thenE_Inr_iff onStr_def promptE_def copy_output_def bindE_Inr_iff
        split: sum.splits option.splits)
  from run have "rg_ok (wd_str sv)" by (simp add: sv_ok_def)
  from receiveMsg_keeps [OF this r(1)] run r(2) show "sv_run sv'"
    by (simp add: sv_ok_def sv_started_def readers_def rg_keeps_def)
qed

lemma GetOutput_run: "triple sv_run (ext_GetOutput msg n) (\<lambda>_. sv_run)"
  unfolding triple_def
proof (intro allI impI)
  fix sv :: "('a, 'b, 'c, 'd) server" and out sv'
  assume run: "sv_run sv" and "ext_GetOutput msg n sv = (Inr out, sv')"
  then obtain a h sv1 where ah: "sv_shives sv a = Some h" and
    sv': "thenE (onStr (\<lambda>rg. bindE (promptE (receiveMsg False h rg)) (\<lambda>(ok, msg, hv, rg). Inr ((msg, hv), rg)))) (\<lambda>(out, hv).
       thenE (updE (\<lambda>sv. sv\<lparr>sv_shives := (sv_shives sv)(a := Some hv)\<rparr>)) (\<lambda>_.
         copy_output n (case out of None \<Rightarrow> [] | Some s \<Rightarrow> s))) sv = (Inr out, sv')"
    by (auto simp: ext_GetOutput_def thenE_Inr_iff [of "pureE _"] thenE_Inr_iff [of "fetchE _"] fetchE_def split: option.splits)
  then obtain ok m hv rg where r: "receiveMsg False h (wd_str sv) = Some (Inr (ok, m, hv, rg))"
    "sv_shives sv a = Some h" "sv' = sv\<lparr>wd_str := rg, sv_shives := (sv_shives sv)(a := Some hv)\<rparr>"
    by (auto simp: thenE_Inr_iff onStr_def promptE_def copy_output_def bindE_Inr_iff split: sum.splits option.splits)
  from run have "rg_ok (wd_str sv)" by (simp add: sv_ok_def)
  from receiveMsg_keeps [OF this r(1)] run r(2,3) show "sv_run sv'"
    by (auto simp: sv_ok_def sv_started_def readers_def rg_keeps_def)
qed

lemma Connect_run: "triple sv_run (ext_Connect pf msg n) (\<lambda>_. sv_run)"
proof -
  have new: "triple (\<lambda>s. sv_run s \<and> sv = s) (updE (\<lambda>sv. sv\<lparr>sv_shives := (sv_shives sv)(x := Some hive_new)\<rparr>)) (\<lambda>_. sv_run)"
    for sv :: "('a, 'b, 'c, 'd) server" and x
    by (auto simp: triple_def sv_ok_def sv_started_def readers_def hive_new_def)
  have ehive: "triple sv_run (updE (\<lambda>sv. sv\<lparr>sv_ehives := (sv_ehives sv)(x := Some hv)\<rparr>)) (\<lambda>_. sv_run)"
    "triple sv_run (updE (\<lambda>sv. sv\<lparr>sv_spawned := sv_spawned sv @ [s]\<rparr>)) (\<lambda>_. sv_run)" for x hv s
    by (auto simp: triple_def sv_ok_def sv_started_def readers_def)
  have ehive': "triple (\<lambda>s. sv_run s \<and> sv = s) (updE (\<lambda>sv. sv\<lparr>sv_ehives := (sv_ehives sv)(x := Some hv)\<rparr>)) (\<lambda>_. sv_run)"
    for sv :: "('a, 'b, 'c, 'd) server" and x hv
    by (auto simp: triple_def sv_ok_def sv_started_def readers_def)
  have shive: "triple (\<lambda>s. sv_run s \<and> readers s \<inter> set_option (hv_myThreadHandle hv) = {})
      (updE (\<lambda>sv. sv\<lparr>sv_shives := (sv_shives sv)(x := Some hv)\<rparr>)) (\<lambda>_. sv_run)" for x hv
    by (auto simp: triple_def sv_ok_def sv_started_def readers_def)
  show ?thesis
    unfolding ext_Connect_def Let_def
    by (intro get_run triple_then [OF new] triple_then [OF ehive'] triple_then [OF add_str_run] triple_then [OF shive]
        triple_then [OF ehive(1)] triple_then [OF ehive(2)] triple_rules)
qed

lemma Commit_run: "triple sv_run (ext_Commit msg) (\<lambda>_. sv_run)"
proof -
  have loop: "triple sv_run (commit_loop es) (\<lambda>_. sv_run)" for es :: "'a adata list"
  proof (induction es)
    case Nil
    show ?case unfolding commit_loop.simps by (rule ret_run)
  next
    case (Cons e es)
    show ?case unfolding commit_loop.simps by (intro triple_rules Cons)
  qed
  have "triple (\<lambda>s. sv_run s \<and> sv = s) (thenE (onElem (sendMsg th msg)) (\<lambda>_. retE [])) (\<lambda>_. sv_run)"
    for sv :: "('a, 'b, 'c, 'd) server" and th
    by (rule triple_pre [where P = sv_run]) (auto intro!: triple_rules)
  then show ?thesis unfolding ext_Commit_def by (intro get_run loop triple_rules)
qed

lemma copy_run_get: "triple (\<lambda>s. sv_run s \<and> sv = s) (copy_output n out) (\<lambda>_. sv_run)"
  by (rule triple_pre [OF copy_run]) simp

lemma IsBanned_run: "triple sv_run (ext_IsBanned cl msg n) (\<lambda>_. sv_run)"
  unfolding ext_IsBanned_def Let_def by (intro get_run copy_run_get triple_rules)

lemma GMTime_run: "triple sv_run (ext_GMTime cl n) (\<lambda>_. sv_run)"
  unfolding ext_GMTime_def Let_def by (intro get_run copy_run_get)

lemma ext_start_run:
  assumes "sv_ok sv" and "sv_fresh sv \<or> sv_started sv" and "ext_start pf sv = (Inr (), sv')"
  shows "sv_run sv'"
proof (cases "sv_started sv")
  case True
  with assms(1,3) show ?thesis by (auto simp: ext_start_def getMyThreadHandle_def sv_started_def)
next
  case False
  with assms(2) have fresh: "sv_fresh sv" by simp
  then obtain b1 hv1 rg1 b2 hv2 rg2 b3 hv3 rg3 b4 hv4 rg4 where
    add: "addThread (pf_shares pf) (sv_thrdname sv) (Some CleanupThreads) None (sv_cleanupThread sv) (wd_elem sv) = Inr (b1, hv1, rg1)"
    "addThread (pf_shares pf) ''CLEANUP_O'' None None (sv_threadState sv) (wd_str sv) = Inr (b2, hv2, rg2)"
    "addThread (pf_shares pf) ''DLL_O'' None None (sv_dllState sv) rg2 = Inr (b3, hv3, rg3)"
    "spawnThread hv1 rg1 = Inr (b4, hv4, rg4)" and
    sv': "sv' = sv\<lparr>wd_elem := rg4, wd_str := rg3, sv_thrdname := ''CLEANUP_O'', sv_cleanupThread := hv1,
      sv_threadState := hv2, sv_dllState := hv3\<rparr>"
    using assms(3)
    by (auto simp: ext_start_def getMyThreadHandle_def sv_fresh_def thenE_Inr_iff on_registry_Inr bindE_Inr_iff)
  have none: "hv_myThreadHandle (sv_cleanupThread sv) = None" "hv_myThreadHandle (sv_threadState sv) = None"
    "hv_myThreadHandle (sv_dllState sv) = None" "sv_shives sv = (\<lambda>_. None)"
    using fresh by (simp_all add: sv_fresh_def)
  have ok: "rg_ok (wd_elem sv)" "rg_ok (wd_str sv)" using assms(1) by (simp_all add: sv_ok_def)
  from addThread_ok [OF ok(1) add(1)] none obtain a where a: "hv_myThreadHandle hv1 = Some a" "rg_ok rg1" by auto
  from spawnThread_keeps [OF a(2) add(4)] have e: "rg_ok rg4" by (simp add: rg_keeps_def)
  from addThread_ok [OF ok(2) add(2)] none obtain b where b: "hv_myThreadHandle hv2 = Some b" "rg_ok rg2" "b \<in> set (rg_addrs rg2)"
    "rg_name rg2 b = ''CLEANUP_O''" by auto
  from addThread_ok [OF b(2) add(3)] none b(3,4) obtain c where c: "hv_myThreadHandle hv3 = Some c" "rg_ok rg3"
    "rg_addrs rg3 = rg_addrs rg2 @ [c]" "rg_name rg3 b = ''CLEANUP_O''" "rg_name rg3 c = ''DLL_O''"
    by (auto simp: rg_name_handle [symmetric])
  from a b c e none(4) show ?thesis by (simp add: sv' sv_ok_def sv_started_def readers_def)
qed

lemma dispatch_run:
  "triple sv_run
     (if am_name msg = ''GetState'' then ext_GetState n
      else if am_name msg = ''GetDllState'' then ext_GetDllState n
      else if am_name msg = ''Connect'' then ext_Connect pf msg n
      else if am_name msg = ''GetOutput'' then ext_GetOutput msg n
      else if am_name msg = ''PublishKills'' \<or> am_name msg = ''PublishChickens'' \<or> am_name msg = ''PublishAccount''
      then thenE (PublishData msg) (\<lambda>_. retE [])
      else if am_name msg = ''Commit'' then ext_Commit msg
      else if am_name msg = ''IsBanned'' then ext_IsBanned cl msg n
      else if am_name msg = ''GMTime'' then ext_GMTime cl n
      else copy_output n call) (\<lambda>_. sv_run)"
  by (intro if_run GetState_run GetDllState_run Connect_run GetOutput_run Commit_run IsBanned_run GMTime_run triple_rules)

lemma RVExtension_run:
  assumes "sv_ok sv" and "sv_fresh sv \<or> sv_started sv" and "RVExtension pf cl n call sv = (Inr out, sv')"
  shows "sv_run sv'"
proof -
  obtain msg sv1 where msg: "ext_start pf sv = (Inr (), sv1)" and
    rest: "(if am_name msg = ''GetState'' then ext_GetState n
       else if am_name msg = ''GetDllState'' then ext_GetDllState n
       else if am_name msg = ''Connect'' then ext_Connect pf msg n
       else if am_name msg = ''GetOutput'' then ext_GetOutput msg n
       else if am_name msg = ''PublishKills'' \<or> am_name msg = ''PublishChickens'' \<or> am_name msg = ''PublishAccount''
       then thenE (PublishData msg) (\<lambda>_. retE [])
       else if am_name msg = ''Commit'' then ext_Commit msg
       else if am_name msg = ''IsBanned'' then ext_IsBanned cl msg n
       else if am_name msg = ''GMTime'' then ext_GMTime cl n
       else copy_output n call) sv1 = (Inr out, sv')"
    using assms(3) by (auto simp: RVExtension_def thenE_Inr_iff [of "pureE _"] thenE_Inr_iff [of "ext_start _"] Let_def)
  from ext_start_run [OF assms(1,2) msg] rest show ?thesis
    using dispatch_run [of msg n pf cl call, unfolded triple_def] by blast
qed

section \<open>Sessions\<close>

text \<open>What a step of a session may do to the two registries: to that of the texts it sends one at most.\<close>

definition sent_text :: "(string, callback) registry \<Rightarrow> (string, callback) registry \<Rightarrow> bool" where
  "sent_text rg rg' \<longleftrightarrow> rg' = rg \<or> (\<exists>th msg ok. sendMsg th msg rg = Inr (ok, rg'))"

lemma sent_text_keeps: "sent_text rg rg' \<Longrightarrow> rg_ok rg \<Longrightarrow> rg_keeps rg rg'"
  by (auto simp: sent_text_def rg_keeps_refl dest: sendMsg_keeps)

definition wd_keeps :: "('f, 'w, 'con, 'st) world \<Rightarrow> ('f, 'w, 'con, 'st) world \<Rightarrow> bool" where
  "wd_keeps wd wd' \<longleftrightarrow> (rg_ok (wd_elem wd) \<longrightarrow> rg_ok (wd_elem wd')) \<and> sent_text (wd_str wd) (wd_str wd')"

lemma wd_keeps_same: "wd_elem wd' = wd_elem wd \<Longrightarrow> wd_str wd' = wd_str wd \<Longrightarrow> wd_keeps wd wd'"
  by (simp add: wd_keeps_def sent_text_def)

lemma wd_keeps_elem: "rg_ok (wd_elem wd) \<longrightarrow> rg_ok (wd_elem wd') \<Longrightarrow> wd_str wd' = wd_str wd \<Longrightarrow> wd_keeps wd wd'"
  by (simp add: wd_keeps_def sent_text_def)

lemma frames [simp]:
  "wd_elem (snd (w_conn m wd)) = wd_elem wd" "wd_str (snd (w_conn m wd)) = wd_str wd"
  "wd_elem (snd (w_borrow d wd)) = wd_elem wd" "wd_str (snd (w_borrow d wd)) = wd_str wd"
  "wd_elem (snd (w_unborrow c wd)) = wd_elem wd" "wd_str (snd (w_unborrow c wd)) = wd_str wd"
  by (simp_all add: w_conn_def w_borrow_def w_unborrow_def split: prod.splits option.splits)

lemma w_conn_frame: "w_conn m wd = (r, wd') \<Longrightarrow> wd_elem wd' = wd_elem wd \<and> wd_str wd' = wd_str wd"
  using frames(1,2) [of m wd] by simp

lemma reassign_frame [simp]:
  "wd_elem (reassign old new wd) = wd_elem wd" "wd_str (reassign old new wd) = wd_str wd"
  by (simp_all add: reassign_def)

lemma w_send_keeps: "w_send name msg wd = Some (Inr (), wd') \<Longrightarrow> wd_keeps wd wd'"
  by (auto simp: w_send_def wd_keeps_def sent_text_def split: option.splits sum.splits prod.splits)

lemma ss_receive_keeps:
  assumes "ss_receive b ss wd k = Some (Inr ss', wd')"
    and "\<And>msg ss wd. k msg ss wd = Some (Inr ss', wd') \<Longrightarrow> wd_elem wd' = wd_elem wd \<and> wd_str wd' = wd_str wd"
  shows "wd_keeps wd wd'"
proof -
  from assms(1) obtain ok msg hv rg where r: "receiveMsg b (ss_hive ss) (wd_elem wd) = Some (Inr (ok, msg, hv, rg))"
    "k msg (ss\<lparr>ss_hive := hv\<rparr>) (wd\<lparr>wd_elem := rg\<rparr>) = Some (Inr ss', wd')"
    by (auto simp: ss_receive_def split: option.splits sum.splits)
  have "rg_ok (wd_elem wd) \<longrightarrow> rg_ok rg" using receiveMsg_keeps(1) [OF _ r(1)] by (simp add: rg_keeps_def)
  with assms(2) [OF r(2)] show ?thesis by (intro wd_keeps_elem) simp_all
qed

lemma local_step_keeps:
  "step_borrow d ss wd = Some (Inr ss', wd') \<Longrightarrow> wd_keeps wd wd'"
  "step_borrow2 d ss wd = Some (Inr ss', wd') \<Longrightarrow> wd_keeps wd wd'"
  "step_init d ss wd = Some (Inr ss', wd') \<Longrightarrow> wd_keeps wd wd'"
  "step_stop1 ss wd = Some (Inr ss', wd') \<Longrightarrow> wd_keeps wd wd'"
  "step_setup d cl ss wd = Some (Inr ss', wd') \<Longrightarrow> wd_keeps wd wd'"
  "step_punish d cl ss wd = Some (Inr ss', wd') \<Longrightarrow> wd_keeps wd wd'"
  "step_give2 ss wd = Some (Inr ss', wd') \<Longrightarrow> wd_keeps wd wd'"
  "step_end d ss wd = Some (Inr ss', wd') \<Longrightarrow> wd_keeps wd wd'"
  "step_stop2 d ss wd = Some (Inr ss', wd') \<Longrightarrow> wd_keeps wd wd'"
  "step_commit d ss wd = Some (Inr ss', wd') \<Longrightarrow> wd_keeps wd wd'"
  by (auto intro!: wd_keeps_same simp: step_borrow_def step_borrow2_def step_init_def step_stop1_def step_setup_def
      step_punish_def step_give2_def step_end_def step_stop2_def step_commit_def goto_def thenE_def case_prod_unfold
      split: sum.splits failure.splits)

lemma receive_step_keeps:
  "step_start ss wd = Some (Inr ss', wd') \<Longrightarrow> wd_keeps wd wd'"
  "step_poll ss wd = Some (Inr ss', wd') \<Longrightarrow> wd_keeps wd wd'"
  "step_serve d ss wd = Some (Inr ss', wd') \<Longrightarrow> wd_keeps wd wd'"
  unfolding step_start_def step_poll_def step_serve_def
  by (erule ss_receive_keeps; auto simp: goto_def dest: w_conn_frame split: option.splits if_splits)+

lemma thread_step_keeps:
  "step_return ss wd = Some (Inr ss', wd') \<Longrightarrow> wd_keeps wd wd'"
  "step_exit ss wd = Some (Inr ss', wd') \<Longrightarrow> wd_keeps wd wd'"
proof -
  assume "step_return ss wd = Some (Inr ss', wd')"
  then obtain hv rg where r: "hive_finish True (ss_hive ss) (wd_elem wd) = Inr (hv, rg)"
    "wd_elem wd' = rg" "wd_str wd' = wd_str wd"
    by (auto simp: step_return_def goto_def split: sum.splits)
  then show "wd_keeps wd wd'" using hive_finish_keeps [OF _ r(1)] by (intro wd_keeps_elem) (auto simp: rg_keeps_def)
next
  assume "step_exit ss wd = Some (Inr ss', wd')"
  then obtain hv rg where r: "hive_destroy (ss_hive ss) (wd_elem wd) = Some (Inr (hv, rg))"
    "wd_elem wd' = rg" "wd_str wd' = wd_str wd"
    by (auto simp: step_exit_def goto_def split: option.splits sum.splits)
  then show "wd_keeps wd wd'" using hive_destroy_ok [OF _ r(1)] by (intro wd_keeps_elem) auto
qed

lemma send_step_keeps:
  "sent p ss (w_send name msg wd) = Some (Inr ss', wd') \<Longrightarrow> wd_keeps wd wd'"
  using w_send_keeps [of name msg wd] by (auto simp: sent_def goto_def split: option.splits sum.splits prod.splits)

lemma session_step_keeps:
  assumes "session_step d cl ss wd = Some (Inr ss', wd')"
  shows "wd_keeps wd wd'"
  using assms
  by (cases "ss_pc ss")
    (simp_all add: session_step_def step_report_def step_cleanup_def Let_def local_step_keeps receive_step_keeps
      thread_step_keeps send_step_keeps)

section \<open>Every reachable state\<close>

lemma on_world_run:
  assumes "sv_run sv" and "on_world f sv = Some (r, sv')" and "\<And>wd'. f (world.truncate sv) = Some (r, wd') \<Longrightarrow> wd_keeps (world.truncate sv) wd'"
  shows "sv_run (sv'\<lparr>sv_spawned := ss\<rparr>)"
proof -
  from assms(2) obtain wd' where f: "f (world.truncate sv) = Some (r, wd')" "sv' = world.extend wd' (world.more sv)"
    by (auto simp: on_world_def)
  note keeps = assms(3) [OF f(1)]
  have "wd_str (world.truncate sv) = wd_str sv" "rg_ok (wd_str sv)" using assms(1) by (simp_all add: world.defs sv_ok_def)
  then have "rg_keeps (wd_str sv) (wd_str wd')" using keeps sent_text_keeps unfolding wd_keeps_def by metis
  with assms(1) keeps show ?thesis
    by (cases sv) (auto simp: f(2) world.defs sv_ok_def sv_started_def readers_def wd_keeps_def rg_keeps_def)
qed

lemma cleanup_delete_cases:
  assumes "cleanup_delete c sv = Some (Inr c', sv')"
  shows "sv' = sv \<or> (\<exists>a h hv rg. sv_ehives sv a = Some h \<and> hive_destroy h (wd_elem sv) = Some (Inr (hv, rg)) \<and>
    sv' = sv\<lparr>wd_elem := rg, sv_ehives := (sv_ehives sv)(a := None)\<rparr>)"
proof (cases "cu_items c")
  case Nil
  with assms show ?thesis by (simp add: cleanup_delete_def cu_goto_def)
next
  case (Cons j js)
  with assms obtain a h where a: "arg_address 0 j = Inr a" "sv_ehives sv a = Some h"
    by (simp add: cleanup_delete_def split: sum.splits option.splits)
  with assms Cons have "(case hive_destroy h (wd_elem sv) of None \<Rightarrow> None | Some (Inl e) \<Rightarrow> Some (Inl (Crashed e), sv)
      | Some (Inr (hv, rg)) \<Rightarrow> cu_goto CDeleteOutput c (sv\<lparr>wd_elem := rg, sv_ehives := (sv_ehives sv)(a := None)\<rparr>))
      = Some (Inr c', sv')"
    by (simp add: cleanup_delete_def split: sum.splits bool.splits)
  with a(2) show ?thesis by (auto simp: cu_goto_def split: option.splits sum.splits)
qed

lemma cleanup_step_run:
  assumes run: "sv_run sv" and "cleanup_step d c sv = Some (Inr c', sv')"
  shows "sv_run sv'"
proof -
  have ok: "rg_ok (wd_elem sv)" "rg_ok (wd_str sv)" using run by (simp_all add: sv_ok_def)
  have elem: "sv_run sv'" if "sv' = sv\<lparr>wd_elem := rg, sv_ehives := h\<rparr>" "rg_ok rg" for rg h
    using run that by (simp add: sv_ok_def sv_started_def readers_def)
  note frame = sv_ok_def sv_started_def readers_def cu_goto_def
  show ?thesis
  proof (cases "cu_pc c")
    case CStart
    with assms show ?thesis
      by (auto simp: cleanup_step_def cleanup_start_def frame split: prod.splits sum.splits)
  next
    case CReady
    with assms(2) obtain th b rg where "sendMsg th ''+1'' (wd_str sv) = Inr (b, rg)" "sv' = sv\<lparr>wd_str := rg\<rparr>"
      by (auto simp: cleanup_step_def cleanup_ready_def cu_goto_def split: option.splits sum.splits)
    with sendMsg_keeps [OF ok(2)] run show ?thesis by (auto simp: frame rg_keeps_def)
  next
    case CReceive
    with assms(2) obtain b ms k hv rg where "receiveAll True (cu_hive c) (wd_elem sv) = Some (Inr (b, ms, k, hv, rg))"
      "sv' = sv\<lparr>wd_elem := rg\<rparr>"
      by (auto simp: cleanup_step_def cleanup_receive_def cu_goto_def split: option.splits sum.splits if_splits)
    with receiveAll_keeps [OF ok(1)] run show ?thesis by (auto simp: frame rg_keeps_def)
  next
    case CMessage
    with assms show ?thesis
      by (auto simp: cleanup_step_def cleanup_message_def cu_goto_def split: list.splits sum.splits)
  next
    case CDelete
    with assms(2) have "cleanup_delete c sv = Some (Inr c', sv')" by (simp add: cleanup_step_def)
    from cleanup_delete_cases [OF this] consider "sv' = sv"
      | a h hv rg where "hive_destroy h (wd_elem sv) = Some (Inr (hv, rg))"
        "sv' = sv\<lparr>wd_elem := rg, sv_ehives := (sv_ehives sv)(a := None)\<rparr>"
      by blast
    then show ?thesis
    proof cases
      case 1
      with run show ?thesis by simp
    next
      case 2
      show ?thesis by (rule elem [OF 2(2)]) (rule hive_destroy_ok [OF ok(1) 2(1), THEN conjunct1])
    qed
  next
    case CDeleteOutput
    with assms(2) obtain a h hv rg where r: "hive_destroy h (wd_str sv) = Some (Inr (hv, rg))" "sv_shives sv a = Some h"
      "sv' = sv\<lparr>wd_str := rg, sv_shives := (sv_shives sv)(a := None)\<rparr>"
      by (auto simp: cleanup_step_def cleanup_delete_output_def cu_goto_def split: list.splits sum.splits option.splits)
    with hive_destroy_ok [OF ok(2) r(1)] run show ?thesis by (auto simp: frame)
  qed
qed

text \<open>Before the first call nothing runs; after it the cleanup thread and the readers' handles are there.\<close>

definition sys_ok :: "('f, 'w, 'con, 'st) config \<Rightarrow> bool" where
  "sys_ok = (\<lambda>(sv, cu). sv_ok sv \<and> (if cu = None then sv_fresh sv else sv_started sv))"

lemma sys_step_ok:
  assumes "sys_step pf cl d c c'" and "sys_ok c"
  shows "sys_ok c'"
  using assms
proof cases
  case (step_call n call sv out sv' cu)
  with assms(2) RVExtension_run [OF _ _ step_call(3)] show ?thesis
    by (auto simp: sys_ok_def split: if_splits option.splits)
next
  case (step_session i sv ss sv' cu)
  then have "sv_run sv" using assms(2) by (auto simp: sys_ok_def sv_fresh_def split: if_splits)
  then have "sv_run (sv'\<lparr>sv_spawned := (sv_spawned sv)[i := ss]\<rparr>)"
    using step_session(4) by (rule on_world_run) (rule session_step_keeps)
  then show ?thesis
    using assms(2) step_session by (auto simp: sys_ok_def sv_fresh_def split: if_splits)
next
  case (step_cleanup_thread c sv c' sv')
  with assms(2) cleanup_step_run [OF _ step_cleanup_thread(3)] show ?thesis by (simp add: sys_ok_def)
next
  case (step_outside sv cu w)
  with assms(2) show ?thesis by (auto simp: sys_ok_def sv_ok_def sv_fresh_def sv_started_def readers_def split: if_splits)
qed

lemma sys_reach_ok: "sys_reach pf cl d c \<Longrightarrow> sys_ok c"
proof (induction rule: sys_reach.induct)
  case (reach_new w)
  show ?case
    by (simp add: sys_ok_def server_new_def sv_ok_def sv_fresh_def readers_def hive_new_def rg_ok_new)
qed (rule sys_step_ok)

text \<open>
  C10: Whatever the game calls, and however the threads of the sessions, the cleanup thread, the clock and
  the database interleave with the calls: both registries are well-formed lists of handles in every
  state the program reaches, and every handle registered has a mailbox that works.
\<close>

theorem registries_stay_well_formed:
  assumes "sys_reach pf cl d (sv, cu)"
  shows "rg_wf (wd_elem sv) \<and> (\<forall>a\<in>set (rg_addrs (wd_elem sv)). has_mailbox a (wd_elem sv)) \<and>
    rg_wf (wd_str sv) \<and> (\<forall>a\<in>set (rg_addrs (wd_str sv)). has_mailbox a (wd_str sv))"
  using sys_reach_ok [OF assms] by (simp add: sys_ok_def sv_ok_def rg_ok_def)

text \<open>
  C9: In every state the program reaches after the first call, \<open>GetState\<close> answers: with all texts waiting
  at its handle, in the order they were sent, which it takes out of the mailbox. The only other
  outcome is an answer that does not fit the buffer of the game, which ends the process.
\<close>

theorem GetState_always_answers:
  assumes "sys_reach pf cl d (sv, Some c)"
  shows "\<exists>a text sv'. hv_myThreadHandle (sv_threadState sv) = Some a \<and>
    text = c_str (''@['' @ commas (mailbox (wd_str sv) a) @ '']'') \<and>
    RVExtension pf cl n ''GetState'' sv = (if length text < n then Inr text else Inl (Ended ''strncpy_s''), sv') \<and>
    mailbox (wd_str sv') a = []"
proof -
  have run: "sv_run sv" using sys_reach_ok [OF assms] by (simp add: sys_ok_def)
  then obtain a where a: "hv_myThreadHandle (sv_threadState sv) = Some a" by (auto simp: sv_started_def)
  with run have "has_mailbox a (wd_str sv)" by (auto simp: sv_ok_def rg_ok_def readers_def)
  moreover have "hv_myThreadHandle (sv_cleanupThread sv) \<noteq> None" using run by (simp add: sv_started_def)
  ultimately show ?thesis using GetState_hands_over [OF _ a _ refl, of pf cl n] a by blast
qed

section \<open>A run\<close>

text \<open>The library is loaded and called for the first time.\<close>

lemma addThread_returns:
  assumes "rg_ok rg" and "hv_myThreadHandle hv = None"
  shows "\<exists>b rg'. addThread junk name cb ps hv rg = Inr (True, hv\<lparr>hv_myThreadHandle := Some b\<rparr>, rg') \<and>
    rg_ok rg' \<and> node_at (rg_mem rg') b \<noteq> None \<and> rg_addrs rg' = rg_addrs rg @ [b] \<and>
    th_threadName (rg_handle rg' b) = name \<and> (\<forall>a\<in>set (rg_addrs rg). rg_handle rg' a = rg_handle rg a)"
proof -
  have "rg_rep (rg_addrs rg) rg" using assms(1) rg_wf_rep [of rg] by (simp add: rg_ok_def)
  from addThread_rep [OF this assms(2), of junk name cb ps] obtain b rg' where
    r: "addThread junk name cb ps hv rg = Inr (True, hv\<lparr>hv_myThreadHandle := Some b\<rparr>, rg')" "rg_rep (rg_addrs rg @ [b]) rg'"
    "th_threadName (rg_handle rg' b) = name" "\<forall>a\<in>set (rg_addrs rg). rg_handle rg' a = rg_handle rg a"
    by (auto simp: mkThreadHandle_def)
  have "rg_ok rg'" using addThread_ok [OF assms(1) r(1)] assms(2) by auto
  moreover have "node_at (rg_mem rg') b \<noteq> None" using rg_rep_live [OF r(2), of b] by auto
  moreover have "rg_addrs rg' = rg_addrs rg @ [b]" using rg_rep_wf [OF r(2)] by simp
  ultimately show ?thesis using r(1,3,4) by blast
qed

lemma ext_start_effect:
  assumes "sv_ok sv" and "sv_fresh sv"
  shows "\<exists>e s ct ts ds. ext_start pf sv =
    (Inr (), sv\<lparr>wd_elem := e, wd_str := s, sv_thrdname := ''CLEANUP_O'', sv_cleanupThread := ct, sv_threadState := ts, sv_dllState := ds\<rparr>) \<and>
    rg_ok e \<and> set_option (hv_myThreadHandle ct) \<subseteq> set (rg_addrs e) \<and>
    (\<forall>a\<in>set (rg_addrs s) - set (rg_addrs (wd_str sv)). th_threadName (rg_handle s a) \<in> {''CLEANUP_O'', ''DLL_O''})"
proof -
  have ok: "rg_ok (wd_elem sv)" "rg_ok (wd_str sv)" using assms(1) by (simp_all add: sv_ok_def)
  have none: "hv_myThreadHandle (sv_cleanupThread sv) = None" "hv_myThreadHandle (sv_threadState sv) = None"
    "hv_myThreadHandle (sv_dllState sv) = None" using assms(2) by (simp_all add: sv_fresh_def)
  obtain a rg1 where 1: "addThread (pf_shares pf) (sv_thrdname sv) (Some CleanupThreads) None (sv_cleanupThread sv) (wd_elem sv)
      = Inr (True, (sv_cleanupThread sv)\<lparr>hv_myThreadHandle := Some a\<rparr>, rg1)" "rg_ok rg1" "node_at (rg_mem rg1) a \<noteq> None"
    using addThread_returns [OF ok(1) none(1)] by blast
  obtain b rg2 where 2: "addThread (pf_shares pf) ''CLEANUP_O'' None None (sv_threadState sv) (wd_str sv)
      = Inr (True, (sv_threadState sv)\<lparr>hv_myThreadHandle := Some b\<rparr>, rg2)" "rg_ok rg2"
    "rg_addrs rg2 = rg_addrs (wd_str sv) @ [b]" "th_threadName (rg_handle rg2 b) = ''CLEANUP_O''"
    using addThread_returns [OF ok(2) none(2)] by blast
  obtain c rg3 where 3: "addThread (pf_shares pf) ''DLL_O'' None None (sv_dllState sv) rg2
      = Inr (True, (sv_dllState sv)\<lparr>hv_myThreadHandle := Some c\<rparr>, rg3)"
    "rg_addrs rg3 = rg_addrs rg2 @ [c]" "th_threadName (rg_handle rg3 c) = ''DLL_O''"
    "\<forall>a\<in>set (rg_addrs rg2). rg_handle rg3 a = rg_handle rg2 a"
    using addThread_returns [OF 2(2) none(3)] by blast
  have names: "\<forall>a\<in>set (rg_addrs rg3) - set (rg_addrs (wd_str sv)). th_threadName (rg_handle rg3 a) \<in> {''CLEANUP_O'', ''DLL_O''}"
    using 2(3,4) 3(2-4) by auto
  have a: "a \<in> set (rg_addrs rg1)" using rg_ok_live(1) [OF 1(2)] 1(3) by auto
  let ?ct = "(sv_cleanupThread sv)\<lparr>hv_myThreadHandle := Some a\<rparr>"
  obtain e where spawn: "spawnThread ?ct rg1 = Inr (True, ?ct, e)" using 1(3) by (auto simp: spawnThread_def)
  from spawnThread_keeps [OF 1(2) spawn] a have e: "rg_ok e" "set_option (hv_myThreadHandle ?ct) \<subseteq> set (rg_addrs e)"
    by (simp_all add: rg_keeps_def)
  have "ext_start pf sv = (Inr (), sv\<lparr>wd_elem := e, wd_str := rg3, sv_thrdname := ''CLEANUP_O'', sv_cleanupThread := ?ct,
      sv_threadState := (sv_threadState sv)\<lparr>hv_myThreadHandle := Some b\<rparr>,
      sv_dllState := (sv_dllState sv)\<lparr>hv_myThreadHandle := Some c\<rparr>\<rparr>)"
    using none 1(1) 2(1) 3(1) spawn by (simp add: ext_start_def getMyThreadHandle_def thenE_def onElem_def onStr_def)
  with e names show ?thesis by blast
qed

lemma ext_start_returns:
  assumes "sv_ok sv" and "sv_fresh sv"
  shows "\<exists>sv'. ext_start pf sv = (Inr (), sv')"
  using ext_start_effect [OF assms, of pf] by blast

lemma first_call:
  "\<exists>sv c. sys_reach demo_platform (calendar_clib dt_epoch) mem_sql (sv, Some c)"
proof -
  let ?sv = "server_new mem_db0 :: (unit, mem_db, unit, unit) server"
  have new: "sys_reach demo_platform (calendar_clib dt_epoch) mem_sql (?sv, None)" by (rule reach_new)
  from sys_reach_ok [OF this] obtain sv where sv: "ext_start demo_platform ?sv = (Inr (), sv)"
    using ext_start_returns [of ?sv demo_platform] by (auto simp: sys_ok_def)
  have "am_of (pf_stof demo_platform) ''x'' = Inr (am_new\<lparr>am_hasFunc := True, am_name := ''x'', am_data := ad_new\<rparr>)"
    by (rule am_of_name) (simp_all add: ad_chars)
  then have "RVExtension demo_platform (calendar_clib dt_epoch) 10240 ''x'' ?sv = (Inr ''x'', sv)"
    using sv by (simp add: RVExtension_def c_str_def copy_output_def Let_def)
  from reach_step [OF new step_call [OF this]] show ?thesis by auto
qed

lemma registries_stay_well_formed_witness:
  "\<exists>sv c. sys_reach demo_platform (calendar_clib dt_epoch) mem_sql (sv, Some c) \<and>
     rg_wf (wd_elem sv) \<and> rg_wf (wd_str sv)"
  using first_call registries_stay_well_formed by meson

lemma GetState_always_answers_witness:
  "\<exists>sv c a. sys_reach demo_platform (calendar_clib dt_epoch) mem_sql (sv, Some c) \<and>
     hv_myThreadHandle (sv_threadState sv) = Some a \<and>
     mailbox (wd_str (snd (RVExtension demo_platform (calendar_clib dt_epoch) 10240 ''GetState'' sv))) a = []"
proof -
  obtain sv c where r: "sys_reach demo_platform (calendar_clib dt_epoch) mem_sql (sv, Some c)" using first_call by blast
  from GetState_always_answers [OF this, of 10240] obtain a sv' where "hv_myThreadHandle (sv_threadState sv) = Some a"
    "snd (RVExtension demo_platform (calendar_clib dt_epoch) 10240 ''GetState'' sv) = sv'" "mailbox (wd_str sv') a = []"
    by auto
  with r show ?thesis by blast
qed

end
