(* ===== verification/System_Conns.thy ===== *)
theory System_Conns
  imports System
begin

text \<open>
  The database connections of the running sessions. Each session borrows two connections, gives them back
  or lets them go on several ways out, and the pool replaces what was let go; here all sessions run on
  one pool, and the use counts the pool looks at are those of the sessions' own pointers.
\<close>

section \<open>What a session holds\<close>

definition conn_list :: "addr option \<Rightarrow> addr list" where
  "conn_list c = (case c of None \<Rightarrow> [] | Some a \<Rightarrow> [a])"

definition ss_holds :: "'f session \<Rightarrow> addr list" where
  "ss_holds ss = conn_list (ss_opflcon ss) @ conn_list (ss_opflcon2 ss)"

text \<open>
  The connections a session may still use: those it holds and has not given back. After the commit it
  is done with the second one, whether that was given back or not.
\<close>

definition ss_uses :: "'f session \<Rightarrow> addr list" where
  "ss_uses ss =
     (if ss_pc ss \<in> {PReturn, PExit, PDone} then []
      else if ss_pc ss \<in> {PStop1, PCommit} then conn_list (ss_opflcon ss)
      else ss_holds ss)"

text \<open>
  No connection is used twice, the counts are those of the pointers, and what is used is lent; without
  a pool nobody holds anything.
\<close>

definition lends_ok ::
  "addr pool option \<Rightarrow> (addr \<Rightarrow> nat) \<Rightarrow> ('con, 'st) conns \<Rightarrow> 'f session list \<Rightarrow> bool" where
  "lends_ok po refs mem sss \<longleftrightarrow>
     distinct (concat (map ss_uses sss)) \<and> (\<forall>c. refs c = count_list (concat (map ss_holds sss)) c) \<and>
     (case po of
        None \<Rightarrow> concat (map ss_holds sss) = []
      | Some p \<Rightarrow> pool_ok conn_alive p (mem, ()) \<and> cp_pool_size p = 50 \<and>
          set (concat (map ss_uses sss)) \<subseteq> set (cp_borrowed p))"

lemma conn_list_simps [simp]: "conn_list None = []" "conn_list (Some a) = [a]"
  by (simp_all add: conn_list_def)

lemma uses_holds: "set (ss_uses ss) \<subseteq> set (ss_holds ss)"
  by (auto simp: ss_uses_def ss_holds_def)

lemma pool_ok_outside: "pool_ok conn_alive p (mem, w) \<longleftrightarrow> pool_ok conn_alive p (mem, ())"
  by (simp add: pool_ok_def conn_alive_def)

text \<open>A step that leaves the pool and the pointers alone may only stop using connections.\<close>

lemma lends_quiet:
  assumes "lends_ok po refs mem (us @ ss # ws)" and "ss_holds ss' = ss_holds ss"
    and "set (ss_uses ss') \<subseteq> set (ss_uses ss)" and "distinct (ss_uses ss) \<longrightarrow> distinct (ss_uses ss')"
  shows "lends_ok po refs mem (us @ ss' # ws)"
  using assms by (cases po) (auto simp: lends_ok_def)

section \<open>Borrowing and giving back\<close>

lemma lends_pool_None: "lends_ok None refs mem sss \<Longrightarrow> ss \<in> set sss \<Longrightarrow> ss_opflcon ss = None \<and> ss_opflcon2 ss = None"
  by (auto simp: lends_ok_def ss_holds_def conn_list_def split: option.splits)

text \<open>The new pointer takes the place of an old one, the first or the second.\<close>

lemma lends_borrow:
  assumes inv: "lends_ok (Some p) refs mem (us @ ss # ws)"
    and b: "borrow (factory_create d f) (conn_destroy d) refs (p, (mem, w)) = (Inr c, (p', (mem', w')))"
    and uses: "ss_uses ss = ss_holds ss" "ss_uses ss' = ss_holds ss'"
    and holds: "ss_holds ss = as @ conn_list old @ bs" "ss_holds ss' = as @ [c] @ bs"
  shows "lends_ok (Some p') (release old (retain (Some c) refs)) mem' (us @ ss' # ws)"
proof -
  let ?before = "concat (map ss_uses us)" and ?after = "concat (map ss_uses ws)"
  have p: "pool_ok conn_alive p (mem, w)" "cp_pool_size p = 50"
      "set ?before \<union> set ?after \<union> set (ss_holds ss) \<subseteq> set (cp_borrowed p)"
    and refs: "\<And>x. refs x = count_list (concat (map ss_holds (us @ ss # ws))) x"
    using inv uses(1) pool_ok_outside [of p mem w] by (auto simp: lends_ok_def)
  from opfl.borrow_cases [OF p(1) b] have p': "pool_ok conn_alive p' (mem', w')" "cp_pool_size p' = 50"
    and c: "c \<in> set (cp_borrowed p')" "c \<notin> set (cp_borrowed p)"
    and kept: "\<And>x. x \<in> set (cp_borrowed p) \<Longrightarrow> refs x \<noteq> 0 \<Longrightarrow> x \<in> set (cp_borrowed p')"
    using p(2) by auto
  have still: "x \<in> set (cp_borrowed p')" if x: "x \<in> set ?before \<union> set ?after \<union> set (ss_holds ss)" for x
  proof (rule kept)
    show "x \<in> set (cp_borrowed p)" using x p(3) by blast
    have "x \<in> set (concat (map ss_holds (us @ ss # ws)))" using x uses_holds by fastforce
    then show "refs x \<noteq> 0" unfolding refs by (metis count_list_0_iff)
  qed
  have new: "c \<notin> set ?before \<union> set ?after \<union> set (ss_holds ss)" using c(2) p(3) by blast
  have "distinct (concat (map ss_uses (us @ ss' # ws)))"
    using inv new uses holds by (auto simp: lends_ok_def)
  moreover have "release old (retain (Some c) refs) x = count_list (concat (map ss_holds (us @ ss' # ws))) x" for x
    using holds by (cases old) (auto simp: refs release_def retain_def)
  moreover have "set (concat (map ss_uses (us @ ss' # ws))) \<subseteq> set (cp_borrowed p')"
    using still c(1) uses(2) holds by auto
  ultimately show ?thesis using p' pool_ok_outside [of p' mem' w'] by (auto simp: lends_ok_def)
qed

text \<open>Giving a connection back: the session that used it does so no more.\<close>

lemma lends_unborrow:
  assumes inv: "lends_ok (Some p) refs mem (us @ ss # ws)" and "ss_holds ss' = ss_holds ss"
    and "c \<in> set (ss_uses ss)" and "set (ss_uses ss') \<subseteq> set (ss_uses ss) - {c}" and "distinct (ss_uses ss')"
  shows "lends_ok (Some (unborrow c p)) refs mem (us @ ss' # ws)"
proof -
  let ?before = "concat (map ss_uses us)" and ?after = "concat (map ss_uses ws)"
  have p: "pool_ok conn_alive p (mem, ())" "cp_pool_size p = 50"
      "set ?before \<union> set ?after \<union> set (ss_uses ss) \<subseteq> set (cp_borrowed p)"
    and dist: "distinct (?before @ ss_uses ss @ ?after)"
    and refs: "\<forall>x. refs x = count_list (concat (map ss_holds (us @ ss' # ws))) x"
    using inv assms(2) by (auto simp: lends_ok_def)
  have c: "c \<in> set (cp_borrowed p)" using p(3) assms(3) by blast
  have others: "c \<notin> set ?before \<union> set ?after" using dist assms(3) by auto
  have fewer: "set ?before \<union> set ?after \<union> set (ss_uses ss') \<subseteq> set (cp_borrowed p) - {c}"
    using p(3) others assms(4) by blast
  have "distinct (?before @ ss_uses ss' @ ?after)"
    using dist assms(4,5) unfolding distinct_append set_append by blast
  moreover have "cp_pool_size (unborrow c p) = 50" "set (cp_borrowed (unborrow c p)) = set (cp_borrowed p) - {c}"
    using p(2) by (simp_all add: unborrow_def)
  ultimately show ?thesis
    using unborrow_ok [OF p(1) c] refs fewer by (simp add: lends_ok_def)
qed

text \<open>The pointers of a session go out of scope.\<close>

lemma lends_return:
  assumes "lends_ok po refs mem (us @ ss # ws)" and "ss_uses ss = []" "ss_uses ss' = []"
    and "ss_holds ss = conn_list b @ conn_list a" and "ss_holds ss' = []"
  shows "lends_ok po (release b (retain None (release a (retain None refs)))) mem (us @ ss' # ws)"
  using assms by (cases po; cases a; cases b) (auto simp: lends_ok_def release_def retain_def)

section \<open>The steps of a session\<close>

text \<open>No call on a connection changes which connections there are.\<close>

definition keeps_mem :: "(('con, 'st) conns \<times> 'w, 'a) eff \<Rightarrow> bool" where
  "keeps_mem m \<longleftrightarrow> (\<forall>s. fst (snd (m s)) = fst s)"

named_theorems keeps_mem_intros \<open>calls that leave the connections there are alone\<close>

lemma keeps_mem_basic [keeps_mem_intros]:
  "keeps_mem (retE x)" "keeps_mem getE" "keeps_mem (pureE r)" "keeps_mem (onSnd m)"
  by (simp_all add: keeps_mem_def onSnd_def Let_def case_prod_unfold)

lemma keeps_mem_thenE [keeps_mem_intros]: "keeps_mem m \<Longrightarrow> (\<And>x. keeps_mem (f x)) \<Longrightarrow> keeps_mem (thenE m f)"
  unfolding keeps_mem_def by (simp add: thenE_def split: prod.split sum.split) (metis fst_conv snd_conv)

lemma keeps_mem_if [keeps_mem_intros]: "keeps_mem m \<Longrightarrow> keeps_mem m' \<Longrightarrow> keeps_mem (if b then m else m')"
  by simp

lemma keeps_mem_split [keeps_mem_intros]: "(\<And>a b. keeps_mem (f a b)) \<Longrightarrow> keeps_mem (case x of (a, b) \<Rightarrow> f a b)"
  by (cases x) simp

lemma keeps_mem_withConn [keeps_mem_intros]: "keeps_mem (withConn f c)"
  unfolding withConn_def by (intro keeps_mem_intros)

lemmas conn_calls = conn_ThreadInit_def conn_ThreadEnd_def conn_CommitData_def conn_CreateAccount_def conn_GetAccount_def
  conn_CreateBanData_def conn_GetBanData_def conn_WriteKills_def conn_WriteChickens_def conn_WriteAccount_def
  conn_WriteBanData_def

lemma session_calls_keep_mem:
  "keeps_mem (load_account d cl ss)" "keeps_mem (serve d m ss)" "keeps_mem (punish_account d cl ss)"
  "keeps_mem (conn_ThreadInit d c)" "keeps_mem (conn_ThreadEnd d c)" "keeps_mem (conn_CommitData d c)"
  unfolding load_account_def serve_def punish_account_def Let_def whenStable_def whenStableAct_def conn_calls
  by (intro keeps_mem_intros)+

lemma w_conn_lends:
  assumes "keeps_mem m" and "w_conn m wd = (r, wd')"
  shows "wd_pool wd' = wd_pool wd \<and> wd_refs wd' = wd_refs wd \<and> wd_conns wd' = wd_conns wd"
  using assms by (auto simp: w_conn_def keeps_mem_def split: prod.splits) (metis fst_conv snd_conv)

text \<open>The pointers of a session are those it had.\<close>

definition same_conns :: "'f session \<Rightarrow> 'f session \<Rightarrow> bool" where
  "same_conns ss ss' \<longleftrightarrow> ss_opflcon ss' = ss_opflcon ss \<and> ss_opflcon2 ss' = ss_opflcon2 ss"

text \<open>The part of the callback a session is in: all of it, after giving back the second connection, or the end.\<close>

fun stage :: "pc \<Rightarrow> nat" where
  "stage p = (if p \<in> {PReturn, PExit, PDone} then 2 else if p \<in> {PStop1, PCommit} then 1 else 0)"

text \<open>What every result of a call is like.\<close>

definition gives :: "('a \<Rightarrow> bool) \<Rightarrow> ('s, 'a) eff \<Rightarrow> bool" where
  "gives Q m \<longleftrightarrow> (\<forall>s x t. m s = (Inr x, t) \<longrightarrow> Q x)"

named_theorems gives_intros \<open>what the results of calls are like\<close>

lemma gives_then [gives_intros]: "(\<And>x. gives Q (f x)) \<Longrightarrow> gives Q (thenE l f)"
  and gives_ret [gives_intros]: "Q x \<Longrightarrow> gives Q (retE x)"
  and gives_split [gives_intros]: "(\<And>a b. gives Q (h a b)) \<Longrightarrow> gives Q (case y of (a, b) \<Rightarrow> h a b)"
  and gives_if [gives_intros]: "gives Q m \<Longrightarrow> gives Q m' \<Longrightarrow> gives Q (if c then m else m')"
  by (auto simp: gives_def thenE_Inr_iff split: prod.split)

lemma load_account_gives: "gives (\<lambda>ss'. same_conns ss ss' \<and> ss_pc ss' = ss_pc ss) (load_account d cl ss)"
  unfolding load_account_def Let_def by (intro gives_intros) (simp add: same_conns_def)

lemma punish_account_gives: "gives (\<lambda>(b, ss'). same_conns ss ss' \<and> ss_pc ss' = ss_pc ss) (punish_account d cl ss)"
  unfolding punish_account_def Let_def by (intro gives_intros) (simp_all add: same_conns_def)

lemma serve_gives: "gives (\<lambda>ss'. same_conns ss ss' \<and> stage (ss_pc ss') = 0) (serve d m ss)"
  unfolding serve_def Let_def by (intro gives_intros) (simp_all add: same_conns_def)

lemma lends_move:
  assumes "lends_ok po refs mem (us @ ss # ws)" and "same_conns ss ss'" and "stage (ss_pc ss) \<le> stage (ss_pc ss')"
  shows "lends_ok po refs mem (us @ ss' # ws)"
proof (rule lends_quiet [OF assms(1)])
  show "ss_holds ss' = ss_holds ss" using assms(2) by (simp add: ss_holds_def same_conns_def)
  show "set (ss_uses ss') \<subseteq> set (ss_uses ss)" and "distinct (ss_uses ss) \<longrightarrow> distinct (ss_uses ss')"
    using assms(2,3)
    by (auto simp: ss_uses_def ss_holds_def same_conns_def conn_list_def split: if_splits option.splits)
qed

text \<open>A step that neither borrows nor gives back.\<close>

definition quiet :: "'f session \<Rightarrow> ('f, 'w, 'con, 'st) world \<Rightarrow> ('f, 'w, 'con, 'st) outcome \<Rightarrow> bool" where
  "quiet ss wd r \<longleftrightarrow> (\<forall>ss' wd'. r = Some (Inr ss', wd') \<longrightarrow>
     same_conns ss ss' \<and> stage (ss_pc ss) \<le> stage (ss_pc ss') \<and>
     wd_pool wd' = wd_pool wd \<and> wd_refs wd' = wd_refs wd \<and> wd_conns wd' = wd_conns wd)"

lemma same_conns_simps [simp]:
  "same_conns ss (ss'\<lparr>ss_pc := p\<rparr>) \<longleftrightarrow> same_conns ss ss'" "same_conns ss (ss'\<lparr>ss_hive := hv\<rparr>) \<longleftrightarrow> same_conns ss ss'"
  "same_conns ss (ss'\<lparr>ss_out := out\<rparr>) \<longleftrightarrow> same_conns ss ss'" "same_conns ss (ss'\<lparr>ss_retry := b\<rparr>) \<longleftrightarrow> same_conns ss ss'" "same_conns ss (caught e ss') \<longleftrightarrow> same_conns ss ss'"
  "same_conns (ss\<lparr>ss_hive := hv\<rparr>) ss' \<longleftrightarrow> same_conns ss ss'" "same_conns ss ss"
  by (simp_all add: same_conns_def caught_def)

lemma quiet_receive:
  assumes "\<And>msg hv rg. quiet (ss\<lparr>ss_hive := hv\<rparr>) (wd\<lparr>wd_elem := rg\<rparr>) (k msg (ss\<lparr>ss_hive := hv\<rparr>) (wd\<lparr>wd_elem := rg\<rparr>))"
  shows "quiet ss wd (ss_receive b ss wd k)"
  unfolding quiet_def
proof (intro allI impI)
  fix ss' wd' assume "ss_receive b ss wd k = Some (Inr ss', wd')"
  then obtain msg hv rg where "k msg (ss\<lparr>ss_hive := hv\<rparr>) (wd\<lparr>wd_elem := rg\<rparr>) = Some (Inr ss', wd')"
    by (auto simp: ss_receive_def split: option.splits sum.splits)
  with assms [of hv rg msg] show "same_conns ss ss' \<and> stage (ss_pc ss) \<le> stage (ss_pc ss') \<and>
     wd_pool wd' = wd_pool wd \<and> wd_refs wd' = wd_refs wd \<and> wd_conns wd' = wd_conns wd"
    by (simp add: quiet_def del: stage.simps)
qed

lemma quiet_goto: "stage (ss_pc ss) \<le> stage p \<Longrightarrow> same_conns ss ss' \<Longrightarrow> quiet ss wd (goto p ss' wd)"
  by (simp add: quiet_def goto_def del: stage.simps)

lemma quiet_fails: "quiet ss wd (Some (Inl e, wd'))" "quiet ss wd None"
  by (simp_all add: quiet_def)

lemma quiet_sent:
  "stage (ss_pc ss) \<le> stage p \<Longrightarrow> same_conns ss ss' \<Longrightarrow> quiet ss wd (sent p ss' (w_send name msg wd))"
  by (auto simp: quiet_def sent_def w_send_def goto_def split: option.splits sum.splits prod.splits simp del: stage.simps)

text \<open>A step that calls the database: only the world outside changes.\<close>

lemma quiet_conn:
  assumes "keeps_mem m" and "w_conn m wd = (r, wd')" and "quiet ss wd' r'"
  shows "quiet ss wd r'"
  using w_conn_lends [OF assms(1,2)] assms(3) by (simp add: quiet_def del: stage.simps)

lemma w_conn_gives:
  assumes "gives Q m" and "w_conn m wd = (Inr x, wd')"
  shows "Q x"
proof -
  from assms(2) obtain t where "m (wd_conns wd, wd_out wd) = (Inr x, t)"
    by (cases "m (wd_conns wd, wd_out wd)") (auto simp: w_conn_def)
  with assms(1) show ?thesis unfolding gives_def by blast
qed

lemma quiet_steps:
  "ss_pc ss = PStart \<Longrightarrow> quiet ss wd (step_start ss wd)"
  "ss_pc ss = PPoll \<Longrightarrow> quiet ss wd (step_poll ss wd)"
  "ss_pc ss = PReport \<Longrightarrow> quiet ss wd (step_report ss wd)"
  "ss_pc ss = PCleanup \<Longrightarrow> quiet ss wd (step_cleanup ss wd)"
  "ss_pc ss = PExit \<Longrightarrow> quiet ss wd (step_exit ss wd)"
proof -
  assume "ss_pc ss = PStart"
  then show "quiet ss wd (step_start ss wd)" unfolding step_start_def
    by (intro quiet_receive) (auto simp: quiet_def bindE_Inr_iff same_conns_def split: option.split)
next
  assume "ss_pc ss = PPoll"
  then show "quiet ss wd (step_poll ss wd)" unfolding step_poll_def
    by (intro quiet_receive) (auto intro!: quiet_goto split: option.split)
next
  assume "ss_pc ss = PReport"
  then show "quiet ss wd (step_report ss wd)" unfolding step_report_def Let_def
    by (intro quiet_sent) simp_all
next
  assume "ss_pc ss = PCleanup"
  then show "quiet ss wd (step_cleanup ss wd)" unfolding step_cleanup_def Let_def
    by (intro quiet_sent) simp_all
next
  assume "ss_pc ss = PExit"
  then show "quiet ss wd (step_exit ss wd)"
    by (auto simp: quiet_def step_exit_def goto_def split: option.splits sum.splits)
qed

lemma quiet_database_steps:
  "ss_pc ss = PInit \<Longrightarrow> quiet ss wd (step_init d ss wd)"
  "ss_pc ss = PSetup \<Longrightarrow> quiet ss wd (step_setup d cl ss wd)"
  "ss_pc ss = PServe \<Longrightarrow> quiet ss wd (step_serve d ss wd)"
  "ss_pc ss = PPunish \<Longrightarrow> quiet ss wd (step_punish d cl ss wd)"
  "ss_pc ss = PCommit \<Longrightarrow> quiet ss wd (step_commit d ss wd)"
  "ss_pc ss = PEnd \<Longrightarrow> quiet ss wd (step_end d ss wd)"
proof -
  assume "ss_pc ss = PInit"
  then show "quiet ss wd (step_init d ss wd)" unfolding step_init_def
    by (auto simp: quiet_def goto_def caught_def same_conns_def dest!: w_conn_lends [OF session_calls_keep_mem(4)]
        split: prod.splits sum.splits failure.splits)
next
  assume "ss_pc ss = PSetup"
  then show "quiet ss wd (step_setup d cl ss wd)" unfolding step_setup_def
    using w_conn_lends [OF session_calls_keep_mem(1)] w_conn_gives [OF load_account_gives]
    by (fastforce simp: quiet_def goto_def split: prod.splits sum.splits)
next
  assume pc: "ss_pc ss = PServe"
  then show "quiet ss wd (step_serve d ss wd)" unfolding step_serve_def
  proof (intro quiet_receive)
    fix msg hv rg
    let ?ss = "ss\<lparr>ss_hive := hv\<rparr>" and ?wd = "wd\<lparr>wd_elem := rg\<rparr>"
    have "quiet ?ss ?wd (Some (w_conn (serve d m ?ss) ?wd))" for m
      unfolding quiet_def
    proof (intro allI impI)
      fix ss' wd' assume "Some (w_conn (serve d m ?ss) ?wd) = Some (Inr ss', wd')"
      then have "w_conn (serve d m ?ss) ?wd = (Inr ss', wd')" by simp
      with w_conn_lends [OF session_calls_keep_mem(2) this] w_conn_gives [OF serve_gives this] pc
      show "same_conns ?ss ss' \<and> stage (ss_pc ?ss) \<le> stage (ss_pc ss') \<and>
          wd_pool wd' = wd_pool ?wd \<and> wd_refs wd' = wd_refs ?wd \<and> wd_conns wd' = wd_conns ?wd"
        by (simp del: stage.simps) simp
    qed
    then show "quiet ?ss ?wd (case msg of None \<Rightarrow> Some (Inl (Crashed NullDeref), ?wd) | Some m \<Rightarrow> Some (w_conn (serve d m ?ss) ?wd))"
      by (cases msg) (simp_all add: quiet_fails)
  qed
next
  assume "ss_pc ss = PPunish"
  then show "quiet ss wd (step_punish d cl ss wd)" unfolding step_punish_def
    using w_conn_lends [OF session_calls_keep_mem(3)] w_conn_gives [OF punish_account_gives]
    by (fastforce simp: quiet_def goto_def split: prod.splits sum.splits)
next
  assume "ss_pc ss = PCommit"
  then show "quiet ss wd (step_commit d ss wd)" unfolding step_commit_def
    using w_conn_lends [OF session_calls_keep_mem(5)] w_conn_lends [OF session_calls_keep_mem(6)]
    by (fastforce simp: quiet_def goto_def thenE_Inr_iff split: prod.splits sum.splits)
next
  assume "ss_pc ss = PEnd"
  then show "quiet ss wd (step_end d ss wd)" unfolding step_end_def
    using w_conn_lends [OF session_calls_keep_mem(5)]
    by (fastforce simp: quiet_def goto_def split: prod.splits sum.splits)
qed

section \<open>All sessions\<close>

abbreviation wd_lends :: "('f, 'w, 'con, 'st, 'z) world_scheme \<Rightarrow> 'f session list \<Rightarrow> bool" where
  "wd_lends wd sss \<equiv> lends_ok (wd_pool wd) (wd_refs wd) (wd_conns wd) sss"

lemma quiet_lends:
  assumes "wd_lends wd (us @ ss # ws)" and "quiet ss wd (Some (Inr ss', wd'))"
  shows "wd_lends wd' (us @ ss' # ws)"
  using lends_move [OF assms(1)] assms(2) by (simp add: quiet_def del: stage.simps)

text \<open>A request for a connection that is refused leaves everything as it was.\<close>

lemma refused_lends:
  assumes "wd_lends wd sss" and "w_borrow d wd = (Inl e, wd')"
  shows "wd_lends wd' sss"
proof (cases "wd_pool wd")
  case None
  with assms show ?thesis by (simp add: w_borrow_def)
next
  case (Some p)
  with assms(1) have p: "pool_ok conn_alive p (wd_conns wd, wd_out wd)"
    using pool_ok_outside [of p "wd_conns wd" "wd_out wd"] by (simp add: lends_ok_def)
  from Some assms(2) obtain p' mem w where b: "borrow (factory_create d mysql_connection_factory) (conn_destroy d) (wd_refs wd)
      (p, (wd_conns wd, wd_out wd)) = (Inl e, (p', (mem, w)))" "wd' = wd\<lparr>wd_pool := Some p', wd_conns := mem, wd_out := w\<rparr>"
    by (auto simp: w_borrow_def split: prod.splits)
  from opfl.borrow_cases [OF p b(1)] have "p' = p" "pool_ok conn_alive p (mem, ())"
    using pool_ok_outside [of p mem w] by auto
  with b(2) Some assms(1) show ?thesis by (simp add: lends_ok_def)
qed

lemma borrowed_lends:
  assumes "wd_lends wd (us @ ss # ws)" and "w_borrow d wd = (Inr c, wd')"
    and "ss_uses ss = ss_holds ss" "ss_uses ss' = ss_holds ss'"
    and "ss_holds ss = as @ conn_list old @ bs" "ss_holds ss' = as @ [c] @ bs"
  shows "wd_lends (reassign old (Some c) wd') (us @ ss' # ws)"
proof -
  from assms(2) obtain p p' mem w where p: "wd_pool wd = Some p"
    "borrow (factory_create d mysql_connection_factory) (conn_destroy d) (wd_refs wd) (p, (wd_conns wd, wd_out wd))
      = (Inr c, (p', (mem, w)))" "wd' = wd\<lparr>wd_pool := Some p', wd_conns := mem, wd_out := w\<rparr>"
    by (auto simp: w_borrow_def split: option.splits prod.splits)
  with assms(1) have "lends_ok (Some p) (wd_refs wd) (wd_conns wd) (us @ ss # ws)" by simp
  from lends_borrow [OF this p(2) assms(3-6)] p(3) show ?thesis by (simp add: reassign_def)
qed

lemma borrow_step_lends:
  "ss_pc ss = PBorrow \<Longrightarrow> wd_lends wd (us @ ss # ws) \<Longrightarrow> step_borrow d ss wd = Some (Inr ss', wd') \<Longrightarrow>
     wd_lends wd' (us @ ss' # ws)"
  "ss_pc ss = PBorrow2 \<Longrightarrow> wd_lends wd (us @ ss # ws) \<Longrightarrow> step_borrow2 d ss wd = Some (Inr ss', wd') \<Longrightarrow>
     wd_lends wd' (us @ ss' # ws)"
proof -
  have caught: "wd_lends wd' (us @ caught e ss # ws)"
    if "ss_pc ss \<in> {PBorrow, PBorrow2}" "wd_lends wd (us @ ss # ws)" "w_borrow d wd = (Inl (Thrown e), wd')" for e wd'
  proof -
    from that(1) have "stage (ss_pc ss) \<le> stage (ss_pc (caught e ss))" by (auto simp: caught_def)
    from lends_move [OF refused_lends [OF that(2,3)] _ this] show ?thesis by simp
  qed
  {
    assume pc: "ss_pc ss = PBorrow" and inv: "wd_lends wd (us @ ss # ws)" and st: "step_borrow d ss wd = Some (Inr ss', wd')"
    obtain r wd1 where b: "w_borrow d wd = (r, wd1)" by (cases "w_borrow d wd")
    show "wd_lends wd' (us @ ss' # ws)"
    proof (cases r)
      case (Inr a)
      with st b have eq: "ss' = ss\<lparr>ss_opflcon := Some a, ss_pc := PBorrow2\<rparr>" "wd' = reassign (ss_opflcon ss) (Some a) wd1"
        by (simp_all add: step_borrow_def goto_def)
      show ?thesis unfolding eq(2)
        by (rule borrowed_lends [OF inv b [unfolded Inr], where as = "[]" and bs = "conn_list (ss_opflcon2 ss)"])
          (simp_all add: eq pc ss_uses_def ss_holds_def)
    next
      case (Inl e)
      with st b caught [OF _ inv] pc show ?thesis by (cases e) (auto simp: step_borrow_def)
    qed
  }
  {
    assume pc: "ss_pc ss = PBorrow2" and inv: "wd_lends wd (us @ ss # ws)" and st: "step_borrow2 d ss wd = Some (Inr ss', wd')"
    obtain r wd1 where b: "w_borrow d wd = (r, wd1)" by (cases "w_borrow d wd")
    show "wd_lends wd' (us @ ss' # ws)"
    proof (cases r)
      case (Inr a)
      with st b have eq: "ss' = ss\<lparr>ss_opflcon2 := Some a, ss_pc := PInit\<rparr>" "wd' = reassign (ss_opflcon2 ss) (Some a) wd1"
        by (simp_all add: step_borrow2_def goto_def)
      show ?thesis unfolding eq(2)
        by (rule borrowed_lends [OF inv b [unfolded Inr], where as = "conn_list (ss_opflcon ss)" and bs = "[]"])
          (simp_all add: eq pc ss_uses_def ss_holds_def)
    next
      case (Inl e)
      with st b caught [OF _ inv] pc show ?thesis by (cases e) (auto simp: step_borrow2_def)
    qed
  }
qed

lemma unborrowed_lends:
  assumes "wd_lends wd (us @ ss # ws)" and "w_unborrow c wd = (Inr u, wd')" and "ss_holds ss' = ss_holds ss"
    and "ss_uses ss = conn_list a @ conn_list c @ bs" and "ss_uses ss' = conn_list a @ bs"
  shows "wd_lends wd' (us @ ss' # ws)"
proof -
  from assms(2) obtain p x where p: "wd_pool wd = Some p" "c = Some x" "wd' = wd\<lparr>wd_pool := Some (unborrow x p)\<rparr>"
    by (auto simp: w_unborrow_def split: option.splits)
  have d: "distinct (ss_uses ss)" using assms(1) by (simp add: lends_ok_def)
  from assms(1) p(1) have "lends_ok (Some p) (wd_refs wd) (wd_conns wd) (us @ ss # ws)" by simp
  from lends_unborrow [OF this assms(3), of x] d assms(4,5) p(2,3) show ?thesis by auto
qed

lemma return_step_lends:
  "ss_pc ss = PReturn \<Longrightarrow> wd_lends wd (us @ ss # ws) \<Longrightarrow> step_return ss wd = Some (Inr ss', wd') \<Longrightarrow>
     wd_lends wd' (us @ ss' # ws)"
  "ss_pc ss = PStop2 \<Longrightarrow> wd_lends wd (us @ ss # ws) \<Longrightarrow> step_stop2 d ss wd = Some (Inr ss', wd') \<Longrightarrow>
     wd_lends wd' (us @ ss' # ws)"
  "ss_pc ss = PGive2 \<Longrightarrow> wd_lends wd (us @ ss # ws) \<Longrightarrow> step_give2 ss wd = Some (Inr ss', wd') \<Longrightarrow>
     wd_lends wd' (us @ ss' # ws)"
  "ss_pc ss = PStop1 \<Longrightarrow> wd_lends wd (us @ ss # ws) \<Longrightarrow> step_stop1 ss wd = Some (Inr ss', wd') \<Longrightarrow>
     wd_lends wd' (us @ ss' # ws)"
proof -
  assume pc: "ss_pc ss = PReturn" and inv: "wd_lends wd (us @ ss # ws)" and "step_return ss wd = Some (Inr ss', wd')"
  then obtain hv rg where eq: "ss' = ss\<lparr>ss_hive := hv, ss_opflcon := None, ss_opflcon2 := None, ss_pc := PExit\<rparr>"
    "wd' = reassign (ss_opflcon ss) None (reassign (ss_opflcon2 ss) None (wd\<lparr>wd_elem := rg\<rparr>))"
    by (auto simp: step_return_def goto_def split: sum.splits)
  show "wd_lends wd' (us @ ss' # ws)"
    using lends_return [OF inv, of ss' "ss_opflcon ss" "ss_opflcon2 ss"] pc
    by (simp add: eq reassign_def ss_uses_def ss_holds_def)
next
  assume pc: "ss_pc ss = PStop2" and inv: "wd_lends wd (us @ ss # ws)" and "step_stop2 d ss wd = Some (Inr ss', wd')"
  then obtain wd1 u v where r: "w_conn (conn_ThreadEnd d (ss_opflcon ss)) wd = (Inr u, wd1)"
    "w_unborrow (ss_opflcon2 ss) wd1 = (Inr v, wd')" "ss' = ss\<lparr>ss_pc := PStop1\<rparr>"
    by (auto simp: step_stop2_def goto_def thenE_Inr_iff split: prod.splits sum.splits)
  from w_conn_lends [OF session_calls_keep_mem(5) r(1)] inv have "wd_lends wd1 (us @ ss # ws)" by simp
  from unborrowed_lends [OF this r(2), of ss' "ss_opflcon ss" "[]"] pc show "wd_lends wd' (us @ ss' # ws)"
    by (simp add: r(3) ss_uses_def ss_holds_def)
next
  assume pc: "ss_pc ss = PGive2" and inv: "wd_lends wd (us @ ss # ws)" and "step_give2 ss wd = Some (Inr ss', wd')"
  then obtain v where r: "w_unborrow (ss_opflcon2 ss) wd = (Inr v, wd')" "ss' = ss\<lparr>ss_pc := PCommit\<rparr>"
    by (auto simp: step_give2_def goto_def split: prod.splits sum.splits)
  from unborrowed_lends [OF inv r(1), of ss' "ss_opflcon ss" "[]"] pc show "wd_lends wd' (us @ ss' # ws)"
    by (simp add: r(2) ss_uses_def ss_holds_def)
next
  assume pc: "ss_pc ss = PStop1" and inv: "wd_lends wd (us @ ss # ws)" and "step_stop1 ss wd = Some (Inr ss', wd')"
  then obtain v where r: "w_unborrow (ss_opflcon ss) wd = (Inr v, wd')" "ss' = ss\<lparr>ss_pc := PReturn\<rparr>"
    by (auto simp: step_stop1_def goto_def split: prod.splits sum.splits)
  from unborrowed_lends [OF inv r(1), of ss' None "[]"] pc show "wd_lends wd' (us @ ss' # ws)"
    by (simp add: r(2) ss_uses_def ss_holds_def)
qed

lemma session_step_lends:
  assumes "wd_lends wd (us @ ss # ws)" and "session_step d cl ss wd = Some (Inr ss', wd')"
  shows "wd_lends wd' (us @ ss' # ws)"
proof (cases "ss_pc ss \<in> {PBorrow, PBorrow2, PStop2, PStop1, PGive2, PReturn, PDone}")
  case True
  with assms borrow_step_lends return_step_lends show ?thesis
    by (auto simp: session_step_def)
next
  case False
  then have "quiet ss wd (session_step d cl ss wd)"
    by (cases "ss_pc ss") (simp_all add: session_step_def quiet_steps quiet_database_steps)
  with assms show ?thesis by (auto intro: quiet_lends)
qed

text \<open>No step makes the pool or drops it.\<close>

lemma session_step_pool:
  assumes "session_step d cl ss wd = Some (Inr ss', wd')"
  shows "wd_pool wd' = None \<longleftrightarrow> wd_pool wd = None"
proof (cases "ss_pc ss \<in> {PBorrow, PBorrow2, PStop2, PStop1, PGive2, PReturn, PDone}")
  case True
  have borrow: "w_borrow d wd = (r, wd1) \<Longrightarrow> wd_pool wd1 = None \<longleftrightarrow> wd_pool wd = None" for r wd1
    by (auto simp: w_borrow_def split: option.splits prod.splits)
  have unborrow: "w_unborrow c wd1 = (r, wd2) \<Longrightarrow> wd_pool wd2 = None \<longleftrightarrow> wd_pool wd1 = None" for c r wd1 wd2
    by (auto simp: w_unborrow_def split: option.splits)
  from assms True show ?thesis
    by (auto simp: session_step_def step_borrow_def step_borrow2_def step_stop2_def step_stop1_def step_give2_def step_return_def
        goto_def reassign_def thenE_Inr_iff split: prod.splits sum.splits failure.splits dest!: borrow unborrow
        w_conn_lends [OF session_calls_keep_mem(5)])
next
  case False
  then have "quiet ss wd (session_step d cl ss wd)"
    by (cases "ss_pc ss") (simp_all add: session_step_def quiet_steps quiet_database_steps)
  with assms show ?thesis by (simp add: quiet_def del: stage.simps)
qed

end
