(* ===== verification/Handle_Count.thy ===== *)
theory Handle_Count
  imports System_Conns
begin

text \<open>
  Who owns the handles of the sessions' mailboxes. The object \<open>ThreadHive\<close> the game holds and the thread
  that runs on a copy of it share one handle, which counts them in \<open>shares\<close>; the destructor of either
  counts down, and the last one takes the handle out of the registry. Where a new handle starts to count
  at zero, the counts are right in every state the program reaches, so no owner loses its handle.
\<close>

section \<open>The count and the thread of a handle\<close>

definition owns_of :: "('m, 'c) registry \<Rightarrow> addr \<Rightarrow> u32 \<times> bool" where
  "owns_of rg a = (th_shares (payload (rg_mem rg) a), th_hiveThread (payload (rg_mem rg) a))"

lemma owns_of_handle: "owns_of rg a = (th_shares (rg_handle rg a), th_hiveThread (rg_handle rg a))"
  by (simp add: owns_of_def rg_handle_def)

lemma owns_of_assign:
  assumes "node_at (rg_mem rg) a = Some n"
  shows "owns_of (rg\<lparr>rg_mem := (rg_mem rg)[a := Some n']\<rparr>) b =
    (if b = a then (th_shares n', th_hiveThread n') else owns_of rg b)"
  using node_at_less [OF assms] by (simp add: owns_of_def payload_def)

text \<open>Messages leave them alone.\<close>

lemma set_queue_owns:
  assumes "set_queue th q rg = Inr rg'"
  shows "owns_of rg' = owns_of rg"
proof -
  from assms obtain a n where n: "node_at (rg_mem rg) a = Some n"
    "rg' = rg\<lparr>rg_mem := (rg_mem rg)[a := Some (n\<lparr>th_msgQueue := Some q\<rparr>)]\<rparr>"
    by (auto simp: set_queue_def assign_def bindE_Inr_iff deref_Inr_iff)
  show ?thesis unfolding n(2) by (rule ext) (simp add: owns_of_assign [OF n(1)], simp add: owns_of_def payload_def n(1))
qed

lemma sendMsg_owns: "sendMsg th msg rg = Inr (ok, rg') \<Longrightarrow> owns_of rg' = owns_of rg"
  by (auto simp: sendMsg_def bindE_Inr_iff dest: set_queue_owns)

lemma loadMsg_owns: "loadMsg hv rg = Inr (ok, hv', rg') \<Longrightarrow> owns_of rg' = owns_of rg"
  by (auto simp: loadMsg_def bindE_Inr_iff dest: set_queue_owns split: if_splits option.splits)

lemma receiveMsg_owns: "receiveMsg b hv rg = Some (Inr (ok, msg, hv', rg')) \<Longrightarrow> owns_of rg' = owns_of rg"
  by (auto simp: receiveMsg_def dest: loadMsg_owns split: sum.splits prod.splits if_splits)

lemma drain_loop_owns: "drain_loop i messages hv rg = Inr (messages', hv', rg') \<Longrightarrow> owns_of rg' = owns_of rg"
proof (induction i messages hv rg rule: drain_loop.induct)
  case (1 i messages hv rg)
  from 1(2) obtain ok hv1 rg1 where l: "loadMsg hv rg = Inr (ok, hv1, rg1)"
    by (subst (asm) drain_loop.simps) (auto simp: bindE_Inr_iff)
  show ?case
  proof (cases ok)
    case True
    with 1(2) l obtain ms where s: "store messages i (hv_currentMsg hv1) = Inr ms"
      "drain_loop (i + 1) ms hv1 rg1 = Inr (messages', hv', rg')"
      by (subst (asm) drain_loop.simps) (auto simp: bindE_Inr_iff)
    from 1(1) [OF l refl refl True s] loadMsg_owns [OF l] show ?thesis by simp
  next
    case False
    with 1(2) l loadMsg_owns [OF l] show ?thesis by (subst (asm) drain_loop.simps) auto
  qed
qed

lemma receiveAll_owns: "receiveAll b hv rg = Some (Inr (ok, msgs, n, hv', rg')) \<Longrightarrow> owns_of rg' = owns_of rg"
  by (cases b)
    (auto simp: receiveAll_def bindE_Inr_iff Let_def dest!: loadMsg_owns drain_loop_owns split: sum.splits prod.splits if_splits)

text \<open>The start and the end of a thread.\<close>

lemma spawnThread_owns:
  assumes "spawnThread hv rg = Inr (ok, hv', rg')" and "hv_myThreadHandle hv = Some a"
  shows "owns_of rg' b = (if b = a then (fst (owns_of rg a) + 1, True) else owns_of rg b)"
  using assms
  by (auto simp: spawnThread_def assign_def bindE_Inr_iff deref_Inr_iff owns_of_assign) (simp_all add: owns_of_def payload_def)

lemma hive_finish_owns:
  assumes "hive_finish r hv rg = Inr (hv', rg')" and "hv_myThreadHandle hv = Some a"
  shows "owns_of rg' b = (if b = a then (fst (owns_of rg a), False) else owns_of rg b)"
  using assms
  by (auto simp: hive_finish_def assign_def bindE_Inr_iff deref_Inr_iff owns_of_assign split: if_splits)
    (simp_all add: owns_of_def payload_def)

lemma addThread_owns:
  assumes "rg_ok rg" and "addThread junk name cb ps hv rg = Inr (ok, hv', rg')" and "hv_myThreadHandle hv = None"
  shows "\<exists>b. b \<notin> set (rg_addrs rg) \<and> hv_myThreadHandle hv' = Some b \<and> rg_ok rg' \<and> rg_addrs rg' = rg_addrs rg @ [b] \<and>
    owns_of rg' b = (junk + 1, False) \<and> (\<forall>a\<in>set (rg_addrs rg). owns_of rg' a = owns_of rg a)"
proof -
  have rep: "rg_rep (rg_addrs rg) rg" using assms(1) rg_wf_rep [of rg] by (simp add: rg_ok_def)
  obtain b where b: "hv' = hv\<lparr>hv_myThreadHandle := Some b\<rparr>" "b \<notin> set (rg_addrs rg)"
    "rg_handle rg' b = (mkThreadHandle junk name)\<lparr>th_callBack := cb, th_parameters := ps, th_msgQueue := Some hqc_new,
      th_shares := junk + 1\<rparr>"
    "\<forall>a\<in>set (rg_addrs rg). rg_handle rg' a = rg_handle rg a"
    using addThread_rep [OF rep assms(3), of junk name cb ps] assms(2) by auto
  with addThread_ok [OF assms(1,2)] assms(3) show ?thesis
    by (auto simp: owns_of_handle mkThreadHandle_def)
qed

lemma hive_destroy_owns:
  assumes "rg_ok rg" and "hive_destroy hv rg = Some (Inr (hv', rg'))" and "hv_myThreadHandle hv = Some a"
  shows "a \<in> set (rg_addrs rg) \<and> rg_ok rg' \<and>
    set (rg_addrs rg') = (if fst (owns_of rg a) = 1 then set (rg_addrs rg) - {a} else set (rg_addrs rg)) \<and>
    (fst (owns_of rg a) \<noteq> 1 \<longrightarrow> owns_of rg' a = (fst (owns_of rg a) - 1, snd (owns_of rg a))) \<and>
    (\<forall>b\<in>set (rg_addrs rg) - {a}. owns_of rg' b = owns_of rg b)"
proof -
  have "node_at (rg_mem rg) a \<noteq> None"
    using assms(2,3) by (auto simp: hive_destroy_def assign_def deref_def Let_def split: option.splits)
  then have a: "a \<in> set (rg_addrs rg)" using rg_ok_live(1) [OF assms(1)] by auto
  have "owns_of rg' a = (fst (owns_of rg a) - 1, snd (owns_of rg a))" if "fst (owns_of rg a) \<noteq> 1"
  proof -
    have "rg_rep (rg_addrs rg) rg" using assms(1) rg_wf_rep [of rg] by (simp add: rg_ok_def)
    from hive_destroy_shared [OF this assms(3) a] assms(2) that show ?thesis by (simp add: owns_of_handle)
  qed
  with hive_destroy_cases [OF assms(1,3) a] assms(2) show ?thesis using a by (auto simp: owns_of_handle)
qed

section \<open>The invariant\<close>

text \<open>
  \<open>obj\<close> are the handles of the objects, by their address, \<open>ts\<close> those of the threads of sessions that have not
  ended, \<open>cl\<close> that of the cleanup thread, which never ends.
\<close>

definition counted ::
  "('m, 'c) registry \<Rightarrow> (u64 \<Rightarrow> addr option) \<Rightarrow> addr option list \<Rightarrow> addr option \<Rightarrow> bool" where
  "counted rg obj ts cl \<longleftrightarrow> rg_ok rg \<and>
     (\<forall>x y a. obj x = Some a \<longrightarrow> obj y = Some a \<longrightarrow> x = y) \<and>
     (\<forall>i j a. i < length ts \<longrightarrow> j < length ts \<longrightarrow> ts ! i = Some a \<longrightarrow> ts ! j = Some a \<longrightarrow> i = j) \<and>
     (\<forall>x a. obj x = Some a \<longrightarrow> a \<in> set (rg_addrs rg) \<and> cl \<noteq> Some a \<and>
        fst (owns_of rg a) = (if Some a \<in> set ts then 2 else 1)) \<and>
     (\<forall>a. Some a \<in> set ts \<longrightarrow> a \<in> set (rg_addrs rg) \<and> cl \<noteq> Some a \<and> fst (owns_of rg a) \<in> {1, 2}) \<and>
     (\<forall>a. cl = Some a \<longrightarrow> a \<in> set (rg_addrs rg))"

lemma countedI:
  assumes "rg_ok rg" and "\<And>x y a. obj x = Some a \<Longrightarrow> obj y = Some a \<Longrightarrow> x = y"
    and "\<And>i j a. i < length ts \<Longrightarrow> j < length ts \<Longrightarrow> ts ! i = Some a \<Longrightarrow> ts ! j = Some a \<Longrightarrow> i = j"
    and "\<And>x a. obj x = Some a \<Longrightarrow> a \<in> set (rg_addrs rg) \<and> cl \<noteq> Some a \<and>
        fst (owns_of rg a) = (if Some a \<in> set ts then 2 else 1)"
    and "\<And>a. Some a \<in> set ts \<Longrightarrow> a \<in> set (rg_addrs rg) \<and> cl \<noteq> Some a \<and> fst (owns_of rg a) \<in> {1, 2}"
    and "\<And>a. cl = Some a \<Longrightarrow> a \<in> set (rg_addrs rg)"
  shows "counted rg obj ts cl"
  unfolding counted_def using assms by (intro conjI allI impI) blast+

lemma countedD:
  assumes "counted rg obj ts cl"
  shows "rg_ok rg" and "obj x = Some a \<Longrightarrow> obj y = Some a \<Longrightarrow> x = y"
    and "i < length ts \<Longrightarrow> j < length ts \<Longrightarrow> ts ! i = Some a \<Longrightarrow> ts ! j = Some a \<Longrightarrow> i = j"
    and "obj x = Some a \<Longrightarrow> a \<in> set (rg_addrs rg) \<and> cl \<noteq> Some a \<and>
        fst (owns_of rg a) = (if Some a \<in> set ts then 2 else 1)"
    and "Some a \<in> set ts \<Longrightarrow> a \<in> set (rg_addrs rg) \<and> cl \<noteq> Some a \<and> fst (owns_of rg a) \<in> {1, 2}"
    and "cl = Some a \<Longrightarrow> a \<in> set (rg_addrs rg)"
  using assms unfolding counted_def by blast+

lemma counted_same:
  assumes "counted rg obj ts cl" and "rg_keeps rg rg'" and "\<And>a. fst (owns_of rg' a) = fst (owns_of rg a)"
  shows "counted rg' obj ts cl"
  using assms by (simp add: counted_def rg_keeps_def)

text \<open>An object that is deleted.\<close>

lemma counted_object_gone:
  assumes inv: "counted rg obj ts cl" and d: "hive_destroy hv rg = Some (Inr (hv', rg'))" and x: "obj x = hv_myThreadHandle hv"
  shows "counted rg' (obj(x := None)) ts cl"
proof (cases "hv_myThreadHandle hv")
  case None
  with d x have "rg' = rg" "obj(x := None) = obj" by (auto simp: hive_destroy_def)
  with inv show ?thesis by simp
next
  case (Some a)
  note inv = countedD [OF inv]
  note r = hive_destroy_owns [OF inv(1) d Some]
  have sh: "fst (owns_of rg a) = (if Some a \<in> set ts then 2 else 1)" "cl \<noteq> Some a" using inv(4) [of x a] x Some by auto
  have addr: "b \<in> set (rg_addrs rg')" if "b \<in> set (rg_addrs rg)" "b \<noteq> a \<or> Some a \<in> set ts" for b
    using r that sh by auto
  have same: "owns_of rg' b = owns_of rg b" if "b \<in> set (rg_addrs rg)" "b \<noteq> a" for b using r that by blast
  have rest: "obj y = Some b \<Longrightarrow> b \<noteq> a" if "y \<noteq> x" for y b using inv(2) [of x a y] x Some that by auto
  show ?thesis
  proof (rule countedI)
    show "rg_ok rg'" using r by blast
  next
    fix y b assume "(obj(x := None)) y = Some b"
    then have y: "y \<noteq> x" "obj y = Some b" by (auto split: if_splits)
    with inv(4) [OF y(2)] rest [OF y] addr same show "b \<in> set (rg_addrs rg') \<and> cl \<noteq> Some b \<and>
      fst (owns_of rg' b) = (if Some b \<in> set ts then 2 else 1)" by simp
  next
    fix b assume b: "Some b \<in> set ts"
    show "b \<in> set (rg_addrs rg') \<and> cl \<noteq> Some b \<and> fst (owns_of rg' b) \<in> {1, 2}"
    proof (cases "b = a")
      case True
      with b sh r addr inv(5) [OF b] show ?thesis by auto
    next
      case False
      with inv(5) [OF b] addr same show ?thesis by auto
    qed
  next
    fix b assume "cl = Some b"
    with inv(6) [of b] sh(2) addr show "b \<in> set (rg_addrs rg')" by auto
  qed (use inv(2,3) in \<open>auto split: if_splits\<close>)
qed

text \<open>A thread that ends.\<close>

lemma counted_thread_gone:
  assumes inv: "counted rg obj ts cl" and d: "hive_destroy hv rg = Some (Inr (hv', rg'))" and i: "i < length ts"
    "ts ! i = Some a" and a: "hv_myThreadHandle hv = Some a"
  shows "counted rg' obj (ts[i := None]) cl"
proof -
  note inv = countedD [OF inv]
  note r = hive_destroy_owns [OF inv(1) d a]
  have mem: "Some a \<in> set ts" using i by (metis nth_mem)
  note sh = inv(5) [OF mem]
  have gone: "Some a \<notin> set (ts[i := None])"
  proof
    assume "Some a \<in> set (ts[i := None])"
    then obtain j where j: "j < length ts" "(ts[i := None]) ! j = Some a" by (auto simp: in_set_conv_nth)
    with inv(3) [OF i(1) _ i(2), of j] show False by (cases "j = i") simp_all
  qed
  have others: "Some b \<in> set (ts[i := None]) \<longleftrightarrow> Some b \<in> set ts" if "b \<noteq> a" for b
  proof
    assume "Some b \<in> set ts"
    then obtain j where j: "j < length ts" "ts ! j = Some b" by (auto simp: in_set_conv_nth)
    with i that have "(ts[i := None]) ! j = Some b" by (cases "j = i") simp_all
    with j(1) show "Some b \<in> set (ts[i := None])" by (metis length_list_update nth_mem)
  qed (use set_update_subset_insert [of ts i None] in auto)
  have same: "owns_of rg' b = owns_of rg b" "b \<in> set (rg_addrs rg')" if "b \<in> set (rg_addrs rg)" "b \<noteq> a" for b
    using r that by auto
  show ?thesis
  proof (rule countedI)
    show "rg_ok rg'" using r by blast
  next
    fix x b assume x: "obj x = Some b"
    show "b \<in> set (rg_addrs rg') \<and> cl \<noteq> Some b \<and> fst (owns_of rg' b) = (if Some b \<in> set (ts[i := None]) then 2 else 1)"
    proof (cases "b = a")
      case True
      with inv(4) [OF x] mem have "fst (owns_of rg a) = 2" by simp
      with r sh True gone show ?thesis by simp
    next
      case False
      with inv(4) [OF x] same [of b] others show ?thesis by simp
    qed
  next
    fix b assume "Some b \<in> set (ts[i := None])"
    moreover from this have ne: "b \<noteq> a" using gone by blast
    ultimately have b: "b \<noteq> a" "Some b \<in> set ts" using others by simp_all
    with inv(5) [OF b(2)] same [of b] show "b \<in> set (rg_addrs rg') \<and> cl \<noteq> Some b \<and> fst (owns_of rg' b) \<in> {1, 2}" by simp
  next
    fix b assume "cl = Some b"
    with inv(6) [of b] sh same [of b] show "b \<in> set (rg_addrs rg')" by auto
  qed (use inv(2,3) i(1) in \<open>auto simp: nth_list_update split: if_splits\<close>)
qed

text \<open>A new object with its thread, whose handle is new.\<close>

lemma counted_new:
  assumes inv: "counted rg obj ts cl" and b: "b \<notin> set (rg_addrs rg)" "rg_ok rg'" "rg_addrs rg' = rg_addrs rg @ [b]"
    "fst (owns_of rg' b) = 2" "\<forall>a\<in>set (rg_addrs rg). fst (owns_of rg' a) = fst (owns_of rg a)"
  shows "counted rg' (obj(x := Some b)) (ts @ [Some b]) cl"
proof -
  note inv = countedD [OF inv]
  have new: "obj y \<noteq> Some b" "Some b \<notin> set ts" for y using inv(4) [of y b] inv(5) [of b] b(1) by auto
  show ?thesis
  proof (rule countedI)
    show "rg_ok rg'" by (rule b)
  next
    fix y a assume y: "(obj(x := Some b)) y = Some a"
    show "a \<in> set (rg_addrs rg') \<and> cl \<noteq> Some a \<and> fst (owns_of rg' a) = (if Some a \<in> set (ts @ [Some b]) then 2 else 1)"
    proof (cases "y = x")
      case True
      with y b inv(6) [of b] show ?thesis by auto
    next
      case False
      with y have "obj y = Some a" by simp
      with inv(4) [OF this] b new(1) [of y] show ?thesis by auto
    qed
  next
    fix a assume "Some a \<in> set (ts @ [Some b])"
    with inv(5) [of a] inv(6) [of b] b show "a \<in> set (rg_addrs rg') \<and> cl \<noteq> Some a \<and> fst (owns_of rg' a) \<in> {1, 2}"
      by auto
  next
    fix a assume "cl = Some a"
    with inv(6) b(3) show "a \<in> set (rg_addrs rg')" by simp
  next
    fix i j a assume "i < length (ts @ [Some b])" "j < length (ts @ [Some b])" "(ts @ [Some b]) ! i = Some a" "(ts @ [Some b]) ! j = Some a"
    with inv(3) [of i j a] new(2) show "i = j"
      by (auto simp: nth_append less_Suc_eq split: if_splits) (metis nth_mem)+
  qed (use inv(2) new(1) in \<open>auto split: if_splits\<close>)
qed

text \<open>The handle of the cleanup thread.\<close>

lemma counted_cleanup:
  assumes inv: "counted rg obj ts None" and b: "b \<notin> set (rg_addrs rg)" "rg_ok rg'" "rg_addrs rg' = rg_addrs rg @ [b]"
    "\<forall>a\<in>set (rg_addrs rg). fst (owns_of rg' a) = fst (owns_of rg a)"
  shows "counted rg' obj ts (Some b)"
proof -
  note inv = countedD [OF inv]
  show ?thesis
    using inv b by (intro countedI) (auto dest: inv(4,5))
qed

section \<open>The steps of a session\<close>

text \<open>The handle of the thread of a session until its end, and while its callback runs.\<close>

definition thread_of :: "'f session \<Rightarrow> addr option" where
  "thread_of ss = (if ss_pc ss = PDone then None else hv_myThreadHandle (ss_hive ss))"

definition running_of :: "'f session \<Rightarrow> addr option" where
  "running_of ss = (if ss_pc ss \<in> {PExit, PDone} then None else hv_myThreadHandle (ss_hive ss))"

text \<open>
  A step inside the callback never goes back to its beginning nor past its end. Either it leaves the registry
  and its object alone, or all it does there is one call of \<open>receiveMsg\<close>.
\<close>

definition inside :: "pc \<Rightarrow> bool" where
  "inside p \<longleftrightarrow> p \<notin> {PStart, PExit, PDone}"

definition still :: "'f session \<Rightarrow> ('f, 'w, 'con, 'st) world \<Rightarrow> ('f, 'w, 'con, 'st) outcome \<Rightarrow> bool" where
  "still ss wd r \<longleftrightarrow> (\<forall>ss' wd'. r = Some (Inr ss', wd') \<longrightarrow>
     ss_hive ss' = ss_hive ss \<and> wd_elem wd' = wd_elem wd \<and> inside (ss_pc ss'))"

definition takes :: "'f session \<Rightarrow> ('f, 'w, 'con, 'st) world \<Rightarrow> ('f, 'w, 'con, 'st) outcome \<Rightarrow> bool" where
  "takes ss wd r \<longleftrightarrow> (\<forall>ss' wd'. r = Some (Inr ss', wd') \<longrightarrow>
     (\<exists>b ok msg. receiveMsg b (ss_hive ss) (wd_elem wd) = Some (Inr (ok, msg, ss_hive ss', wd_elem wd'))) \<and> inside (ss_pc ss'))"

lemma still_same:
  "ss_hive ss' = ss_hive ss \<Longrightarrow> wd_elem wd' = wd_elem wd \<Longrightarrow> inside (ss_pc ss') \<Longrightarrow> still ss wd (Some (Inr ss', wd'))"
  by (simp add: still_def)

lemma still_fails: "still ss wd (Some (Inl e, wd'))" "still ss wd None"
  by (simp_all add: still_def)

lemma takes_receive:
  assumes "\<And>msg hv rg. still (ss\<lparr>ss_hive := hv\<rparr>) (wd\<lparr>wd_elem := rg\<rparr>) (k msg (ss\<lparr>ss_hive := hv\<rparr>) (wd\<lparr>wd_elem := rg\<rparr>))"
  shows "takes ss wd (ss_receive b ss wd k)"
  unfolding takes_def
proof (intro allI impI)
  fix ss' wd' assume "ss_receive b ss wd k = Some (Inr ss', wd')"
  then obtain ok msg hv rg where r: "receiveMsg b (ss_hive ss) (wd_elem wd) = Some (Inr (ok, msg, hv, rg))"
    "k msg (ss\<lparr>ss_hive := hv\<rparr>) (wd\<lparr>wd_elem := rg\<rparr>) = Some (Inr ss', wd')"
    by (auto simp: ss_receive_def split: option.splits sum.splits)
  with assms [of hv rg msg] show "(\<exists>b ok msg. receiveMsg b (ss_hive ss) (wd_elem wd) = Some (Inr (ok, msg, ss_hive ss', wd_elem wd'))) \<and>
      inside (ss_pc ss')"
    unfolding still_def by auto
qed

lemma load_account_hive: "gives (\<lambda>ss'. ss_hive ss' = ss_hive ss) (load_account d cl ss)"
  and punish_account_hive: "gives (\<lambda>(b, ss'). ss_hive ss' = ss_hive ss) (punish_account d cl ss)"
  and serve_hive: "gives (\<lambda>ss'. ss_hive ss' = ss_hive ss \<and> inside (ss_pc ss')) (serve d m ss)"
  unfolding load_account_def punish_account_def serve_def Let_def by (intro gives_intros; simp add: inside_def)+

lemma w_send_elem: "w_send name msg wd = Some (r, wd') \<Longrightarrow> wd_elem wd' = wd_elem wd"
  by (auto simp: w_send_def split: option.splits sum.splits prod.splits)

lemma takes_steps:
  shows "takes ss wd (step_start ss wd)" and "takes ss wd (step_poll ss wd)" and "takes ss wd (step_serve d ss wd)"
proof -
  show "takes ss wd (step_start ss wd)" unfolding step_start_def
    by (rule takes_receive) (auto simp: still_def inside_def bindE_Inr_iff split: option.split)
  show "takes ss wd (step_poll ss wd)" unfolding step_poll_def
    by (rule takes_receive) (auto simp: goto_def inside_def intro!: still_same)
  show "takes ss wd (step_serve d ss wd)" unfolding step_serve_def
  proof (rule takes_receive)
    fix msg hv rg
    show "still (ss\<lparr>ss_hive := hv\<rparr>) (wd\<lparr>wd_elem := rg\<rparr>) (case msg of
        None \<Rightarrow> Some (Inl (Crashed NullDeref), wd\<lparr>wd_elem := rg\<rparr>)
      | Some m \<Rightarrow> Some (w_conn (serve d m (ss\<lparr>ss_hive := hv\<rparr>)) (wd\<lparr>wd_elem := rg\<rparr>)))"
      using w_conn_gives [OF serve_hive] w_conn_frame by (cases msg) (fastforce simp: still_def)+
  qed
qed

lemma still_steps:
  shows "still ss wd (step_report ss wd)" and "still ss wd (step_cleanup ss wd)"
    and "still ss wd (step_setup d cl ss wd)" and "still ss wd (step_punish d cl ss wd)"
    and "still ss wd (step_borrow d ss wd)" and "still ss wd (step_borrow2 d ss wd)" and "still ss wd (step_init d ss wd)"
    and "still ss wd (step_stop2 d ss wd)" and "still ss wd (step_stop1 ss wd)" and "still ss wd (step_give2 ss wd)"
    and "still ss wd (step_commit d ss wd)" and "still ss wd (step_end d ss wd)"
proof -
  show "still ss wd (step_report ss wd)" "still ss wd (step_cleanup ss wd)"
    unfolding step_report_def step_cleanup_def sent_def Let_def
    by (auto simp: goto_def inside_def still_fails dest!: w_send_elem intro!: still_same split: option.split sum.split)
  show "still ss wd (step_setup d cl ss wd)"
    unfolding step_setup_def using w_conn_gives [OF load_account_hive] w_conn_frame
    by (fastforce simp: goto_def inside_def still_fails intro!: still_same split: sum.split prod.split)
  show "still ss wd (step_punish d cl ss wd)"
    unfolding step_punish_def using w_conn_gives [OF punish_account_hive] w_conn_frame
    by (fastforce simp: goto_def inside_def still_fails intro!: still_same split: sum.split prod.split)
qed (auto simp: step_borrow_def step_borrow2_def step_init_def step_stop2_def step_stop1_def step_give2_def step_commit_def
    step_end_def goto_def caught_def inside_def thenE_def case_prod_unfold still_fails intro!: still_same
    split: sum.splits failure.splits)

definition receiving :: "pc set" where
  "receiving = {PStart, PPoll, PServe}"

lemma session_step_kind:
  assumes "ss_pc ss \<notin> {PReturn, PExit, PDone}"
  shows "if ss_pc ss \<in> receiving then takes ss wd (session_step d cl ss wd) else still ss wd (session_step d cl ss wd)"
  using assms takes_steps [of ss wd] still_steps [of ss wd]
  by (cases "ss_pc ss") (simp_all add: session_step_def receiving_def)

text \<open>Such steps leave the handles and their owners alone.\<close>

lemma calm_step:
  assumes "rg_ok (wd_elem wd)" and "session_step d cl ss wd = Some (Inr ss', wd')" and "ss_pc ss \<notin> {PReturn, PExit, PDone}"
  shows "hv_myThreadHandle (ss_hive ss') = hv_myThreadHandle (ss_hive ss) \<and> inside (ss_pc ss') \<and>
     owns_of (wd_elem wd') = owns_of (wd_elem wd) \<and> rg_keeps (wd_elem wd) (wd_elem wd')"
proof (cases "ss_pc ss \<in> receiving")
  case True
  with session_step_kind [OF assms(3), of wd d cl] assms(2) obtain b ok msg where
    r: "receiveMsg b (ss_hive ss) (wd_elem wd) = Some (Inr (ok, msg, ss_hive ss', wd_elem wd'))" "inside (ss_pc ss')"
    by (auto simp: takes_def)
  from receiveMsg_keeps [OF assms(1) r(1)] receiveMsg_owns [OF r(1)] r(2) show ?thesis by simp
next
  case False
  with session_step_kind [OF assms(3), of wd d cl] assms(1,2) show ?thesis by (simp add: still_def rg_keeps_refl)
qed

end
