(* ===== verification/System_Lending.thy ===== *)
theory System_Lending
  imports System_Conns
begin

text \<open>
  The connections in the whole program: the calls of the game and the cleanup thread leave the lending
  of \<^verbatim>\<open>System_Conns\<close> alone, up to the one step that makes the pool, so it holds in every state the
  program reaches.
\<close>

section \<open>The calls of the game\<close>

text \<open>What every predicate survives, and how triples of one predicate combine.\<close>

lemma triple_plain:
  "triple P (retE x) (\<lambda>_. P)" "triple P (pureE r) (\<lambda>_. P)" "triple P getE (\<lambda>_. P)" "triple P (copy_output n out) (\<lambda>_. P)"
  "triple P (fetchE f) (\<lambda>_. P)"
  by (auto simp: triple_def copy_output_def fetchE_def split: option.splits)

lemma triple_seq: "triple P m (\<lambda>_. P) \<Longrightarrow> (\<And>x. triple P (f x) (\<lambda>_. P)) \<Longrightarrow> triple P (thenE m f) (\<lambda>_. P)"
  by (rule triple_then)

lemma triple_pair: "(\<And>a b. triple P (f a b) (\<lambda>_. P)) \<Longrightarrow> triple P (case x of (a, b) \<Rightarrow> f a b) (\<lambda>_. P)"
  by (cases x) simp

lemmas triple_frame = triple_plain triple_seq triple_pair if_run

text \<open>
  The commands that change more than this are the first call, \<open>Connect\<close>, the three that read texts, and those
  that send messages. What survives these survives every call.
\<close>

locale kept_by_parts =
  fixes P :: "('f, 'w, 'con, 'st) server \<Rightarrow> bool"
    and pf :: "('f, 'w, 'con, 'st) platform"
  assumes keep_start: "triple P (ext_start pf) (\<lambda>_. P)"
    and keep_Connect: "triple P (ext_Connect pf msg n) (\<lambda>_. P)"
    and keep_send: "triple P (onElem (sendMsg th msg)) (\<lambda>_. P)"
    and keep_GetState: "triple P (ext_GetState n) (\<lambda>_. P)"
    and keep_GetDllState: "triple P (ext_GetDllState n) (\<lambda>_. P)"
    and keep_GetOutput: "triple P (ext_GetOutput msg n) (\<lambda>_. P)"
begin

lemma PublishData_keeps: "triple P (PublishData msg) (\<lambda>_. P)"
  unfolding PublishData_def by (intro keep_send triple_frame)

lemma commit_loop_keeps: "triple P (commit_loop es) (\<lambda>_. P)"
proof (induction es)
  case Nil
  show ?case unfolding commit_loop.simps by (rule triple_frame)
next
  case (Cons e es)
  show ?case unfolding commit_loop.simps by (intro triple_frame PublishData_keeps Cons)
qed

lemma RVExtension_keeps: "triple P (RVExtension pf cl n call) (\<lambda>_. P)"
  unfolding RVExtension_def ext_Commit_def ext_IsBanned_def ext_GMTime_def Let_def
  by (intro keep_start keep_Connect keep_send keep_GetState keep_GetDllState keep_GetOutput PublishData_keeps commit_loop_keeps
      triple_frame)

lemma call_keeps: "P sv \<Longrightarrow> RVExtension pf cl n call sv = (Inr out, sv') \<Longrightarrow> P sv'"
  using RVExtension_keeps unfolding triple_def by blast

end

text \<open>A predicate that says nothing of the texts survives those who read them.\<close>

locale kept_by_texts =
  fixes P :: "('f, 'w, 'con, 'st) server \<Rightarrow> bool"
  assumes keep_str: "P sv \<Longrightarrow> P (sv\<lparr>wd_str := r\<rparr>)"
    and keep_shives: "P sv \<Longrightarrow> P (sv\<lparr>sv_shives := sh\<rparr>)"
    and keep_threadState: "P sv \<Longrightarrow> P (sv\<lparr>sv_threadState := hv\<rparr>)"
    and keep_dllState: "P sv \<Longrightarrow> P (sv\<lparr>sv_dllState := hv\<rparr>)"
begin

lemma updates:
  "triple P (onStr m) (\<lambda>_. P)"
  "triple P (updE (\<lambda>sv. sv\<lparr>sv_shives := h sv\<rparr>)) (\<lambda>_. P)"
  "triple P (updE (\<lambda>sv. sv\<lparr>sv_threadState := hv\<rparr>)) (\<lambda>_. P)"
  "triple P (updE (\<lambda>sv. sv\<lparr>sv_dllState := hv\<rparr>)) (\<lambda>_. P)"
  by (auto simp: triple_def onStr_def keep_shives keep_threadState keep_dllState intro: keep_str split: sum.splits)

end

locale kept_by_commands = kept_by_texts P
  for P :: "('f, 'w, 'con, 'st) server \<Rightarrow> bool" +
  fixes pf :: "('f, 'w, 'con, 'st) platform"
  assumes keep_start: "triple P (ext_start pf) (\<lambda>_. P)"
    and keep_Connect: "triple P (ext_Connect pf msg n) (\<lambda>_. P)"
    and keep_send: "triple P (onElem (sendMsg th msg)) (\<lambda>_. P)"
begin

lemma readers_keep:
  "triple P (ext_GetState n) (\<lambda>_. P)" "triple P (ext_GetDllState n) (\<lambda>_. P)" "triple P (ext_GetOutput msg n) (\<lambda>_. P)"
  unfolding ext_GetState_def ext_GetDllState_def ext_GetOutput_def by (intro triple_frame updates)+

end

sublocale kept_by_commands \<subseteq> parts: kept_by_parts P pf
  by unfold_locales (fact keep_start keep_Connect keep_send readers_keep)+

text \<open>
  The first call and \<open>Connect\<close> make handles, start threads and fill tables; what survives these changes
  survives both.
\<close>

locale kept_by_calls = kept_by_texts P
  for P :: "('f, 'w, 'con, 'st) server \<Rightarrow> bool" +
  assumes keep_sent: "triple P (onElem (sendMsg th msg)) (\<lambda>_. P)"
    and keep_added: "triple P (onElem (\<lambda>rg. bindE (addThread junk name cb ps old rg) (\<lambda>(_, hv, rg). Inr (hv, rg)))) (\<lambda>_. P)"
    and keep_running: "triple P (onElem (\<lambda>rg. bindE (spawnThread hv rg) (\<lambda>(_, hv, rg). Inr ((), rg)))) (\<lambda>_. P)"
    and keep_ehives: "P sv \<Longrightarrow> P (sv\<lparr>sv_ehives := eh\<rparr>)"
    and keep_cleanupThread: "P sv \<Longrightarrow> P (sv\<lparr>sv_cleanupThread := ct, sv_thrdname := name\<rparr>)"
    and keep_spawned: "P sv \<Longrightarrow> P (sv\<lparr>sv_spawned := sv_spawned sv @ [session_new act ct]\<rparr>)"
begin

lemma additions:
  "triple P (updE (\<lambda>sv. sv\<lparr>sv_ehives := h sv\<rparr>)) (\<lambda>_. P)"
  "triple P (updE (\<lambda>sv. sv\<lparr>sv_cleanupThread := hv, sv_thrdname := name\<rparr>)) (\<lambda>_. P)"
  "triple P (updE (\<lambda>sv. sv\<lparr>sv_spawned := sv_spawned sv @ [session_new act hv]\<rparr>)) (\<lambda>_. P)"
  by (simp_all add: triple_def keep_ehives keep_cleanupThread keep_spawned)

lemma start: "triple P (ext_start pf) (\<lambda>_. P)"
  unfolding ext_start_def Let_def by (intro keep_added keep_running updates additions triple_frame)

lemma Connect: "triple P (ext_Connect pf msg n) (\<lambda>_. P)"
  unfolding ext_Connect_def Let_def by (intro keep_sent keep_added keep_running updates additions triple_frame)

end

sublocale kept_by_calls \<subseteq> commands: kept_by_commands P pf for pf
  by unfold_locales (fact start Connect keep_sent)+

text \<open>A predicate that says nothing of the registry of messages survives what happens there.\<close>

lemma onElem_any: "(\<And>sv e. P sv \<Longrightarrow> P (sv\<lparr>wd_elem := e\<rparr>)) \<Longrightarrow> triple P (onElem m) (\<lambda>_. P)"
  by (auto simp: triple_def onElem_def split: sum.splits)

text \<open>The lending is kept: a new session holds nothing.\<close>

definition lent :: "addr pool option \<Rightarrow> ('f, 'w, 'con, 'st) server \<Rightarrow> bool" where
  "lent po sv \<longleftrightarrow> wd_pool sv = po \<and> lends_ok po (wd_refs sv) (wd_conns sv) (sv_spawned sv)"

lemma session_new_holds: "ss_uses (session_new junk hv) = []" "ss_holds (session_new junk hv) = []"
  by (simp_all add: ss_uses_def ss_holds_def session_new_def)

lemma lends_new: "lends_ok po refs mem sss \<Longrightarrow> lends_ok po refs mem (sss @ [session_new junk hv])"
  by (cases po) (simp_all add: lends_ok_def session_new_holds)

interpretation lending_kept: kept_by_calls "lent po" for po
  by unfold_locales (auto simp: lent_def lends_new intro!: onElem_any)

section \<open>The cleanup thread\<close>

text \<open>Until it has made the pool there is none.\<close>

lemma cleanup_start_lends:
  assumes "lends_ok None refs mem sss" and "pool_new 50 (factory_create d f) (mem, w) = (Inr p, (mem', w'))"
  shows "lends_ok (Some p) refs mem' sss"
proof -
  have "pool_ok conn_alive p (mem', ())" "cp_pool_size p = 50"
    using opfl.pool_new_ok [OF assms(2)] pool_ok_outside [of p mem' w'] by auto
  moreover have none: "concat (map ss_holds sss) = []" using assms(1) by (simp add: lends_ok_def)
  then have "ss_uses ss = []" if "ss \<in> set sss" for ss
    using that uses_holds [of ss] by auto
  then have "concat (map ss_uses sss) = []" by simp
  ultimately show ?thesis using assms(1) none by (simp add: lends_ok_def)
qed

definition sys_lends :: "('f, 'w, 'con, 'st) config \<Rightarrow> bool" where
  "sys_lends = (\<lambda>(sv, cu). wd_lends sv (sv_spawned sv) \<and>
     (case cu of None \<Rightarrow> wd_pool sv = None | Some c \<Rightarrow> cu_pc c = CStart \<longleftrightarrow> wd_pool sv = None))"

lemma cleanup_step_quiet:
  assumes "cleanup_step d c sv = Some (Inr c', sv')" and "cu_pc c \<noteq> CStart"
  shows "wd_pool sv' = wd_pool sv \<and> wd_refs sv' = wd_refs sv \<and> wd_conns sv' = wd_conns sv \<and>
    sv_spawned sv' = sv_spawned sv \<and> cu_pc c' \<noteq> CStart"
proof (cases "cu_pc c = CDelete")
  case True
  then have r: "cleanup_delete c sv = Some (Inr c', sv')" using assms(1) by (simp add: cleanup_step_def)
  then have "cu_pc c' \<noteq> CStart"
    by (auto simp: cleanup_delete_def cu_goto_def split: list.splits sum.splits option.splits bool.splits)
  with cleanup_delete_cases [OF r] show ?thesis by auto
next
  case False
  with assms show ?thesis
    by (cases "cu_pc c")
      (auto simp: cleanup_step_def cleanup_ready_def cleanup_receive_def cleanup_message_def cleanup_delete_output_def
        cu_goto_def split: option.splits sum.splits list.splits if_splits)
qed

lemma cleanup_step_lends:
  assumes "sys_lends (sv, Some c)" and "cleanup_step d c sv = Some (Inr c', sv')"
  shows "sys_lends (sv', Some c')"
proof (cases "cu_pc c = CStart")
  case True
  with assms(2) obtain p mem w where p: "pool_new 50 (factory_create d mysql_connection_factory) (wd_conns sv, wd_out sv)
      = (Inr p, (mem, w))" "sv' = sv\<lparr>wd_conns := mem, wd_out := w, wd_pool := Some p\<rparr>" "cu_pc c' = CReady"
    by (auto simp: cleanup_step_def cleanup_start_def cu_goto_def split: prod.splits sum.splits)
  from assms(1) True have "lends_ok None (wd_refs sv) (wd_conns sv) (sv_spawned sv)"
    unfolding sys_lends_def by (metis (mono_tags, lifting) case_prod_conv option.simps(5))
  from cleanup_start_lends [OF this p(1)] p(2,3) show ?thesis by (simp add: sys_lends_def)
next
  case False
  with assms(1) cleanup_step_quiet [OF assms(2) False] show ?thesis by (simp add: sys_lends_def)
qed

section \<open>Every reachable state\<close>

lemma on_world_lends:
  assumes "wd_lends sv (us @ ss # ws)" and "on_world (session_step d cl ss) sv = Some (Inr ss', sv')"
  shows "wd_lends sv' (us @ ss' # ws) \<and> (wd_pool sv' = None \<longleftrightarrow> wd_pool sv = None)"
proof -
  from assms(2) obtain wd' where f: "session_step d cl ss (world.truncate sv) = Some (Inr ss', wd')"
    "sv' = world.extend wd' (world.more sv)"
    by (auto simp: on_world_def)
  have same: "wd_pool (world.truncate sv) = wd_pool sv" "wd_refs (world.truncate sv) = wd_refs sv"
    "wd_conns (world.truncate sv) = wd_conns sv" "wd_pool sv' = wd_pool wd'" "wd_refs sv' = wd_refs wd'" "wd_conns sv' = wd_conns wd'"
    by (simp_all add: f(2) world.defs)
  with assms(1) have "wd_lends (world.truncate sv) (us @ ss # ws)" by simp
  from session_step_lends [OF this f(1)] same session_step_pool [OF f(1)] show ?thesis by simp
qed

lemma sys_step_lends: "sys_step pf cl d x y \<Longrightarrow> sys_lends x \<Longrightarrow> sys_lends y"
proof (induction rule: sys_step.induct)
  case (step_call n call sv out sv' cu)
  from step_call(2) have "lent (wd_pool sv) sv" by (simp add: sys_lends_def lent_def)
  from lending_kept.commands.parts.call_keeps [OF this step_call(1)] have "lent (wd_pool sv) sv'" .
  with step_call(2) show ?case by (auto simp: sys_lends_def lent_def cleanup_new_def split: option.splits)
next
  case (step_session i sv ss sv' cu)
  let ?us = "take i (sv_spawned sv)" and ?ws = "drop (Suc i) (sv_spawned sv)"
  have "sv_spawned sv = ?us @ sv_spawned sv ! i # ?ws" using step_session(1) by (rule id_take_nth_drop)
  with step_session(3) have "wd_lends sv (?us @ sv_spawned sv ! i # ?ws)" by (simp add: sys_lends_def)
  from on_world_lends [OF this step_session(2)] step_session(1,3) show ?case
    by (auto simp: sys_lends_def upd_conv_take_nth_drop split: option.splits)
next
  case (step_cleanup_thread c sv c' sv')
  then show ?case using cleanup_step_lends by blast
next
  case (step_outside sv cu w)
  then show ?case by (cases cu) (auto simp: sys_lends_def)
qed

lemma distinct_concat_nth:
  assumes "distinct (concat (map f xs))" and "i < length xs"
  shows "distinct (f (xs ! i)) \<and> (\<forall>j<length xs. i \<noteq> j \<longrightarrow> set (f (xs ! i)) \<inter> set (f (xs ! j)) = {})"
  using assms
proof (induction xs arbitrary: i)
  case (Cons x xs)
  from Cons.prems(1) have "set (f x) \<inter> set (f y) = {}" if "y \<in> set xs" for y using that by auto
  then have "set (f x) \<inter> set (f (xs ! j)) = {}" if "j < length xs" for j using that by simp
  with Cons show ?case by (cases i) (auto simp: All_less_Suc2 Int_commute)
qed simp

lemma sys_reach_lends: "sys_reach pf cl d x \<Longrightarrow> sys_lends x"
proof (induction rule: sys_reach.induct)
  case (reach_new w)
  show ?case by (simp add: sys_lends_def server_new_def lends_ok_def)
qed (rule sys_step_lends)

text \<open>
  C1: However the sessions, the calls of the game and the cleanup thread interleave, and whatever the database
  does: no connection is in use by two sessions, or as both connections of one; a connection in use
  exists, the pool has lent it and does not offer it to others; the use counts the pool decides by are
  the numbers of pointers the sessions hold; and the pool always has its fifty connections.
\<close>

theorem sessions_never_share_a_connection:
  assumes "sys_reach pf cl d (sv, cu)"
  shows "(\<forall>i<length (sv_spawned sv). distinct (ss_uses (sv_spawned sv ! i)) \<and>
        (\<forall>j<length (sv_spawned sv). i \<noteq> j \<longrightarrow> set (ss_uses (sv_spawned sv ! i)) \<inter> set (ss_uses (sv_spawned sv ! j)) = {}) \<and>
        (\<forall>c\<in>set (ss_uses (sv_spawned sv ! i)). c \<in> conn_alive (wd_conns sv, wd_out sv) \<and>
           (\<exists>p. wd_pool sv = Some p \<and> c \<in> set (cp_borrowed p) \<and> c \<notin> set (cp_pool p)))) \<and>
    (\<forall>c. wd_refs sv c = count_list (concat (map ss_holds (sv_spawned sv))) c) \<and>
    (\<forall>p. wd_pool sv = Some p \<longrightarrow> fst (get_stats p) + snd (get_stats p) = 50)"
proof -
  let ?sss = "sv_spawned sv"
  from sys_reach_lends [OF assms] have inv: "wd_lends sv ?sss" by (simp add: sys_lends_def)
  then have d: "distinct (concat (map ss_uses ?sss))" and refs: "\<forall>c. wd_refs sv c = count_list (concat (map ss_holds ?sss)) c"
    by (simp_all add: lends_ok_def)
  have apart: "distinct (ss_uses (?sss ! i)) \<and> (\<forall>j<length ?sss. i \<noteq> j \<longrightarrow> set (ss_uses (?sss ! i)) \<inter> set (ss_uses (?sss ! j)) = {})"
    if "i < length ?sss" for i
    using distinct_concat_nth [OF d] that by simp
  have used: "c \<in> conn_alive (wd_conns sv, wd_out sv) \<and> (\<exists>p. wd_pool sv = Some p \<and> c \<in> set (cp_borrowed p) \<and> c \<notin> set (cp_pool p))"
    if "ss \<in> set ?sss" "c \<in> set (ss_uses ss)" for ss c
  proof -
    have "c \<in> set (concat (map ss_holds ?sss))" and c: "c \<in> set (concat (map ss_uses ?sss))"
      using that uses_holds [of ss] by auto
    then obtain p where p: "wd_pool sv = Some p" using inv by (cases "wd_pool sv") (auto simp: lends_ok_def)
    with inv c have "pool_ok conn_alive p (wd_conns sv, wd_out sv)" "c \<in> set (cp_borrowed p)"
      using pool_ok_outside [of p "wd_conns sv" "wd_out sv"] unfolding lends_ok_def by auto
    with p show ?thesis by (auto simp: pool_ok_def)
  qed
  have size: "\<forall>p. wd_pool sv = Some p \<longrightarrow> fst (get_stats p) + snd (get_stats p) = 50"
    using inv by (auto simp: lends_ok_def pool_ok_def get_stats_def)
  show ?thesis
  proof (intro conjI [OF _ conjI [OF refs size]] allI impI)
    fix i assume i: "i < length ?sss"
    with apart [OF i] used [OF nth_mem [OF i]]
    show "distinct (ss_uses (?sss ! i)) \<and>
      (\<forall>j<length ?sss. i \<noteq> j \<longrightarrow> set (ss_uses (?sss ! i)) \<inter> set (ss_uses (?sss ! j)) = {}) \<and>
      (\<forall>c\<in>set (ss_uses (?sss ! i)). c \<in> conn_alive (wd_conns sv, wd_out sv) \<and>
         (\<exists>p. wd_pool sv = Some p \<and> c \<in> set (cp_borrowed p) \<and> c \<notin> set (cp_pool p)))" by simp
  qed
qed

end
