(* ===== verification/Handle_System.thy ===== *)
theory Handle_System
  imports Handle_Count System_Lending
begin

text \<open>
  The handles of the mailboxes in the whole program: in every state it reaches, where new handles start to
  count at zero, each object of the game and each thread of a session has a handle of its own that is
  registered, and the handle counts the one or two that share it.
\<close>

definition obj_of :: "('f, 'w, 'con, 'st) server \<Rightarrow> u64 \<Rightarrow> addr option" where
  "obj_of sv x = Option.bind (sv_ehives sv x) hv_myThreadHandle"

text \<open>The threads run on handles that own a \<open>std::thread\<close>.\<close>

definition armed :: "('m, 'c) registry \<Rightarrow> 'f session list \<Rightarrow> bool" where
  "armed rg sss \<longleftrightarrow> (\<forall>ss\<in>set sss. ss_pc ss \<noteq> PDone \<longrightarrow> hv_myThreadHandle (ss_hive ss) \<noteq> None) \<and>
     (\<forall>ss\<in>set sss. \<forall>a. running_of ss = Some a \<longrightarrow> snd (owns_of rg a))"

definition sv_counted :: "('f, 'w, 'con, 'st) server \<Rightarrow> bool" where
  "sv_counted sv \<longleftrightarrow>
     counted (wd_elem sv) (obj_of sv) (map thread_of (sv_spawned sv)) (hv_myThreadHandle (sv_cleanupThread sv)) \<and>
     armed (wd_elem sv) (sv_spawned sv)"

section \<open>Sessions\<close>

lemma armed_same: "armed rg sss \<Longrightarrow> (\<And>a. snd (owns_of rg' a) = snd (owns_of rg a)) \<Longrightarrow> armed rg' sss"
  by (simp add: armed_def)

lemma running_thread: "running_of ss = Some a \<Longrightarrow> thread_of ss = Some a"
  by (auto simp: running_of_def thread_of_def split: if_splits)

text \<open>No other session has the handle of this one.\<close>

lemma other_threads:
  assumes "counted rg obj (map thread_of sss) cl" and "i < length sss" and "thread_of (sss ! i) = Some a"
    and "ss \<in> set (sss[i := ss'])" and "thread_of ss = Some a"
  shows "ss = ss'"
proof -
  from assms(4) obtain j where j: "j < length sss" "(sss[i := ss']) ! j = ss" by (auto simp: in_set_conv_nth)
  show ?thesis
  proof (cases "j = i")
    case False
    with j have "sss ! j = ss" by simp
    with countedD(3) [OF assms(1), of i j a] assms j(1) False show ?thesis by simp
  qed (use j assms(2) in simp)
qed

lemma map_update_same: "f y = f (xs ! i) \<Longrightarrow> map f (xs[i := y]) = map f xs"
  by (cases "i < length xs"; rule nth_equalityI) (auto simp: nth_list_update)

lemma calm_step_counted:
  assumes "counted (wd_elem wd) obj (map thread_of sss) cl" and "armed (wd_elem wd) sss" and "i < length sss"
    and "session_step d cl' (sss ! i) wd = Some (Inr ss', wd')" and "ss_pc (sss ! i) \<notin> {PReturn, PExit, PDone}"
  shows "counted (wd_elem wd') obj (map thread_of (sss[i := ss'])) cl \<and> armed (wd_elem wd') (sss[i := ss'])"
proof -
  have c: "hv_myThreadHandle (ss_hive ss') = hv_myThreadHandle (ss_hive (sss ! i))" "ss_pc ss' \<notin> {PExit, PDone}"
    "owns_of (wd_elem wd') = owns_of (wd_elem wd)" "rg_keeps (wd_elem wd) (wd_elem wd')"
    using calm_step [OF countedD(1) [OF assms(1)] assms(4,5)] by (auto simp: inside_def)
  have t: "thread_of ss' = thread_of (sss ! i)" "running_of ss' = running_of (sss ! i)"
    using c(1,2) assms(5) by (simp_all add: thread_of_def running_of_def)
  have "map thread_of (sss[i := ss']) = map thread_of sss" using t(1) by (rule map_update_same)
  moreover have "armed (wd_elem wd') (sss[i := ss'])"
    unfolding armed_def
  proof (intro conjI ballI allI impI)
    fix ss assume "ss \<in> set (sss[i := ss'])"
    then have ss: "ss = ss' \<or> ss \<in> set sss" using set_update_subset_insert [of sss i ss'] by blast
    show "ss_pc ss \<noteq> PDone \<Longrightarrow> hv_myThreadHandle (ss_hive ss) \<noteq> None"
      using ss c(1) assms(2,5) nth_mem [OF assms(3)] by (auto simp: armed_def)
    show "running_of ss = Some a \<Longrightarrow> snd (owns_of (wd_elem wd') a)" for a
      using ss c(3) t(2) assms(2) nth_mem [OF assms(3)] by (auto simp: armed_def)
  qed
  ultimately show ?thesis using counted_same [OF assms(1) c(4)] c(3) by simp
qed

lemma end_step_counted:
  assumes inv: "counted (wd_elem wd) obj (map thread_of sss) cl" "armed (wd_elem wd) sss" and i: "i < length sss"
    and st: "session_step d cl' (sss ! i) wd = Some (Inr ss', wd')" and pc: "ss_pc (sss ! i) \<in> {PExit, PReturn}"
  shows "counted (wd_elem wd') obj (map thread_of (sss[i := ss'])) cl \<and> armed (wd_elem wd') (sss[i := ss'])"
proof -
  let ?ss = "sss ! i"
  have mem: "?ss \<in> set sss" using i by simp
  then obtain a where a: "hv_myThreadHandle (ss_hive ?ss) = Some a" using inv(2) pc by (auto simp: armed_def)
  then have ta: "thread_of ?ss = Some a" "map thread_of sss ! i = Some a" using pc i by (auto simp: thread_of_def)
  note others = other_threads [OF inv(1) i ta(1), of _ ss']
  have rest: "ss \<in> set sss" if "ss \<in> set (sss[i := ss'])" "ss \<noteq> ss'" for ss
    using that set_update_subset_insert [of sss i ss'] by blast
  show ?thesis
  proof (cases "ss_pc ?ss = PReturn")
    case True
    then obtain hv rg where r: "hive_finish True (ss_hive ?ss) (wd_elem wd) = Inr (hv, rg)" "wd_elem wd' = rg"
      "ss' = ?ss\<lparr>ss_hive := hv, ss_opflcon := None, ss_opflcon2 := None, ss_pc := PExit\<rparr>"
      using st by (auto simp: session_step_def step_return_def goto_def split: sum.splits)
    note owns = hive_finish_owns [OF r(1) a] and keeps = hive_finish_keeps [OF countedD(1) [OF inv(1)] r(1)]
    have t: "thread_of ss' = thread_of ?ss" "running_of ss' = None" "hv_myThreadHandle (ss_hive ss') = Some a"
      using r(3) keeps a True by (simp_all add: thread_of_def running_of_def)
    have "map thread_of (sss[i := ss']) = map thread_of sss" using t(1) by (rule map_update_same)
    then have "counted rg obj (map thread_of (sss[i := ss'])) cl" using counted_same [OF inv(1)] keeps owns by simp
    moreover have "armed rg (sss[i := ss'])"
      unfolding armed_def
    proof (intro conjI ballI allI impI)
      fix ss assume ss: "ss \<in> set (sss[i := ss'])" and "ss_pc ss \<noteq> PDone"
      with inv(2) rest t(3) show "hv_myThreadHandle (ss_hive ss) \<noteq> None" by (cases "ss = ss'") (auto simp: armed_def)
    next
      fix ss b assume ss: "ss \<in> set (sss[i := ss'])" and b: "running_of ss = Some b"
      with t(2) have ne: "ss \<noteq> ss'" by auto
      then have "b \<noteq> a" using others [OF ss] running_thread [OF b] by auto
      with inv(2) rest [OF ss ne] b owns show "snd (owns_of rg b)" by (auto simp: armed_def)
    qed
    ultimately show ?thesis by (simp add: r(2))
  next
    case False
    then obtain hv rg where r: "hive_destroy (ss_hive ?ss) (wd_elem wd) = Some (Inr (hv, rg))" "wd_elem wd' = rg"
      "ss_pc ss' = PDone"
      using st pc by (auto simp: session_step_def step_exit_def goto_def split: option.splits sum.splits)
    have t: "thread_of ss' = None" "running_of ss' = None" using r(3) by (simp_all add: thread_of_def running_of_def)
    have "counted rg obj ((map thread_of sss)[i := None]) cl"
      using counted_thread_gone [OF inv(1) r(1) _ ta(2) a] i by simp
    then have "counted rg obj (map thread_of (sss[i := ss'])) cl" by (simp add: map_update t(1))
    moreover have "armed rg (sss[i := ss'])"
      unfolding armed_def
    proof (intro conjI ballI allI impI)
      fix ss assume ss: "ss \<in> set (sss[i := ss'])" and "ss_pc ss \<noteq> PDone"
      with inv(2) rest r(3) show "hv_myThreadHandle (ss_hive ss) \<noteq> None" by (cases "ss = ss'") (auto simp: armed_def)
    next
      fix ss b assume ss: "ss \<in> set (sss[i := ss'])" and b: "running_of ss = Some b"
      with t(2) have ne: "ss \<noteq> ss'" by auto
      then have "b \<noteq> a" using others [OF ss] running_thread [OF b] by auto
      moreover have "b \<in> set (rg_addrs (wd_elem wd))"
        using countedD(5) [OF inv(1), of b] running_thread [OF b] rest [OF ss ne] by force
      ultimately show "snd (owns_of rg b)"
        using inv(2) rest [OF ss ne] b hive_destroy_owns [OF countedD(1) [OF inv(1)] r(1) a] by (auto simp: armed_def)
    qed
    ultimately show ?thesis by (simp add: r(2))
  qed
qed

lemma session_step_counted:
  assumes "counted (wd_elem wd) obj (map thread_of sss) cl" and "armed (wd_elem wd) sss" and "i < length sss"
    and "session_step d cl' (sss ! i) wd = Some (Inr ss', wd')"
  shows "counted (wd_elem wd') obj (map thread_of (sss[i := ss'])) cl \<and> armed (wd_elem wd') (sss[i := ss'])"
proof (cases "ss_pc (sss ! i) \<in> {PExit, PReturn, PDone}")
  case True
  with assms(4) have "ss_pc (sss ! i) \<in> {PExit, PReturn}" by (auto simp: session_step_def)
  with end_step_counted [OF assms] show ?thesis .
next
  case False
  then show ?thesis using calm_step_counted [OF assms] by blast
qed

section \<open>The calls of the game\<close>

lemma onElem_counted:
  fixes m :: "('f amessage, callback) registry \<Rightarrow> mem_error + 'x \<times> ('f amessage, callback) registry"
  assumes "\<And>rg x rg'. rg_ok rg \<Longrightarrow> m rg = Inr (x, rg') \<Longrightarrow> rg_keeps rg rg' \<and> owns_of rg' = owns_of rg"
  shows "triple (sv_counted :: ('f, 'w, 'con, 'st) server \<Rightarrow> bool) (onElem m) (\<lambda>_. sv_counted)"
  unfolding triple_def
proof (intro allI impI)
  fix sv :: "('f, 'w, 'con, 'st) server" and x sv'
  assume inv: "sv_counted sv" and "onElem m sv = (Inr x, sv')"
  then obtain rg where r: "m (wd_elem sv) = Inr (x, rg)" "sv' = sv\<lparr>wd_elem := rg\<rparr>" by (auto simp: on_registry_Inr)
  have c: "counted (wd_elem sv) (obj_of sv) (map thread_of (sv_spawned sv)) (hv_myThreadHandle (sv_cleanupThread sv))"
    using inv by (simp add: sv_counted_def)
  note k = assms [OF countedD(1) [OF c] r(1)]
  have "obj_of sv' = obj_of sv" by (rule ext) (simp add: obj_of_def r(2))
  moreover have "armed rg (sv_spawned sv)"
    using armed_same [of "wd_elem sv" "sv_spawned sv" rg] inv k by (simp add: sv_counted_def)
  ultimately show "sv_counted sv'" using counted_same [OF c, of rg] k by (simp add: sv_counted_def r(2))
qed

lemma counted_frame:
  "sv_counted (sv\<lparr>wd_str := r\<rparr>) = sv_counted sv" "sv_counted (sv\<lparr>sv_shives := h\<rparr>) = sv_counted sv"
  "sv_counted (sv\<lparr>sv_threadState := s\<rparr>) = sv_counted sv" "sv_counted (sv\<lparr>sv_dllState := s\<rparr>) = sv_counted sv"
  "sv_counted (sv\<lparr>wd_out := w\<rparr>) = sv_counted sv"
  by (simp_all add: sv_counted_def obj_of_def [abs_def])

lemma send_counted: "triple sv_counted (onElem (sendMsg th msg)) (\<lambda>_. sv_counted)"
  by (rule onElem_counted) (metis prod.collapse sendMsg_keeps sendMsg_owns)

text \<open>\<open>Connect\<close> makes a handle and counts its object and its thread.\<close>

lemma Connect_counted:
  assumes "pf_shares pf = 0"
  shows "triple sv_counted (ext_Connect pf msg n) (\<lambda>_. sv_counted)"
  unfolding triple_def
proof (intro allI impI)
  fix sv :: "('a, 'b, 'c, 'd) server" and out sv'
  assume inv: "sv_counted sv" and "ext_Connect pf msg n sv = (Inr out, sv')"
  then obtain x name b1 hv rg1 b2 rg2 b3 hv3 rg3 where
    add: "addThread (pf_shares pf) name (Some Mycallback) None hive_new (wd_elem sv) = Inr (b1, hv, rg1)"
    and send: "sendMsg (getMyThreadHandle hv) msg rg1 = Inr (b2, rg2)" and spawn: "spawnThread hv rg2 = Inr (b3, hv3, rg3)"
    and sv': "wd_elem sv' = rg3" "sv_ehives sv' = (sv_ehives sv)(x := Some hv)"
      "sv_spawned sv' = sv_spawned sv @ [session_new (pf_act pf) hv]" "sv_cleanupThread sv' = sv_cleanupThread sv"
    by (auto simp: ext_Connect_def Let_def thenE_Inr_iff on_registry_Inr bindE_Inr_iff copy_output_def)
  have c: "counted (wd_elem sv) (obj_of sv) (map thread_of (sv_spawned sv)) (hv_myThreadHandle (sv_cleanupThread sv))"
    and arm: "armed (wd_elem sv) (sv_spawned sv)" using inv by (simp_all add: sv_counted_def)
  note ok = countedD(1) [OF c]
  obtain b where b: "b \<notin> set (rg_addrs (wd_elem sv))" "hv_myThreadHandle hv = Some b" "rg_ok rg1"
    "rg_addrs rg1 = rg_addrs (wd_elem sv) @ [b]" "owns_of rg1 b = (1, False)"
    "\<forall>a\<in>set (rg_addrs (wd_elem sv)). owns_of rg1 a = owns_of (wd_elem sv) a"
    using addThread_owns [OF ok add] assms by (auto simp: hive_new_def)
  from sendMsg_keeps [OF b(3) send] sendMsg_owns [OF send] have rg2: "rg_ok rg2" "rg_addrs rg2 = rg_addrs rg1" "owns_of rg2 = owns_of rg1"
    by (simp_all add: rg_keeps_def)
  from spawnThread_keeps [OF rg2(1) spawn] spawnThread_owns [OF spawn b(2)]
  have rg3: "rg_ok rg3" "rg_addrs rg3 = rg_addrs rg2" "owns_of rg3 b = (2, True)" "\<And>a. a \<noteq> b \<Longrightarrow> owns_of rg3 a = owns_of rg2 a"
    using rg2(3) b(5) by (auto simp: rg_keeps_def)
  have old: "owns_of rg3 a = owns_of (wd_elem sv) a" if "a \<in> set (rg_addrs (wd_elem sv))" for a
    using that b(1,6) rg2(3) rg3(4) [of a] by (cases "a = b") simp_all
  have new: "thread_of (session_new (pf_act pf) hv) = Some b" "running_of (session_new (pf_act pf) hv) = Some b"
    using b(2) by (simp_all add: thread_of_def running_of_def session_new_def)
  have "obj_of sv' = (obj_of sv)(x := Some b)" using b(2) by (rule_tac ext) (simp add: obj_of_def sv')
  moreover have "counted rg3 ((obj_of sv)(x := Some b)) (map thread_of (sv_spawned sv) @ [Some b]) (hv_myThreadHandle (sv_cleanupThread sv))"
    using b rg2 rg3 old by (intro counted_new [OF c b(1)]) simp_all
  moreover have "armed rg3 (sv_spawned sv @ [session_new (pf_act pf) hv])"
    unfolding armed_def
  proof (intro conjI ballI allI impI)
    fix ss assume "ss \<in> set (sv_spawned sv @ [session_new (pf_act pf) hv])" "ss_pc ss \<noteq> PDone"
    then show "hv_myThreadHandle (ss_hive ss) \<noteq> None" using arm b(2) by (auto simp: armed_def session_new_def)
  next
    fix ss a assume ss: "ss \<in> set (sv_spawned sv @ [session_new (pf_act pf) hv])" and a: "running_of ss = Some a"
    show "snd (owns_of rg3 a)"
    proof (cases "ss \<in> set (sv_spawned sv)")
      case True
      with countedD(5) [OF c, of a] running_thread [OF a] have "a \<in> set (rg_addrs (wd_elem sv))" by force
      with old arm True a show ?thesis by (auto simp: armed_def)
    next
      case False
      with ss a new(2) rg3(3) show ?thesis by simp
    qed
  qed
  ultimately show "sv_counted sv'" by (simp add: sv_counted_def sv' new(1))
qed

text \<open>The first call makes the handle of the cleanup thread.\<close>

lemma start_counted:
  assumes inv: "sv_counted sv" and r: "ext_start pf sv = (Inr u, sv')"
  shows "sv_counted sv'"
proof (cases "hv_myThreadHandle (sv_cleanupThread sv)")
  case (Some a)
  with r inv show ?thesis by (simp add: ext_start_def getMyThreadHandle_def thenE_def)
next
  case None
  then obtain b1 hv rg1 b2 hv2 rg2 where
    add: "addThread (pf_shares pf) (sv_thrdname sv) (Some CleanupThreads) None (sv_cleanupThread sv) (wd_elem sv) = Inr (b1, hv, rg1)"
    and spawn: "spawnThread hv rg1 = Inr (b2, hv2, rg2)"
    and sv': "wd_elem sv' = rg2" "sv_ehives sv' = sv_ehives sv" "sv_spawned sv' = sv_spawned sv" "sv_cleanupThread sv' = hv"
    using r by (auto simp: ext_start_def getMyThreadHandle_def thenE_Inr_iff on_registry_Inr bindE_Inr_iff)
  have c: "counted (wd_elem sv) (obj_of sv) (map thread_of (sv_spawned sv)) None"
    and arm: "armed (wd_elem sv) (sv_spawned sv)" using inv None by (simp_all add: sv_counted_def)
  obtain b where b: "b \<notin> set (rg_addrs (wd_elem sv))" "hv_myThreadHandle hv = Some b" "rg_ok rg1"
    "rg_addrs rg1 = rg_addrs (wd_elem sv) @ [b]" "\<forall>a\<in>set (rg_addrs (wd_elem sv)). owns_of rg1 a = owns_of (wd_elem sv) a"
    using addThread_owns [OF countedD(1) [OF c] add None] by blast
  from spawnThread_keeps [OF b(3) spawn] spawnThread_owns [OF spawn b(2)]
  have rg2: "rg_ok rg2" "rg_addrs rg2 = rg_addrs rg1" "\<And>a. a \<noteq> b \<Longrightarrow> owns_of rg2 a = owns_of rg1 a"
    by (auto simp: rg_keeps_def)
  have old: "owns_of rg2 a = owns_of (wd_elem sv) a" if "a \<in> set (rg_addrs (wd_elem sv))" for a
    using that b(1,5) rg2(3) [of a] by (cases "a = b") simp_all
  have "counted rg2 (obj_of sv) (map thread_of (sv_spawned sv)) (Some b)"
    using b rg2 old by (intro counted_cleanup [OF c b(1)]) simp_all
  moreover have "obj_of sv' = obj_of sv" by (rule ext) (simp add: obj_of_def sv')
  moreover have "armed rg2 (sv_spawned sv)"
    unfolding armed_def
  proof (intro conjI ballI allI impI)
    fix ss a assume ss: "ss \<in> set (sv_spawned sv)" and a: "running_of ss = Some a"
    with countedD(5) [OF c, of a] running_thread [OF a] have "a \<in> set (rg_addrs (wd_elem sv))" by force
    with old arm ss a show "snd (owns_of rg2 a)" by (auto simp: armed_def)
  qed (use arm in \<open>auto simp: armed_def\<close>)
  ultimately show ?thesis by (simp add: sv_counted_def sv' b(2))
qed

interpretation counted_kept: kept_by_commands "\<lambda>sv. pf_shares pf = 0 \<longrightarrow> sv_counted sv" pf for pf
proof unfold_locales
  show "triple (\<lambda>sv. pf_shares pf = 0 \<longrightarrow> sv_counted sv) (ext_start pf) (\<lambda>_ sv. pf_shares pf = 0 \<longrightarrow> sv_counted sv)"
    using start_counted by (auto simp: triple_def)
  show "triple (\<lambda>sv. pf_shares pf = 0 \<longrightarrow> sv_counted sv) (ext_Connect pf msg n) (\<lambda>_ sv. pf_shares pf = 0 \<longrightarrow> sv_counted sv)" for msg n
    using Connect_counted unfolding triple_def by blast
  show "triple (\<lambda>sv. pf_shares pf = 0 \<longrightarrow> sv_counted sv) (onElem (sendMsg th msg)) (\<lambda>_ sv. pf_shares pf = 0 \<longrightarrow> sv_counted sv)" for th msg
    using send_counted unfolding triple_def by blast
qed (simp_all add: counted_frame)

section \<open>The cleanup thread\<close>

lemma cleanup_step_counted:
  assumes inv: "sv_counted sv" and "cleanup_step d c sv = Some (Inr c', sv')"
  shows "sv_counted sv'"
proof -
  have ct: "counted (wd_elem sv) (obj_of sv) (map thread_of (sv_spawned sv)) (hv_myThreadHandle (sv_cleanupThread sv))"
    and arm: "armed (wd_elem sv) (sv_spawned sv)" using inv by (simp_all add: sv_counted_def)
  note ok = countedD(1) [OF ct]
  show ?thesis
  proof (cases "cu_pc c")
    case CStart
    with assms show ?thesis
      by (auto simp: cleanup_step_def cleanup_start_def cu_goto_def sv_counted_def obj_of_def [abs_def] split: prod.splits sum.splits)
  next
    case CReady
    with assms show ?thesis
      by (auto simp: cleanup_step_def cleanup_ready_def cu_goto_def counted_frame split: option.splits sum.splits prod.splits)
  next
    case CReceive
    with assms(2) obtain b ms k hv rg where r: "receiveAll True (cu_hive c) (wd_elem sv) = Some (Inr (b, ms, k, hv, rg))"
      "sv' = sv\<lparr>wd_elem := rg\<rparr>"
      by (auto simp: cleanup_step_def cleanup_receive_def cu_goto_def split: option.splits sum.splits if_splits)
    note owns = receiveAll_owns [OF r(1)]
    have "counted rg (obj_of sv) (map thread_of (sv_spawned sv)) (hv_myThreadHandle (sv_cleanupThread sv))"
      using counted_same [OF ct] receiveAll_keeps [OF ok r(1)] owns by simp
    moreover have "armed rg (sv_spawned sv)" using armed_same [OF arm, of rg] owns by simp
    ultimately show ?thesis by (simp add: r(2) sv_counted_def obj_of_def [abs_def])
  next
    case CMessage
    with assms show ?thesis
      by (auto simp: cleanup_step_def cleanup_message_def cu_goto_def split: list.splits sum.splits)
  next
    case CDelete
    with assms(2) have "cleanup_delete c sv = Some (Inr c', sv')" by (simp add: cleanup_step_def)
    from cleanup_delete_cases [OF this] consider "sv' = sv"
      | x h hv rg where "sv_ehives sv x = Some h" "hive_destroy h (wd_elem sv) = Some (Inr (hv, rg))"
        "sv' = sv\<lparr>wd_elem := rg, sv_ehives := (sv_ehives sv)(x := None)\<rparr>"
      by blast
    then show ?thesis
    proof cases
      case 1
      with inv show ?thesis by simp
    next
      case 2
      have x: "obj_of sv x = hv_myThreadHandle h" by (simp add: obj_of_def 2(1))
      have "armed rg (sv_spawned sv)"
        unfolding armed_def
      proof (intro conjI ballI allI impI)
        fix ss a assume ss: "ss \<in> set (sv_spawned sv)" and a: "running_of ss = Some a"
        then have mem: "Some a \<in> set (map thread_of (sv_spawned sv))" using running_thread [OF a] by force
        have was: "snd (owns_of (wd_elem sv) a)" using arm ss a by (auto simp: armed_def)
        show "snd (owns_of rg a)"
        proof (cases "hv_myThreadHandle h = Some a")
          case True
          with countedD(4) [OF ct, of x a] x mem have "fst (owns_of (wd_elem sv) a) = 2" by simp
          with hive_destroy_owns [OF ok 2(2) True] was show ?thesis by simp
        next
          case False
          show ?thesis
          proof (cases "hv_myThreadHandle h")
            case None
            with 2(2) was show ?thesis by (auto simp: hive_destroy_def)
          next
            case (Some b)
            with False hive_destroy_owns [OF ok 2(2) Some] countedD(5) [OF ct mem] was show ?thesis by auto
          qed
        qed
      qed (use arm in \<open>auto simp: armed_def\<close>)
      moreover have "obj_of sv' = (obj_of sv)(x := None)" by (rule ext) (simp add: obj_of_def 2(3))
      ultimately show ?thesis using counted_object_gone [OF ct 2(2) x] by (simp add: sv_counted_def 2(3))
    qed
  next
    case CDeleteOutput
    with assms show ?thesis
      by (auto simp: cleanup_step_def cleanup_delete_output_def cu_goto_def counted_frame
          split: list.splits sum.splits option.splits prod.splits)
  qed
qed

section \<open>Every reachable state\<close>

lemma sys_step_counted:
  assumes "pf_shares pf = 0"
  shows "sys_step pf cl d x y \<Longrightarrow> sv_counted (fst x) \<Longrightarrow> sv_counted (fst y)"
proof (induction rule: sys_step.induct)
  case (step_call n call sv out sv' cu)
  with assms counted_kept.parts.call_keeps [of pf sv] show ?case by auto
next
  case (step_session i sv ss sv' cu)
  from step_session(2) obtain wd' where f: "session_step d cl (sv_spawned sv ! i) (world.truncate sv) = Some (Inr ss, wd')"
    "sv' = world.extend wd' (world.more sv)"
    by (auto simp: on_world_def)
  have same: "wd_elem (world.truncate sv) = wd_elem sv" "wd_elem sv' = wd_elem wd'" "sv_ehives sv' = sv_ehives sv"
    "sv_cleanupThread sv' = sv_cleanupThread sv"
    by (cases sv; simp add: f(2) world.defs)+
  have "counted (wd_elem (world.truncate sv)) (obj_of sv) (map thread_of (sv_spawned sv)) (hv_myThreadHandle (sv_cleanupThread sv))"
    "armed (wd_elem (world.truncate sv)) (sv_spawned sv)"
    using step_session(3) by (simp_all add: sv_counted_def same)
  from session_step_counted [OF this step_session(1) f(1)]
  show ?case by (simp add: sv_counted_def same obj_of_def [abs_def])
next
  case (step_cleanup_thread c sv c' sv')
  then show ?case using cleanup_step_counted by auto
next
  case (step_outside sv cu w)
  then show ?case by (simp add: counted_frame)
qed

lemma sys_reach_counted:
  assumes "pf_shares pf = 0"
  shows "sys_reach pf cl d x \<Longrightarrow> sv_counted (fst x)"
proof (induction rule: sys_reach.induct)
  case (reach_new w)
  show ?case
    by (simp add: server_new_def sv_counted_def counted_def obj_of_def rg_ok_new armed_def hive_new_def)
next
  case (reach_step c c')
  then show ?case by (rule_tac sys_step_counted [OF assms])
qed

lemma thread_handle:
  assumes "sv_counted sv" and "i < length (sv_spawned sv)" and "ss = sv_spawned sv ! i" and "ss_pc ss \<noteq> PDone"
  shows "\<exists>a. hv_myThreadHandle (ss_hive ss) = Some a \<and> a \<in> set (rg_addrs (wd_elem sv)) \<and>
    (ss_pc ss \<noteq> PExit \<longrightarrow> th_hiveThread (rg_handle (wd_elem sv) a)) \<and> th_shares (rg_handle (wd_elem sv) a) \<in> {1, 2}"
proof -
  have ss: "ss \<in> set (sv_spawned sv)" using assms(2,3) by simp
  have ct: "counted (wd_elem sv) (obj_of sv) (map thread_of (sv_spawned sv)) (hv_myThreadHandle (sv_cleanupThread sv))"
    and arm: "armed (wd_elem sv) (sv_spawned sv)" using assms(1) by (simp_all add: sv_counted_def)
  obtain a where a: "hv_myThreadHandle (ss_hive ss) = Some a" using arm ss assms(4) by (auto simp: armed_def)
  with ss assms(4) have "Some a \<in> set (map thread_of (sv_spawned sv))" by (force simp: thread_of_def)
  from countedD(5) [OF ct this] have "a \<in> set (rg_addrs (wd_elem sv))" "th_shares (rg_handle (wd_elem sv) a) \<in> {1, 2}"
    by (simp_all add: owns_of_handle)
  moreover have "running_of ss = Some a" if "ss_pc ss \<noteq> PExit" using that a assms(4) by (simp add: running_of_def)
  then have "ss_pc ss \<noteq> PExit \<longrightarrow> th_hiveThread (rg_handle (wd_elem sv) a)"
    using arm ss by (auto simp: armed_def owns_of_handle)
  ultimately show ?thesis using a by blast
qed

end
