(* ===== verification/Session_Life.thy ===== *)
theory Session_Life
  imports Handle_System
begin

text \<open>
  How a session ends: in any state the program reaches, a session that serves and finds a commit in its
  mailbox runs to the end of its thread. What the run needs of the rest of the program are the
  invariants of the registries, of the lending and the one shown first here: a session past its
  initialisation has both its connections.
\<close>

section \<open>Sessions have their connections\<close>

definition connected :: "'f session \<Rightarrow> bool" where
  "connected ss \<longleftrightarrow> ss_opflcon ss \<noteq> None \<and> ss_opflcon2 ss \<noteq> None"

definition ready :: "'f session \<Rightarrow> bool" where
  "ready ss \<longleftrightarrow>
     (case ss_pc ss of
        PStart \<Rightarrow> ss_opflcon ss = None \<and> ss_opflcon2 ss = None
      | PBorrow2 \<Rightarrow> ss_opflcon ss \<noteq> None
      | PPoll \<Rightarrow> \<not> ss_retry ss \<longrightarrow> connected ss
      | PSetup \<Rightarrow> ss_stable ss \<longrightarrow> connected ss
      | p \<Rightarrow> p \<in> {PInit, PStop2, PStop1, PReport, PServe, PPunish, PGive2, PCommit} \<longrightarrow> connected ss)"

text \<open>While it borrows, a session has not given up.\<close>

definition trying :: "'f session \<Rightarrow> bool" where
  "trying ss \<longleftrightarrow> (ss_pc ss \<in> {PStart, PBorrow, PBorrow2, PInit} \<longrightarrow> ss_retry ss)"

text \<open>What \<open>out\<close> holds: nothing until the account is reported, and the report from then on.\<close>

definition has_reported :: "'f session \<Rightarrow> bool" where
  "has_reported ss \<longleftrightarrow> (\<exists>act isBanned. ss_out ss = report_text (ss_actName ss) act isBanned)"

definition spoken :: "'f session \<Rightarrow> bool" where
  "spoken ss \<longleftrightarrow>
     (case ss_pc ss of
        PServe \<Rightarrow> has_reported ss
      | PCleanup \<Rightarrow> ss_out ss = [] \<or> has_reported ss
      | p \<Rightarrow> p \<in> {PStart, PBorrow, PBorrow2, PInit, PPoll, PSetup, PReport} \<longrightarrow> ss_out ss = [])"

lemma has_reported_simps [simp]:
  "has_reported (ss\<lparr>ss_pc := p\<rparr>) = has_reported ss" "has_reported (ss\<lparr>ss_hive := hv\<rparr>) = has_reported ss"
  "has_reported (ss\<lparr>ss_retry := b\<rparr>) = has_reported ss" "has_reported (ss\<lparr>ss_act := act\<rparr>) = has_reported ss"
  by (simp_all add: has_reported_def)

lemma load_account_out: "gives (\<lambda>ss'. ss_out ss' = ss_out ss) (load_account d cl ss)"
  unfolding load_account_def Let_def by (intro gives_intros) simp

lemma serve_out:
  "gives (\<lambda>ss'. (ss_pc ss' \<in> {PServe, PCleanup} \<longrightarrow> has_reported ss' = has_reported ss)) (serve d m ss)"
  unfolding serve_def Let_def by (intro gives_intros) simp_all

lemma connected_simps [simp]:
  "connected (ss\<lparr>ss_out := out\<rparr>) = connected ss"
  "connected (ss\<lparr>ss_pc := p\<rparr>) = connected ss" "connected (ss\<lparr>ss_hive := hv\<rparr>) = connected ss"
  "connected (ss\<lparr>ss_retry := b\<rparr>) = connected ss" "connected (caught e ss) = connected ss"
  by (simp_all add: connected_def caught_def)

lemma same_conns_connected: "same_conns ss ss' \<Longrightarrow> connected ss' = connected ss"
  by (simp add: same_conns_def connected_def)

lemma load_account_stable: "gives (\<lambda>ss'. ss_stable ss' \<longrightarrow> ss_stable ss) (load_account d cl ss)"
  unfolding gives_def
proof (intro allI impI)
  fix s ss' s' assume r: "load_account d cl ss s = (Inr ss', s')" and "ss_stable ss'"
  show "ss_stable ss"
  proof (rule ccontr)
    assume "\<not> ss_stable ss"
    from load_account_unstable [OF this, of d cl s] r \<open>ss_stable ss'\<close> show False by auto
  qed
qed

text \<open>Where a step leads.\<close>

definition leads :: "('f session \<Rightarrow> bool) \<Rightarrow> ('f, 'w, 'con, 'st) outcome \<Rightarrow> bool" where
  "leads Q r \<longleftrightarrow> (\<forall>ss' wd'. r = Some (Inr ss', wd') \<longrightarrow> Q ss')"

lemma leads_goto: "Q (ss\<lparr>ss_pc := p\<rparr>) \<Longrightarrow> leads Q (goto p ss wd)"
  and leads_fails: "leads Q (Some (Inl e, wd))" "leads Q None"
  and leads_ret: "Q ss \<Longrightarrow> leads Q (Some (Inr ss, wd))"
  by (simp_all add: leads_def goto_def)

lemma leads_receive:
  assumes "\<And>msg hv wd. leads Q (k msg (ss\<lparr>ss_hive := hv\<rparr>) wd)"
  shows "leads Q (ss_receive b ss wd k)"
  using assms by (auto simp: leads_def ss_receive_def split: option.split sum.split)

lemma leads_sent: "Q (ss\<lparr>ss_pc := p\<rparr>) \<Longrightarrow> leads Q (sent p ss r)"
  by (auto simp: leads_def sent_def goto_def split: option.splits sum.splits prod.splits)

lemma leads_conn: "gives Q m \<Longrightarrow> leads Q (Some (w_conn m wd))"
  by (auto simp: leads_def dest: w_conn_gives)

definition fit :: "'f session \<Rightarrow> bool" where
  "fit ss \<longleftrightarrow> ready ss \<and> trying ss \<and> spoken ss"

lemma quiet_step_fit:
  assumes "fit ss"
  shows "ss_pc ss = PStart \<Longrightarrow> leads fit (step_start ss wd)"
    and "ss_pc ss = PPoll \<Longrightarrow> leads fit (step_poll ss wd)"
    and "ss_pc ss = PServe \<Longrightarrow> leads fit (step_serve d ss wd)"
    and "ss_pc ss = PReport \<Longrightarrow> leads fit (step_report ss wd)"
    and "ss_pc ss = PCleanup \<Longrightarrow> leads fit (step_cleanup ss wd)"
proof -
  assume pc: "ss_pc ss = PStart"
  show "leads fit (step_start ss wd)" unfolding step_start_def
  proof (rule leads_receive)
    fix msg hv wd
    show "leads fit (case msg of None \<Rightarrow> Some (Inl (Crashed Uninitialised), wd)
      | Some m \<Rightarrow> Some (bindE (arg_string 0 (am_data m)) (\<lambda>inputName. bindE (arg_string 1 (am_data m)) (\<lambda>outputName.
          bindE (arg_string 2 (am_data m)) (\<lambda>actName. bindE (arg_unsigned 3 (am_data m)) (\<lambda>rejoin.
            Inr (ss\<lparr>ss_hive := hv, ss_pc := PBorrow, ss_inputName := inputName, ss_outputName := outputName,
                   ss_actName := actName, ss_rejoin := (rejoin \<noteq> 0)\<rparr>))))), wd))"
      using assms pc by (cases msg) (auto simp: leads_def bindE_Inr_iff fit_def ready_def trying_def spoken_def)
  qed
next
  assume pc: "ss_pc ss = PPoll"
  then show "leads fit (step_poll ss wd)" unfolding step_poll_def
    using assms by (intro leads_receive) (auto intro!: leads_goto simp: fit_def ready_def trying_def spoken_def)
next
  assume pc: "ss_pc ss = PServe"
  have "gives (\<lambda>ss'. same_conns (ss\<lparr>ss_hive := hv\<rparr>) ss' \<and> ss_pc ss' \<in> {PServe, PCleanup, PPunish, PGive2}) (serve d m (ss\<lparr>ss_hive := hv\<rparr>))" for m hv
    unfolding serve_def Let_def by (intro gives_intros) (simp_all add: same_conns_def)
  then have "gives fit (serve d m (ss\<lparr>ss_hive := hv\<rparr>))" for m hv
    using assms pc serve_out [of "ss\<lparr>ss_hive := hv\<rparr>" d m] by (fastforce simp: gives_def fit_def ready_def trying_def spoken_def connected_def same_conns_def)
  then have "leads fit (Some (w_conn (serve d m (ss\<lparr>ss_hive := hv\<rparr>)) wd))" for m hv wd by (rule leads_conn)
  then show "leads fit (step_serve d ss wd)" unfolding step_serve_def
    by (intro leads_receive) (simp add: leads_fails split: option.split)
next
  assume "ss_pc ss = PReport"
  with assms show "leads fit (step_report ss wd)" unfolding step_report_def Let_def
    by (intro leads_sent) (auto simp: fit_def ready_def trying_def spoken_def has_reported_def)
next
  assume "ss_pc ss = PCleanup"
  with assms show "leads fit (step_cleanup ss wd)" unfolding step_cleanup_def Let_def
    by (intro leads_sent) (simp add: fit_def ready_def trying_def spoken_def)
qed

lemma connection_step_fit:
  assumes "fit ss"
  shows "ss_pc ss = PBorrow \<Longrightarrow> leads fit (step_borrow d ss wd)"
    and "ss_pc ss = PBorrow2 \<Longrightarrow> leads fit (step_borrow2 d ss wd)"
    and "ss_pc ss = PInit \<Longrightarrow> leads fit (step_init d ss wd)"
    and "ss_pc ss = PStop2 \<Longrightarrow> leads fit (step_stop2 d ss wd)"
    and "ss_pc ss = PStop1 \<Longrightarrow> leads fit (step_stop1 ss wd)"
    and "ss_pc ss = PGive2 \<Longrightarrow> leads fit (step_give2 ss wd)"
    and "ss_pc ss = PCommit \<Longrightarrow> leads fit (step_commit d ss wd)"
    and "ss_pc ss = PEnd \<Longrightarrow> leads fit (step_end d ss wd)"
    and "ss_pc ss = PReturn \<Longrightarrow> leads fit (step_return ss wd)"
    and "ss_pc ss = PExit \<Longrightarrow> leads fit (step_exit ss wd)"
  using assms
  by (auto simp: leads_def fit_def step_borrow_def step_borrow2_def step_init_def step_stop2_def step_stop1_def
      step_give2_def step_commit_def step_end_def step_return_def step_exit_def goto_def ready_def trying_def spoken_def connected_def
      caught_def split: prod.splits sum.splits failure.splits option.splits if_splits)

lemma account_step_fit:
  assumes "fit ss"
  shows "ss_pc ss = PSetup \<Longrightarrow> leads fit (step_setup d cl ss wd)"
    and "ss_pc ss = PPunish \<Longrightarrow> leads fit (step_punish d cl ss wd)"
proof -
  assume pc: "ss_pc ss = PSetup"
  show "leads fit (step_setup d cl ss wd)"
  proof (cases "w_conn (load_account d cl ss) wd")
    case (Pair r wd')
    show ?thesis
    proof (cases r)
      case (Inr ss1)
      with Pair have r: "w_conn (load_account d cl ss) wd = (Inr ss1, wd')" by simp
      from w_conn_gives [OF load_account_stable r] w_conn_gives [OF load_account_out r] w_conn_gives [OF load_account_gives r] same_conns_connected [of ss ss1]
        assms pc r show ?thesis
        by (auto simp: step_setup_def fit_def ready_def trying_def spoken_def intro!: leads_goto)
    qed (simp add: step_setup_def Pair leads_fails)
  qed
next
  assume pc: "ss_pc ss = PPunish"
  show "leads fit (step_punish d cl ss wd)"
  proof (cases "w_conn (punish_account d cl ss) wd")
    case (Pair r wd')
    show ?thesis
    proof (cases r)
      case (Inr x)
      obtain b ss1 where x: "x = (b, ss1)" by (cases x)
      with Pair Inr have r: "w_conn (punish_account d cl ss) wd = (Inr (b, ss1), wd')" by simp
      from w_conn_gives [OF punish_account_gives r] same_conns_connected [of ss ss1] assms pc r show ?thesis
        by (auto simp: step_punish_def fit_def ready_def trying_def spoken_def intro!: leads_goto)
    qed (simp add: step_punish_def Pair leads_fails)
  qed
qed

lemma session_step_fit: "fit ss \<Longrightarrow> leads fit (session_step d cl ss wd)"
  by (cases "ss_pc ss")
    (simp_all add: session_step_def quiet_step_fit connection_step_fit account_step_fit leads_fails)

section \<open>Every reachable state\<close>

definition all_fit :: "('f, 'w, 'con, 'st) server \<Rightarrow> bool" where
  "all_fit sv \<longleftrightarrow> (\<forall>ss\<in>set (sv_spawned sv). fit ss)"

interpretation fitness_kept: kept_by_calls all_fit
  by unfold_locales (auto simp: all_fit_def fit_def ready_def trying_def spoken_def session_new_def intro!: onElem_any)

lemma cleanup_spawned:
  assumes "cleanup_step d c sv = Some (Inr c', sv')"
  shows "sv_spawned sv' = sv_spawned sv"
proof (cases "cu_pc c = CStart")
  case True
  with assms show ?thesis by (auto simp: cleanup_step_def cleanup_start_def cu_goto_def split: prod.splits sum.splits)
next
  case False
  from cleanup_step_quiet [OF assms False] show ?thesis by simp
qed

lemma sys_reach_fit: "sys_reach pf cl d x \<Longrightarrow> all_fit (fst x)"
proof (induction rule: sys_reach.induct)
  case (reach_new w)
  show ?case by (simp add: server_new_def all_fit_def)
next
  case (reach_step c c')
  from reach_step(2,3) show ?case
  proof (induction rule: sys_step.induct)
    case (step_call n call sv out sv' cu)
    then show ?case using fitness_kept.commands.parts.call_keeps by auto
  next
    case (step_session i sv ss sv' cu)
    then have "fit (sv_spawned sv ! i)" by (simp add: all_fit_def)
    moreover obtain wd' where "session_step d cl (sv_spawned sv ! i) (world.truncate sv) = Some (Inr ss, wd')"
      using step_session(2) by (auto simp: on_world_def)
    ultimately have "fit ss" using session_step_fit unfolding leads_def by blast
    with step_session(3) set_update_subset_insert [of "sv_spawned sv" i ss] show ?case by (auto simp: all_fit_def)
  next
    case (step_cleanup_thread c sv c' sv')
    then show ?case using cleanup_spawned [OF step_cleanup_thread(1)] by (simp add: all_fit_def)
  next
    case (step_outside sv cu w)
    then show ?case by (simp add: all_fit_def)
  qed
qed

text \<open>
  The notice of a session that crashes stands alone only if the account was never reported. A session
  that was served sends its old report once more, with the notice behind it.
\<close>

lemma crash_notice:
  assumes "sys_reach pf cl d (sv, cu)" and "ss \<in> set (sv_spawned sv)" and "ss_pc ss = PCleanup"
  shows "\<exists>before. step_cleanup ss wd =
      sent PEnd (ss\<lparr>ss_out := before @ cleanup_text (ss_inputName ss) (ss_outputName ss) (ss_actName ss)\<rparr>)
        (w_send ''CLEANUP_O'' (before @ cleanup_text (ss_inputName ss) (ss_outputName ss) (ss_actName ss)) wd) \<and>
    (before = [] \<or> (\<exists>act isBanned. before = report_text (ss_actName ss) act isBanned))"
proof -
  have "fit ss" using sys_reach_fit [OF assms(1)] assms(2) by (simp add: all_fit_def)
  then have "ss_out ss = [] \<or> has_reported ss" using assms(3) by (simp add: fit_def spoken_def)
  then show ?thesis by (intro exI [of _ "ss_out ss"]) (auto simp: step_cleanup_def Let_def has_reported_def)
qed

section \<open>The end of a session\<close>

text \<open>The database calls at the end return, whatever the database answers, if \<open>threadEnd\<close> does.\<close>

definition threads_end :: "('w, 'con, 'st, 'rs) sql \<Rightarrow> bool" where
  "threads_end d \<longleftrightarrow> (\<forall>w. \<exists>w'. sql_threadEnd d w = (Inr (), w'))"

lemma alive_calls:
  assumes "c \<in> conn_alive (wd_conns wd, wd_out wd)"
  shows "threads_end d \<Longrightarrow> \<exists>w. w_conn (conn_ThreadEnd d (Some c)) wd = (Inr (), wd\<lparr>wd_out := w\<rparr>)"
    and "\<exists>b w. w_conn (conn_CommitData d (Some c)) wd = (Inr b, wd\<lparr>wd_out := w\<rparr>)"
proof -
  obtain oc con where oc: "node_at (wd_conns wd) c = Some (Some oc)" "oc_con oc = Some con"
    using assms by (auto simp: conn_alive_def sound_con_def split: option.splits)
  {
    assume "threads_end d"
    then obtain w where "sql_threadEnd d (wd_out wd) = (Inr (), w)" unfolding threads_end_def by blast
    with oc show "\<exists>w. w_conn (conn_ThreadEnd d (Some c)) wd = (Inr (), wd\<lparr>wd_out := w\<rparr>)"
      by (simp add: w_conn_def conn_ThreadEnd_def withConn_def ThreadEnd_def derefE_def callE_def thenE_def) blast
  }
  obtain b where "fst (CommitData d (Some oc) (wd_out wd)) = Inr b"
    using raises_nothing_returns [OF updates_raise_nothing(1) [OF oc(2)], of d "wd_out wd"] by blast
  with oc show "\<exists>b w. w_conn (conn_CommitData d (Some c)) wd = (Inr b, wd\<lparr>wd_out := w\<rparr>)"
    by (simp add: w_conn_def conn_CommitData_def withConn_def thenE_def case_prod_unfold) blast
qed

lemma session_run_step:
  "session_step d cl ss wd = Some (Inr ss1, wd1) \<Longrightarrow> session_run n d cl ss1 wd1 = r \<Longrightarrow> session_run (Suc n) d cl ss wd = r"
  by simp

text \<open>The thread of a session whose callback has returned is gone two steps later.\<close>

lemma thread_ends:
  assumes pc: "ss_pc ss = PReturn" and hv: "hv_myThreadHandle (ss_hive ss) = Some a"
    and rg: "rg_ok (wd_elem wd)" "a \<in> set (rg_addrs (wd_elem wd))" "th_hiveThread (rg_handle (wd_elem wd) a)"
  shows "\<exists>ss' wd'. session_run 2 d cl ss wd = Some (Inr ss', wd') \<and> ss_pc ss' = PDone \<and> ss_holds ss' = [] \<and>
    wd_pool wd' = wd_pool wd \<and> rg_ok (wd_elem wd') \<and>
    (if th_shares (rg_handle (wd_elem wd) a) = 1 then a \<notin> set (rg_addrs (wd_elem wd'))
     else a \<in> set (rg_addrs (wd_elem wd')) \<and> \<not> th_running (rg_handle (wd_elem wd') a) \<and>
       th_finished (rg_handle (wd_elem wd') a) \<and> th_success (rg_handle (wd_elem wd') a))"
proof -
  obtain n where n: "node_at (rg_mem (wd_elem wd)) a = Some n" using rg(1,2) by (auto simp: rg_ok_def has_mailbox_def)
  have thread: "th_hiveThread n" using rg(3) n by (simp add: rg_handle_def payload_def)
  let ?n = "n\<lparr>th_finished := True, th_success := True, th_running := False, th_hiveThread := False\<rparr>"
  let ?hv = "(ss_hive ss)\<lparr>hv_isMain := False\<rparr>" and ?rg = "(wd_elem wd)\<lparr>rg_mem := (rg_mem (wd_elem wd))[a := Some ?n]\<rparr>"
  have fin: "hive_finish True (ss_hive ss) (wd_elem wd) = Inr (?hv, ?rg)"
    using hv n thread by (simp add: hive_finish_def)
  from hive_finish_keeps [OF rg(1) fin] have ok: "rg_ok ?rg" "rg_addrs ?rg = rg_addrs (wd_elem wd)"
    by (simp_all add: rg_keeps_def)
  have handle: "rg_handle ?rg a = (rg_handle (wd_elem wd) a)\<lparr>th_finished := True, th_success := True, th_running := False,
      th_hiveThread := False\<rparr>"
    using n node_at_less [OF n] by (simp add: rg_handle_def payload_def)
  let ?ss1 = "ss\<lparr>ss_hive := ?hv, ss_opflcon := None, ss_opflcon2 := None, ss_pc := PExit\<rparr>"
  let ?wd1 = "reassign (ss_opflcon ss) None (reassign (ss_opflcon2 ss) None (wd\<lparr>wd_elem := ?rg\<rparr>))"
  have 1: "session_step d cl ss wd = Some (Inr ?ss1, ?wd1)"
    using pc fin by (simp add: session_step_def step_return_def goto_def)
  have my: "hv_myThreadHandle ?hv = Some a" "a \<in> set (rg_addrs ?rg)" using hv ok(2) rg(2) by simp_all
  obtain h2 rg2 where 2: "hive_destroy ?hv ?rg = Some (Inr (h2, rg2))" "rg_ok rg2"
    "if th_shares (rg_handle (wd_elem wd) a) = 1 then a \<notin> set (rg_addrs rg2)
     else a \<in> set (rg_addrs rg2) \<and> \<not> th_running (rg_handle rg2 a) \<and> th_finished (rg_handle rg2 a) \<and> th_success (rg_handle rg2 a)"
  proof (cases "th_shares (rg_handle (wd_elem wd) a) = 1")
    case True
    with hive_destroy_cases [OF ok(1) my] handle that show ?thesis by auto
  next
    case False
    have rep: "rg_rep (rg_addrs ?rg) ?rg" using ok(1) rg_wf_rep unfolding rg_ok_def by blast
    from hive_destroy_shared [OF rep my] False handle obtain rg2 where
      r: "hive_destroy ?hv ?rg = Some (Inr (?hv, rg2))" "rg_rep (rg_addrs ?rg) rg2"
        "rg_handle rg2 a = (rg_handle ?rg a)\<lparr>th_shares := th_shares (rg_handle ?rg a) - 1\<rparr>"
      by auto
    from hive_destroy_ok [OF ok(1) r(1)] have "rg_ok rg2" by simp
    moreover have "rg_addrs rg2 = rg_addrs ?rg" using rg_rep_wf [OF r(2)] by simp
    ultimately show ?thesis using r(1,3) handle my(2) False that by simp
  qed
  have "session_step d cl ?ss1 ?wd1 = Some (Inr (?ss1\<lparr>ss_hive := h2, ss_pc := PDone\<rparr>), ?wd1\<lparr>wd_elem := rg2\<rparr>)"
    using 2(1) by (simp add: session_step_def step_exit_def goto_def reassign_def)
  with 1 2(2,3) show ?thesis by (simp add: eval_nat_numeral ss_holds_def reassign_def)
qed

lemma session_run_add:
  "session_run n d cl ss wd = Some (Inr ss1, wd1) \<Longrightarrow> session_run (n + k) d cl ss wd = session_run k d cl ss1 wd1"
proof (induction n arbitrary: ss wd)
  case (Suc n)
  then show ?case by (cases "session_step d cl ss wd") (auto split: prod.splits sum.splits)
qed simp

text \<open>The steps before: the message is taken, the connections go back, the account is committed.\<close>

lemma serve_commit_run:
  assumes lends: "wd_lends wd (us @ ss # ws)" and ok: "rg_ok (wd_elem wd)"
    and pc: "ss_pc ss = PServe" and c: "ss_opflcon ss = Some c" "ss_opflcon2 ss = Some c2"
    and hv: "hv_myThreadHandle (ss_hive ss) = Some a"
    and handle: "a \<in> set (rg_addrs (wd_elem wd))" "th_hiveThread (rg_handle (wd_elem wd) a)"
      "th_shares (rg_handle (wd_elem wd) a) = k"
    and mail: "mailbox (wd_elem wd) a = m # ms"
    and commit: "am_name m \<notin> {''PublishKills'', ''PublishChickens'', ''PublishAccount''}" "arg_unsigned 2 (am_data m) = Inr 0"
    and ends: "threads_end d"
  shows "\<exists>n ss1 wd1 p. n \<le> 4 \<and> session_run n d cl ss wd = Some (Inr ss1, wd1) \<and>
    ss_pc ss1 = PReturn \<and> hv_myThreadHandle (ss_hive ss1) = Some a \<and> rg_ok (wd_elem wd1) \<and> a \<in> set (rg_addrs (wd_elem wd1)) \<and>
    th_hiveThread (rg_handle (wd_elem wd1) a) \<and> th_shares (rg_handle (wd_elem wd1) a) = k \<and>
    wd_pool wd1 = Some p \<and> c2 \<in> set (cp_pool p) \<and> c \<in> set (cp_pool p) \<union> set (cp_borrowed p)"
proof -
  have uses: "ss_uses ss = [c, c2]" using pc c by (simp add: ss_uses_def ss_holds_def)
  then obtain p where p: "wd_pool wd = Some p" "pool_ok conn_alive p (wd_conns wd, ())" "c \<in> set (cp_borrowed p)" "c2 \<in> set (cp_borrowed p)"
    and other: "c \<noteq> c2"
    using lends c by (cases "wd_pool wd") (auto simp: lends_ok_def ss_holds_def)
  have alive: "c \<in> conn_alive (wd_conns wd, w)" for w
    using p pool_ok_outside [of p "wd_conns wd" w] by (auto simp: pool_ok_def)
  have box: "has_mailbox a (wd_elem wd)" using ok handle(1) by (simp add: rg_ok_def)
  obtain rg where r: "receiveMsg True (ss_hive ss) (wd_elem wd) = Some (Inr (True, Some m, (ss_hive ss)\<lparr>hv_currentMsg := Some m\<rparr>, rg))"
    "same_but a (wd_elem wd) rg" using receiveMsg_eq(3) [OF box hv mail, of True] by blast
  have rg: "rg_ok rg" "rg_addrs rg = rg_addrs (wd_elem wd)" using receiveMsg_keeps(1) [OF ok r(1)] by (simp_all add: rg_keeps_def)
  obtain n0 where n0: "node_at (rg_mem (wd_elem wd)) a = Some n0" using box by (rule has_mailboxE)
  note same = same_but_frame(4) [OF r(2) n0]
  have thread: "th_hiveThread (rg_handle rg a)" "th_shares (rg_handle rg a) = k"
    using arg_cong [OF same, of th_hiveThread] arg_cong [OF same, of th_shares] handle(2,3) by simp_all
  let ?ss = "\<lambda>p. ss\<lparr>ss_hive := (ss_hive ss)\<lparr>hv_currentMsg := Some m\<rparr>, ss_pc := p\<rparr>" and ?wd = "wd\<lparr>wd_elem := rg\<rparr>"
  have 1: "session_step d cl ss wd = Some (Inr (?ss PGive2), ?wd)"
    using pc r(1) commit by (simp add: session_step_def step_serve_def ss_receive_def serve_def w_conn_def thenE_def)
  let ?wd2 = "?wd\<lparr>wd_pool := Some (unborrow c2 p)\<rparr>"
  have 2: "session_step d cl (?ss PGive2) ?wd = Some (Inr (?ss PCommit), ?wd2)"
    using p(1) c(2) by (simp add: session_step_def step_give2_def w_unborrow_def goto_def)
  have "c \<in> conn_alive (wd_conns ?wd2, wd_out ?wd2)" using alive by simp
  from alive_calls(1) [OF this ends] obtain w3 where w3: "w_conn (conn_ThreadEnd d (Some c)) ?wd2 = (Inr (), ?wd2\<lparr>wd_out := w3\<rparr>)"
    by blast
  have "c \<in> conn_alive (wd_conns (?wd2\<lparr>wd_out := w3\<rparr>), wd_out (?wd2\<lparr>wd_out := w3\<rparr>))" using alive by simp
  from alive_calls(2) [OF this, of d] obtain b w4 where
    w4: "w_conn (conn_CommitData d (Some c)) (?wd2\<lparr>wd_out := w3\<rparr>) = (Inr b, ?wd2\<lparr>wd_out := w4\<rparr>)"
    by auto
  let ?wd3 = "?wd2\<lparr>wd_out := w4\<rparr>"
  have 3: "session_step d cl (?ss PCommit) ?wd2 = Some (Inr (?ss (if b then PStop1 else PReturn)), ?wd3)"
    using w3 w4 c(1) by (simp add: session_step_def step_commit_def goto_def thenE_def)
  have free2: "c2 \<in> set (cp_pool (unborrow c2 p))" "c \<in> set (cp_borrowed (unborrow c2 p))"
    using p(3) other by (simp_all add: unborrow_def)
  have given: "hv_myThreadHandle (ss_hive (?ss q)) = Some a" for q using hv by simp
  show ?thesis
  proof (cases b)
    case False
    then have "session_run 3 d cl ss wd = Some (Inr (?ss PReturn), ?wd3)" using 1 2 3 by (simp add: eval_nat_numeral)
    with free2 given rg thread handle(1) show ?thesis
      by (intro exI [of _ 3] exI [of _ "?ss PReturn"] exI [of _ ?wd3] exI [of _ "unborrow c2 p"]) simp
  next
    case True
    let ?wd4 = "?wd3\<lparr>wd_pool := Some (unborrow c (unborrow c2 p))\<rparr>"
    have 4: "session_step d cl (?ss PStop1) ?wd3 = Some (Inr (?ss PReturn), ?wd4)"
      using c(1) by (simp add: session_step_def step_stop1_def w_unborrow_def goto_def)
    have "session_run 4 d cl ss wd = Some (Inr (?ss PReturn), ?wd4)" using 1 2 3 4 True by (simp add: eval_nat_numeral)
    moreover have "c2 \<in> set (cp_pool (unborrow c (unborrow c2 p)))" "c \<in> set (cp_pool (unborrow c (unborrow c2 p)))"
      by (simp_all add: unborrow_def)
    ultimately show ?thesis using given rg thread handle(1)
      by (intro exI [of _ 4] exI [of _ "?ss PReturn"] exI [of _ ?wd4] exI [of _ "unborrow c (unborrow c2 p)"]) simp
  qed
qed


end
