(* ===== verification/Session_Open.thy ===== *)
theory Session_Open
  imports Session_Life
begin

text \<open>
  How a session begins: from the message that connects it to the report of the account, in seven steps
  of its own, when the database works and the pool has two free connections.
\<close>

section \<open>The steps\<close>

definition named :: "string \<Rightarrow> string \<Rightarrow> string \<Rightarrow> u64 \<Rightarrow> 'f session \<Rightarrow> 'f session" where
  "named inputName outputName actName rejoin ss =
     ss\<lparr>ss_inputName := inputName, ss_outputName := outputName, ss_actName := actName, ss_rejoin := (rejoin \<noteq> 0)\<rparr>"

lemma start_run:
  assumes pc: "ss_pc ss = PStart" and hv: "hv_myThreadHandle (ss_hive ss) = Some a"
    and box: "has_mailbox a (wd_elem wd)" "mailbox (wd_elem wd) a = m # ms"
    and args: "arg_string 0 (am_data m) = Inr inputName" "arg_string 1 (am_data m) = Inr outputName"
      "arg_string 2 (am_data m) = Inr actName" "arg_unsigned 3 (am_data m) = Inr rejoin"
  shows "\<exists>rg. session_step d cl ss wd =
      Some (Inr ((named inputName outputName actName rejoin ss)\<lparr>ss_hive := (ss_hive ss)\<lparr>hv_currentMsg := Some m\<rparr>, ss_pc := PBorrow\<rparr>),
        wd\<lparr>wd_elem := rg\<rparr>) \<and>
    has_mailbox a rg \<and> mailbox rg a = ms \<and> same_but a (wd_elem wd) rg"
  using receiveMsg_eq(3) [OF box(1) hv box(2), of False] pc args
  by (auto simp: session_step_def step_start_def ss_receive_def named_def)

text \<open>Both connections are free ones.\<close>

lemma borrow_run:
  assumes pc: "ss_pc ss = PBorrow" and none: "ss_opflcon ss = None" "ss_opflcon2 ss = None"
    and p: "wd_pool wd = Some p" "cp_pool p = c # c2 # cs"
  shows "\<exists>q refs. session_run 2 d cl ss wd =
      Some (Inr (ss\<lparr>ss_opflcon := Some c, ss_opflcon2 := Some c2, ss_pc := PInit\<rparr>), wd\<lparr>wd_pool := Some q, wd_refs := refs\<rparr>) \<and>
    cp_pool q = cs \<and> cp_borrowed q = set_insert c2 (set_insert c (cp_borrowed p))"
proof -
  let ?q1 = "p\<lparr>cp_pool := c2 # cs, cp_borrowed := set_insert c (cp_borrowed p)\<rparr>"
  let ?wd1 = "wd\<lparr>wd_pool := Some ?q1, wd_refs := (wd_refs wd)(c := wd_refs wd c + 1)\<rparr>"
  have 1: "session_step d cl ss wd = Some (Inr (with_first ss c), ?wd1)"
    using first_borrow [OF pc none(1) p] .
  let ?q = "?q1\<lparr>cp_pool := cs, cp_borrowed := set_insert c2 (cp_borrowed ?q1)\<rparr>"
  let ?wd2 = "wd\<lparr>wd_pool := Some ?q, wd_refs := retain (Some c2) (wd_refs ?wd1)\<rparr>"
  have 2: "session_step d cl (with_first ss c) ?wd1 =
      Some (Inr (ss\<lparr>ss_opflcon := Some c, ss_opflcon2 := Some c2, ss_pc := PInit\<rparr>), ?wd2)"
    using none
    by (simp add: session_step_def with_first_def step_borrow2_def w_borrow_def borrow_Cons goto_def reassign_def release_def)
  from 1 2 have "session_run 2 d cl ss wd =
      Some (Inr (ss\<lparr>ss_opflcon := Some c, ss_opflcon2 := Some c2, ss_pc := PInit\<rparr>), ?wd2)"
    by (simp add: eval_nat_numeral)
  then show ?thesis by (intro exI [of _ ?q] exI [of _ "wd_refs ?wd2"]) simp
qed

lemma init_run:
  assumes pc: "ss_pc ss = PInit" and c: "ss_opflcon ss = Some c" "c \<in> conn_alive (wd_conns wd, wd_out wd)"
    and init: "sql_threadInit d (wd_out wd) = (Inr (), w1)"
    and hv: "hv_myThreadHandle (ss_hive ss) = Some a"
    and box: "has_mailbox a (wd_elem wd)" "mailbox (wd_elem wd) a = []"
  shows "session_run 2 d cl ss wd = Some (Inr (ss\<lparr>ss_retry := True, ss_pc := PSetup\<rparr>), wd\<lparr>wd_out := w1\<rparr>)"
proof -
  obtain oc where oc: "node_at (wd_conns wd) c = Some (Some oc)"
    using c(2) by (auto simp: conn_alive_def sound_con_def split: option.splits)
  have 1: "session_step d cl ss wd = Some (Inr (ss\<lparr>ss_retry := False, ss_pc := PPoll\<rparr>), wd\<lparr>wd_out := w1\<rparr>)"
    using pc c(1) oc init
    by (simp add: session_step_def step_init_def w_conn_def conn_ThreadInit_def withConn_def ThreadInit_def derefE_def
        callE_def thenE_def goto_def)
  have "receiveMsg False (ss_hive ss) (wd_elem wd) = Some (Inr (False, None, ss_hive ss, wd_elem wd))"
    by (rule receiveMsg_eq(2) [OF box(1) hv box(2)])
  then have "session_step d cl (ss\<lparr>ss_retry := False, ss_pc := PPoll\<rparr>) (wd\<lparr>wd_out := w1\<rparr>) =
      Some (Inr (ss\<lparr>ss_retry := True, ss_pc := PSetup\<rparr>), wd\<lparr>wd_out := w1\<rparr>)"
    by (simp add: session_step_def step_poll_def ss_receive_def goto_def)
  with 1 show ?thesis by (simp add: eval_nat_numeral)
qed

text \<open>A session that has sent its report and goes on to serve.\<close>

definition after_report :: "'f session \<Rightarrow> 'f session" where
  "after_report ss = ss\<lparr>ss_pc := PServe, ss_out := ss_out ss @ report_text (ss_actName ss) (ss_act ss) (ss_isBanned ss)\<rparr>"

lemma report_run:
  assumes pc: "ss_pc ss = PSetup"
    and load: "load_account d cl ss (wd_conns wd, wd_out wd) = (Inr ss2, (mem, w2))" "ss_stable ss2"
    and out: "rg_rep as (wd_str wd)" "find (\<lambda>b. th_threadName (rg_handle (wd_str wd) b) = ss_outputName ss2) as = Some b"
      "has_mailbox b (wd_str wd)" "length (mailbox (wd_str wd) b) < hqc_cap" "ss_out ss2 = []"
  shows "\<exists>rg. session_run 2 d cl ss wd = Some (Inr (after_report ss2), wd\<lparr>wd_conns := mem, wd_out := w2, wd_str := rg\<rparr>) \<and>
    mailbox rg b = mailbox (wd_str wd) b @ [report_text (ss_actName ss2) (ss_act ss2) (ss_isBanned ss2)] \<and>
    same_but b (wd_str wd) rg"
proof -
  have 1: "session_step d cl ss wd = Some (Inr (ss2\<lparr>ss_pc := PReport\<rparr>), wd\<lparr>wd_conns := mem, wd_out := w2\<rparr>)"
    using pc load by (simp add: session_step_def step_setup_def w_conn_def goto_def)
  let ?text = "report_text (ss_actName ss2) (ss_act ss2) (ss_isBanned ss2)"
  obtain rg where rg: "sendMsg (Some b) ?text (wd_str wd) = Inr (True, rg)" "mailbox rg b = mailbox (wd_str wd) b @ [?text]"
    "same_but b (wd_str wd) rg"
    using sendMsg_eq [OF out(3,4), of ?text] by blast
  have "w_send (ss_outputName ss2) ?text (wd\<lparr>wd_conns := mem, wd_out := w2\<rparr>)
      = Some (Inr (), wd\<lparr>wd_conns := mem, wd_out := w2, wd_str := rg\<rparr>)"
    using getThreadHandle_eq [OF out(1), of "ss_outputName ss2"] out(2) rg(1) by (simp add: w_send_def)
  then have "session_step d cl (ss2\<lparr>ss_pc := PReport\<rparr>) (wd\<lparr>wd_conns := mem, wd_out := w2\<rparr>) =
      Some (Inr (after_report ss2), wd\<lparr>wd_conns := mem, wd_out := w2, wd_str := rg\<rparr>)"
    using out(5) by (simp add: session_step_def step_report_def sent_def goto_def after_report_def)
  with 1 rg(2,3) show ?thesis by (intro exI [of _ rg]) (simp add: eval_nat_numeral)
qed

section \<open>The whole beginning\<close>

lemma opening_run:
  assumes pc: "ss_pc ss = PStart" "ss_opflcon ss = None" "ss_opflcon2 ss = None" "ss_out ss = []"
    and hv: "hv_myThreadHandle (ss_hive ss) = Some a"
    and box: "has_mailbox a (wd_elem wd)" "mailbox (wd_elem wd) a = [m]"
    and args: "arg_string 0 (am_data m) = Inr inputName" "arg_string 1 (am_data m) = Inr outputName"
      "arg_string 2 (am_data m) = Inr actName" "arg_unsigned 3 (am_data m) = Inr rejoin"
    and pool: "wd_pool wd = Some p" "cp_pool p = c # c2 # cs" "c \<in> conn_alive (wd_conns wd, wd_out wd)"
    and init: "sql_threadInit d (wd_out wd) = (Inr (), w1)"
    and load: "load_account d cl ((named inputName outputName actName rejoin ss)\<lparr>ss_hive := (ss_hive ss)\<lparr>hv_currentMsg := Some m\<rparr>,
        ss_opflcon := Some c, ss_opflcon2 := Some c2, ss_retry := True, ss_pc := PSetup\<rparr>) (wd_conns wd, w1) = (Inr ss2, (mem, w2))"
      "ss_stable ss2"
    and out: "rg_rep as (wd_str wd)" "find (\<lambda>b. th_threadName (rg_handle (wd_str wd) b) = ss_outputName ss2) as = Some b"
      "has_mailbox b (wd_str wd)" "length (mailbox (wd_str wd) b) < hqc_cap"
  shows "\<exists>q wd'. session_run 7 d cl ss wd = Some (Inr (after_report ss2), wd') \<and> ss_holds ss2 = [c, c2] \<and>
    wd_pool wd' = Some q \<and> cp_pool q = cs \<and> cp_borrowed q = set_insert c2 (set_insert c (cp_borrowed p)) \<and>
    mailbox (wd_str wd') b = mailbox (wd_str wd) b @ [report_text (ss_actName ss2) (ss_act ss2) (ss_isBanned ss2)] \<and>
    same_but b (wd_str wd) (wd_str wd') \<and> mailbox (wd_elem wd') a = [] \<and> same_but a (wd_elem wd) (wd_elem wd')"
proof -
  let ?ss1 = "(named inputName outputName actName rejoin ss)\<lparr>ss_hive := (ss_hive ss)\<lparr>hv_currentMsg := Some m\<rparr>, ss_pc := PBorrow\<rparr>"
  obtain rg where 1: "session_step d cl ss wd = Some (Inr ?ss1, wd\<lparr>wd_elem := rg\<rparr>)"
    "has_mailbox a rg" "mailbox rg a = []" "same_but a (wd_elem wd) rg"
    using start_run [OF pc(1) hv box args] by blast
  let ?wd1 = "wd\<lparr>wd_elem := rg\<rparr>" and ?ss2 = "?ss1\<lparr>ss_opflcon := Some c, ss_opflcon2 := Some c2, ss_pc := PInit\<rparr>"
  have none: "ss_pc ?ss1 = PBorrow" "ss_opflcon ?ss1 = None" "ss_opflcon2 ?ss1 = None" using pc by (simp_all add: named_def)
  have "wd_pool ?wd1 = Some p" using pool(1) by simp
  from borrow_run [OF none this pool(2)] obtain q refs where
    2: "session_run 2 d cl ?ss1 ?wd1 = Some (Inr ?ss2, ?wd1\<lparr>wd_pool := Some q, wd_refs := refs\<rparr>)"
      "cp_pool q = cs" "cp_borrowed q = set_insert c2 (set_insert c (cp_borrowed p))" by blast
  let ?wd2 = "?wd1\<lparr>wd_pool := Some q, wd_refs := refs\<rparr>"
  have 3: "session_run 2 d cl ?ss2 ?wd2 = Some (Inr (?ss2\<lparr>ss_retry := True, ss_pc := PSetup\<rparr>), ?wd2\<lparr>wd_out := w1\<rparr>)"
    using pool(3) init hv 1(2,3) by (intro init_run [of _ c _ _ _ a]) (simp_all add: named_def)
  let ?wd3 = "?wd2\<lparr>wd_out := w1\<rparr>" and ?ss3 = "?ss2\<lparr>ss_retry := True, ss_pc := PSetup\<rparr>"
  have "load_account d cl ?ss3 (wd_conns ?wd3, wd_out ?wd3) = (Inr ss2, (mem, w2))" using load(1) by simp
  moreover have "ss_pc ?ss3 = PSetup" by simp
  moreover have "ss_out ss2 = []" using load_account_out load(1) pc(4) by (fastforce simp: gives_def named_def)
  ultimately obtain rg2 where
    4: "session_run 2 d cl ?ss3 ?wd3 = Some (Inr (after_report ss2), ?wd3\<lparr>wd_conns := mem, wd_out := w2, wd_str := rg2\<rparr>)"
      "mailbox rg2 b = mailbox (wd_str wd) b @ [report_text (ss_actName ss2) (ss_act ss2) (ss_isBanned ss2)]"
      "same_but b (wd_str wd) rg2"
    using report_run [of ?ss3 d cl ?wd3 ss2 mem w2 as b] load(2) out by auto
  have "session_run 7 d cl ss wd = session_run 6 d cl ?ss1 ?wd1" using 1(1) by (simp add: eval_nat_numeral)
  also have "\<dots> = session_run 4 d cl ?ss2 ?wd2" using session_run_add [OF 2(1), of 4] by simp
  also have "\<dots> = session_run 2 d cl ?ss3 ?wd3" using session_run_add [OF 3, of 2] by simp
  finally have run: "session_run 7 d cl ss wd = session_run 2 d cl ?ss3 ?wd3" .
  have "same_conns ?ss3 ss2" using load_account_gives load(1) unfolding gives_def by fastforce
  then have "ss_holds ss2 = [c, c2]" by (simp add: ss_holds_def same_conns_def)
  with run 4 2(2,3) 1(3,4) show ?thesis
    by (intro exI [of _ q] exI [of _ "?wd3\<lparr>wd_conns := mem, wd_out := w2, wd_str := rg2\<rparr>"]) simp
qed


end
