(* ===== verification/Hive_Messages.thy ===== *)
theory Hive_Messages
  imports Hive_Registry
begin

text \<open>
  What \<open>ThreadHive\<close> promises: the registry is a list of named handles, and a handle is a mailbox
  that delivers every message accepted, in order, whatever the interleaving of the threads.
  \<open>mail_step\<close> is that interleaving for the owner of the handle at one address: any thread may send
  to it or to another handle, and the owner receives. The state also logs the messages accepted
  and those the owner has got.
\<close>

section \<open>Interleavings\<close>

record ('m, 'c) mail_state =
  ms_rg :: "('m, 'c) registry"
  ms_hv :: "'m hive"
  ms_sent :: "'m list"
  ms_got :: "'m list"

inductive mail_step :: "addr \<Rightarrow> ('m, 'c) mail_state \<Rightarrow> ('m, 'c) mail_state \<Rightarrow> bool" for a where
  send: "sendMsg (Some a) msg (ms_rg s) = Inr (ok, rg) \<Longrightarrow>
    mail_step a s (s\<lparr>ms_rg := rg, ms_sent := ms_sent s @ (if ok then [msg] else [])\<rparr>)"
| send_other: "b \<noteq> a \<Longrightarrow> has_mailbox b (ms_rg s) \<Longrightarrow> sendMsg (Some b) msg (ms_rg s) = Inr (ok, rg) \<Longrightarrow>
    mail_step a s (s\<lparr>ms_rg := rg\<rparr>)"
| receive: "receiveMsg blocking (ms_hv s) (ms_rg s) = Some (Inr (True, Some msg, hv, rg)) \<Longrightarrow>
    mail_step a s (s\<lparr>ms_rg := rg, ms_hv := hv, ms_got := ms_got s @ [msg]\<rparr>)"
| receive_all: "receiveAll False (ms_hv s) (ms_rg s) = Some (Inr (ok, cells, n, hv, rg)) \<Longrightarrow>
    mail_step a s (s\<lparr>ms_rg := rg, ms_hv := hv, ms_got := ms_got s @ map the cells\<rparr>)"

inductive_cases mail_stepE [elim]: "mail_step a s s'"

inductive mail_reach :: "addr \<Rightarrow> ('m, 'c) mail_state \<Rightarrow> ('m, 'c) mail_state \<Rightarrow> bool" for a s where
  start: "mail_reach a s s"
| step: "mail_reach a s t \<Longrightarrow> mail_step a t u \<Longrightarrow> mail_reach a s u"

definition mail_inv :: "addr \<Rightarrow> ('m, 'c) mail_state \<Rightarrow> bool" where
  "mail_inv a s \<longleftrightarrow> has_mailbox a (ms_rg s) \<and> hv_myThreadHandle (ms_hv s) = Some a \<and>
     ms_sent s = ms_got s @ mailbox (ms_rg s) a"

lemma same_but_has_mailbox:
  "same_but b rg rg' \<Longrightarrow> b \<noteq> a \<Longrightarrow> has_mailbox a rg' = has_mailbox a rg"
  by (auto simp: same_but_def has_mailbox_def)

lemma sendMsg_cases:
  assumes "has_mailbox b rg" and "sendMsg (Some b) msg rg = Inr (ok, rg')"
  shows "has_mailbox b rg'" and "mailbox rg' b = mailbox rg b @ (if ok then [msg] else [])" and "same_but b rg rg'"
proof -
  obtain n q where q: "node_at (rg_mem rg) b = Some n" "hqc_wf q" "mailbox rg b = hqc_contents q"
    "queue_of (Some b) rg = Inr q" using assms(1) by (rule has_mailboxE)
  obtain q' where q': "hqc_push msg q = Inr (ok, q')" "set_queue (Some b) q' rg = Inr rg'"
    using assms(2) q(4) by (auto simp: sendMsg_def bindE_Inr_iff)
  have "hqc_wf q' \<and> hqc_contents q' = hqc_contents q @ (if ok then [msg] else [])"
    using hqc.push_ok [OF q(2), of msg] hqc.push_full [OF q(2), of msg] hqc.contents_le [OF q(2)] q'(1) q(2)
    by (cases "length (hqc_contents q) < hqc_cap") auto
  with set_queue_eq [OF q(1), of q'] q'(2) q(3)
  show "has_mailbox b rg'" "mailbox rg' b = mailbox rg b @ (if ok then [msg] else [])" "same_but b rg rg'"
    by auto
qed

lemma mail_step_inv:
  assumes "mail_step a s s'" and "mail_inv a s"
  shows "mail_inv a s'"
  using assms(1)
proof cases
  case (send msg ok rg)
  with sendMsg_cases [of a "ms_rg s" msg ok rg] assms(2) show ?thesis by (simp add: mail_inv_def)
next
  case (send_other b msg ok rg)
  note c = sendMsg_cases [OF send_other(3,4)]
  obtain n where "node_at (rg_mem (ms_rg s)) b = Some n" using send_other(3) by (rule has_mailboxE)
  from same_but_frame(3) [OF c(3) this, of a] same_but_has_mailbox [OF c(3)] send_other(1,2) assms(2)
  show ?thesis by (simp add: mail_inv_def)
next
  case (receive blocking msg hv rg)
  have m: "has_mailbox a (ms_rg s)" "hv_myThreadHandle (ms_hv s) = Some a" using assms(2) by (simp_all add: mail_inv_def)
  show ?thesis
  proof (cases "mailbox (ms_rg s) a")
    case Nil
    with receiveMsg_eq(1,2) [OF m Nil] receive(2) show ?thesis by (cases blocking) auto
  next
    case (Cons x xs)
    with receiveMsg_eq(3) [OF m Cons, of blocking] receive assms(2) m show ?thesis by (auto simp: mail_inv_def)
  qed
next
  case (receive_all ok cells n hv rg)
  have m: "has_mailbox a (ms_rg s)" "hv_myThreadHandle (ms_hv s) = Some a" using assms(2) by (simp_all add: mail_inv_def)
  from receiveAll_eq [OF this] receive_all assms(2) show ?thesis by (auto simp: mail_inv_def)
qed

lemma mail_reach_inv: "mail_reach a s t \<Longrightarrow> mail_inv a s \<Longrightarrow> mail_inv a t"
  by (induction rule: mail_reach.induct) (auto intro: mail_step_inv simp del: split_paired_All)

section \<open>An example\<close>

text \<open>Two threads, registered one after the other.\<close>

definition hive_two :: "mem_error + bool \<times> nat hive \<times> (nat, unit) registry" where
  "hive_two = bindE (addThread 0 ''main'' None None hive_new registry_new) (\<lambda>(_, _, rg).
     addThread 0 ''session'' None None hive_new rg)"

lemma hive_two_ok:
  obtains a b hv rg where "hive_two = Inr (True, hv, rg)" "rg_rep [a, b] rg" "a \<noteq> b"
    "hv_myThreadHandle hv = Some b" "has_mailbox b rg" "mailbox rg b = []"
    "th_threadName (rg_handle rg a) = ''main''" "th_threadName (rg_handle rg b) = ''session''"
    "th_shares (rg_handle rg b) = 1"
proof -
  obtain a rg1 where 1: "addThread 0 ''main'' None None (hive_new :: nat hive) (registry_new :: (nat, unit) registry)
      = Inr (True, hive_new\<lparr>hv_myThreadHandle := Some a\<rparr>, rg1)" "rg_rep [a] rg1"
    "th_threadName (rg_handle rg1 a) = ''main''"
    using addThread_rep [where rg = "registry_new :: (nat, unit) registry" and as = "[]" and hv = hive_new and
        junk = 0 and name = "''main''" and cb = None and ps = None]
    by (auto simp: hive_new_def mkThreadHandle_def registry_new_rep)
  obtain b rg2 where 2: "addThread 0 ''session'' None None (hive_new :: nat hive) rg1
      = Inr (True, hive_new\<lparr>hv_myThreadHandle := Some b\<rparr>, rg2)" "rg_rep [a, b] rg2" "b \<noteq> a"
    "th_threadName (rg_handle rg2 a) = ''main''" "th_threadName (rg_handle rg2 b) = ''session''"
    "th_shares (rg_handle rg2 b) = 1"
    using addThread_rep [OF 1(2), where hv = hive_new and junk = 0 and name = "''session''" and cb = None and ps = None] 1(3)
    by (auto simp: hive_new_def mkThreadHandle_def)
  have "has_mailbox b rg2" "mailbox rg2 b = []"
    using new_mailbox [OF 1(2) _ 2(1)] by (auto simp: hive_new_def)
  with 1 2 that show ?thesis by (simp add: hive_two_def)
qed

section \<open>Properties\<close>



text \<open>
  A blocking receive never returns without a message and waits for nothing else: the call returns
  exactly when a message is waiting, and then with the oldest one; a call that does not block
  reports an empty mailbox and leaves the caller's variable alone.
\<close>

lemma receiveMsg_blocks_iff_empty:
  assumes "has_mailbox a rg" and "hv_myThreadHandle hv = Some a"
  shows "(receiveMsg True hv rg = None \<longleftrightarrow> mailbox rg a = []) \<and>
    (mailbox rg a = [] \<longrightarrow> receiveMsg False hv rg = Some (Inr (False, None, hv, rg))) \<and>
    (mailbox rg a \<noteq> [] \<longrightarrow> (\<forall>blocking. \<exists>hv' rg'. receiveMsg blocking hv rg =
        Some (Inr (True, Some (hd (mailbox rg a)), hv', rg')) \<and> mailbox rg' a = tl (mailbox rg a)))"
proof (cases "mailbox rg a")
  case Nil
  with receiveMsg_eq(1,2) [OF assms] show ?thesis by simp
next
  case (Cons msg msgs)
  have all: "\<exists>hv' rg'. receiveMsg blocking hv rg = Some (Inr (True, Some msg, hv', rg')) \<and> mailbox rg' a = msgs"
    for blocking using receiveMsg_eq(3) [OF assms Cons, of blocking] by blast
  with all [of True] Cons show ?thesis by auto
qed

lemma receiveMsg_blocks_iff_empty_witness:
  "\<exists>hv rg. hive_two = Inr (True, hv, rg) \<and> receiveMsg True hv rg = None"
proof -
  obtain a b hv rg where h: "hive_two = Inr (True, hv, rg)" "hv_myThreadHandle hv = Some b" "has_mailbox b rg"
    "mailbox rg b = []" using hive_two_ok .
  moreover from receiveMsg_blocks_iff_empty [OF h(3,2)] h(4) have "receiveMsg True hv rg = None" by simp
  ultimately show ?thesis by blast
qed

text \<open>
  \<open>sendAll\<close> followed by the owner's \<open>receiveAll\<close> hands over the messages that were waiting and those
  sent, in order: the array returned has exactly that many cells, all of them filled, no access
  leaves it, and no other handle is touched.
\<close>

lemma sendAll_receiveAll_roundtrip:
  assumes "rg_wf rg" and "has_mailbox a rg" and "hv_myThreadHandle hv = Some a"
    and "length (mailbox rg a) + length msgs \<le> 4294967250"
  shows "\<exists>rg1 hv' rg2. sendAll (Some a) msgs rg = Inr (msgs \<noteq> [], rg1) \<and>
    receiveAll False hv rg1 = Some (Inr (mailbox rg a @ msgs \<noteq> [], map Some (mailbox rg a @ msgs),
      of_nat (length (mailbox rg a @ msgs)), hv', rg2)) \<and>
    mailbox rg2 a = [] \<and> rg_wf rg2 \<and> (\<forall>b. b \<noteq> a \<longrightarrow> rg_handle rg2 b = rg_handle rg b)"
proof -
  obtain n where n: "node_at (rg_mem rg) a = Some n" using assms(2) by (rule has_mailboxE)
  obtain rg1 where 1: "send_loop (Some a) msgs False rg = Inr (msgs \<noteq> [], rg1)" "has_mailbox a rg1"
    "mailbox rg1 a = mailbox rg a @ msgs" "same_but a rg rg1"
    using send_loop_eq [OF assms(2), of msgs False] assms(4) by (auto simp: hqc_cap_def)
  obtain hv' rg2 where 2: "receiveAll False hv rg1 = Some (Inr (mailbox rg1 a \<noteq> [], map Some (mailbox rg1 a),
      of_nat (length (mailbox rg1 a)), hv', rg2))" "mailbox rg2 a = []" "same_but a rg1 rg2"
    using receiveAll_eq [OF 1(2) assms(3)] by blast
  have same: "same_but a rg rg2" using same_but_trans [OF 1(4) 2(3)] .
  have "rg_wf rg2"
    using same_but_frame(1) [OF same n] rg_wf_rep [OF assms(1)] rg_rep_wf by blast
  with 1 2 same_but_frame(2) [OF same n] n show ?thesis by (auto simp: sendAll_def)
qed

lemma sendAll_receiveAll_roundtrip_witness:
  "\<exists>b hv rg rg1 hv' rg2. hive_two = Inr (True, hv, rg) \<and> sendAll (Some b) [7, 8, 9] rg = Inr (True, rg1) \<and>
     receiveAll False hv rg1 = Some (Inr (True, [Some 7, Some 8, Some 9], 3, hv', rg2))"
proof -
  obtain a b hv rg where h: "hive_two = Inr (True, hv, rg)" "hv_myThreadHandle hv = Some b" "has_mailbox b rg"
    "mailbox rg b = []" "rg_rep [a, b] rg" using hive_two_ok .
  moreover have "\<exists>rg1 hv' rg2. sendAll (Some b) [7, 8, 9] rg = Inr (True, rg1) \<and>
      receiveAll False hv rg1 = Some (Inr (True, [Some 7, Some 8, Some 9], 3, hv', rg2))"
    using sendAll_receiveAll_roundtrip [of rg b hv "[7, 8, 9]"] rg_rep_wf [OF h(5)] h by auto
  ultimately show ?thesis by blast
qed

text \<open>\<open>addThread\<close> on a hive without a thread appends one handle, with the name given and an empty
  mailbox, to the registry and leaves the others as they are; on a hive that has a thread it
  changes nothing and returns false.
\<close>

lemma addThread_appends:
  assumes "rg_wf rg"
  shows "(hv_myThreadHandle hv \<noteq> None \<longrightarrow> addThread junk name cb ps hv rg = Inr (False, hv, rg)) \<and>
    (hv_myThreadHandle hv = None \<longrightarrow>
      (\<exists>b rg'. addThread junk name cb ps hv rg = Inr (True, hv\<lparr>hv_myThreadHandle := Some b\<rparr>, rg') \<and>
        rg_wf rg' \<and> b \<notin> set (rg_addrs rg) \<and> rg_addrs rg' = rg_addrs rg @ [b] \<and>
        th_threadName (rg_handle rg' b) = name \<and> has_mailbox b rg' \<and> mailbox rg' b = [] \<and>
        (\<forall>a\<in>set (rg_addrs rg). rg_handle rg' a = rg_handle rg a)))"
proof (intro conjI impI)
  assume none: "hv_myThreadHandle hv = None"
  note rep = rg_wf_rep [OF assms]
  obtain b rg' where b: "addThread junk name cb ps hv rg = Inr (True, hv\<lparr>hv_myThreadHandle := Some b\<rparr>, rg')"
    "b \<notin> set (rg_addrs rg)" "rg_rep (rg_addrs rg @ [b]) rg'" "th_threadName (rg_handle rg' b) = name"
    "\<forall>a\<in>set (rg_addrs rg). rg_handle rg' a = rg_handle rg a"
    using addThread_rep [OF rep none, of junk name cb ps] by (auto simp: mkThreadHandle_def)
  with rg_rep_wf [OF b(3)] new_mailbox [OF rep none b(1)]
  show "\<exists>b rg'. addThread junk name cb ps hv rg = Inr (True, hv\<lparr>hv_myThreadHandle := Some b\<rparr>, rg') \<and>
        rg_wf rg' \<and> b \<notin> set (rg_addrs rg) \<and> rg_addrs rg' = rg_addrs rg @ [b] \<and>
        th_threadName (rg_handle rg' b) = name \<and> has_mailbox b rg' \<and> mailbox rg' b = [] \<and>
        (\<forall>a\<in>set (rg_addrs rg). rg_handle rg' a = rg_handle rg a)" by auto
qed (auto simp: addThread_def)

lemma addThread_appends_witness:
  "\<exists>b rg'. addThread 0 ''main'' None None (hive_new :: nat hive) (registry_new :: (nat, unit) registry)
     = Inr (True, hive_new\<lparr>hv_myThreadHandle := Some b\<rparr>, rg') \<and> rg_addrs rg' = [b]"
proof -
  have "rg_wf (registry_new :: (nat, unit) registry)" "rg_addrs (registry_new :: (nat, unit) registry) = []"
    using rg_rep_wf [OF registry_new_rep] by blast+
  with addThread_appends [of "registry_new :: (nat, unit) registry" "hive_new :: nat hive" 0 "''main''" None None]
  show ?thesis by (auto simp: hive_new_def)
qed

text \<open>
  \<open>getThreadHandle\<close> always returns, with the first handle registered under the name, or null when
  there is none.
\<close>

lemma getThreadHandle_finds_first:
  assumes "rg_wf rg"
  shows "getThreadHandle name rg =
    Some (Inr (find (\<lambda>a. th_threadName (rg_handle rg a) = name) (rg_addrs rg)))"
  using getThreadHandle_eq [OF rg_wf_rep [OF assms]] .

lemma getThreadHandle_finds_first_witness:
  "\<exists>b hv rg. hive_two = Inr (True, hv, rg) \<and> hv_myThreadHandle hv = Some b \<and>
     getThreadHandle ''session'' rg = Some (Inr (Some b)) \<and> getThreadHandle ''other'' rg = Some (Inr None)"
proof -
  obtain a b hv rg where h: "hive_two = Inr (True, hv, rg)" "rg_rep [a, b] rg" "a \<noteq> b"
    "hv_myThreadHandle hv = Some b" "has_mailbox b rg" "mailbox rg b = []"
    "th_threadName (rg_handle rg a) = ''main''" "th_threadName (rg_handle rg b) = ''session''"
    using hive_two_ok .
  moreover have "getThreadHandle ''session'' rg = Some (Inr (Some b))" "getThreadHandle ''other'' rg = Some (Inr None)"
    using getThreadHandle_finds_first [of rg "''session''"] getThreadHandle_finds_first [of rg "''other''"]
      rg_rep_wf [OF h(2)] h by simp_all
  ultimately show ?thesis by blast
qed

text \<open>
  C26: The destructor of the last \<open>ThreadHive\<close> object that shares a handle takes exactly that handle out
  of the registry, wherever in the list it is, and deletes it; the rest of the registry, its count
  and both its ends stay consistent, and the search for the predecessor always ends.
\<close>

theorem hive_destroy_unregisters:
  assumes "rg_wf rg" and "hv_myThreadHandle hv = Some a" and "a \<in> set (rg_addrs rg)"
    and "th_shares (rg_handle rg a) = 1"
  shows "\<exists>rg'. hive_destroy hv rg = Some (Inr (hv\<lparr>hv_myThreadHandle := None\<rparr>, rg')) \<and> rg_wf rg' \<and>
    rg_addrs rg' = filter (\<lambda>b. b \<noteq> a) (rg_addrs rg) \<and> node_at (rg_mem rg') a = None \<and>
    (\<forall>b\<in>set (rg_addrs rg'). rg_handle rg' b = rg_handle rg b)"
proof -
  obtain us ws where split: "rg_addrs rg = us @ a # ws" using split_list [OF assms(3)] by blast
  note rep = rg_wf_rep [OF assms(1), unfolded split]
  obtain rg' where rg': "hive_destroy hv rg = Some (Inr (hv\<lparr>hv_myThreadHandle := None\<rparr>, rg'))"
    "rg_rep (us @ ws) rg'" "\<forall>b\<in>set (us @ ws). rg_handle rg' b = rg_handle rg b"
    using hive_destroy_last [OF rep assms(2,4)] by blast
  have d: "distinct (us @ a # ws)" using rep by (simp add: rg_rep_def)
  then have "filter (\<lambda>b. b \<noteq> a) (rg_addrs rg) = us @ ws" 
    unfolding split by (auto intro!: arg_cong2 [where f = append] filter_True)
  moreover have "node_at (rg_mem rg') a = None"
    using rg_rep_all_live [OF rg'(2)] d by fastforce
  ultimately show ?thesis using rg' rg_rep_wf [OF rg'(2)] by auto
qed

lemma hive_destroy_unregisters_witness:
  "\<exists>b hv rg rg'. hive_two = Inr (True, hv, rg) \<and> hv_myThreadHandle hv = Some b \<and>
     hive_destroy hv rg = Some (Inr (hv\<lparr>hv_myThreadHandle := None\<rparr>, rg')) \<and> node_at (rg_mem rg') b = None"
proof -
  obtain a b hv rg where h: "hive_two = Inr (True, hv, rg)" "rg_rep [a, b] rg" "a \<noteq> b"
    "hv_myThreadHandle hv = Some b" "has_mailbox b rg" "mailbox rg b = []"
    "th_threadName (rg_handle rg a) = ''main''" "th_threadName (rg_handle rg b) = ''session''"
    "th_shares (rg_handle rg b) = 1"
    using hive_two_ok .
  moreover from this obtain rg' where "hive_destroy hv rg = Some (Inr (hv\<lparr>hv_myThreadHandle := None\<rparr>, rg'))"
      "node_at (rg_mem rg') b = None"
    using hive_destroy_unregisters [of rg hv b] rg_rep_wf [OF h(2)] by auto
  ultimately show ?thesis by blast
qed

text \<open>
  C34: A handle starts with whatever its memory held as its number of shares, and \<open>addThread\<close> adds one to
  it: the destructor of the hive that registered it deletes the handle only if the memory happened
  to be zero; otherwise the handle stays registered, with the junk value as its count.
\<close>

theorem shares_start_uninitialised:
  assumes "rg_wf rg" and "addThread junk name cb ps hive_new rg = Inr (True, hv, rg1)"
  shows "\<exists>a hv' rg'. hv_myThreadHandle hv = Some a \<and> hive_destroy hv rg1 = Some (Inr (hv', rg')) \<and>
    rg_addrs rg' = (if junk = 0 then rg_addrs rg else rg_addrs rg @ [a]) \<and>
    (junk \<noteq> 0 \<longrightarrow> th_shares (rg_handle rg' a) = junk)"
proof -
  obtain a where a: "hv_myThreadHandle hv = Some a" "rg_rep (rg_addrs rg @ [a]) rg1"
    "th_shares (rg_handle rg1 a) = junk + 1"
    using addThread_rep [OF rg_wf_rep [OF assms(1)], of hive_new junk name cb ps] assms(2)
    by (auto simp: hive_new_def mkThreadHandle_def)
  show ?thesis
  proof (cases "junk = 0")
    case True
    with hive_destroy_last [of "rg_addrs rg" a "[]" rg1 hv] a rg_rep_addrs show ?thesis by fastforce
  next
    case False
    with hive_destroy_shared [OF a(2,1)] a rg_rep_addrs show ?thesis by fastforce
  qed
qed

lemma shares_start_uninitialised_witness:
  "\<exists>a hv rg1 hv' rg'. addThread 3452816845 ''leak'' None None (hive_new :: nat hive) (registry_new :: (nat, unit) registry)
      = Inr (True, hv, rg1) \<and>
     hive_destroy hv rg1 = Some (Inr (hv', rg')) \<and> rg_addrs rg' = [a]"
proof -
  have wf: "rg_wf (registry_new :: (nat, unit) registry)" "rg_addrs (registry_new :: (nat, unit) registry) = []"
    using rg_rep_wf [OF registry_new_rep] by blast+
  obtain hv rg1 where add: "addThread 3452816845 ''leak'' None None (hive_new :: nat hive) (registry_new :: (nat, unit) registry)
      = Inr (True, hv, rg1)"
    using addThread_rep [where rg = "registry_new :: (nat, unit) registry" and as = "[]" and hv = hive_new and
        junk = 3452816845 and name = "''leak''" and cb = None and ps = None] registry_new_rep
    by (auto simp: hive_new_def)
  from shares_start_uninitialised [OF wf(1) add] add wf(2) show ?thesis by auto
qed

end
