(* ===== verification/System_Mail.thy ===== *)
theory System_Mail
  imports Session_Life Hive_Messages
begin

text \<open>
  The messages of the whole program: a session's mailbox is a queue of its own. Only calls of the game add to
  it, at its end; only the session itself takes from it, and it takes the first message.
\<close>

section \<open>What the operations do to the mailboxes\<close>

lemma set_queue_mail:
  assumes "set_queue th q rg = Inr rg'" and "th \<noteq> Some b"
  shows "mailbox rg' b = mailbox rg b"
  using assms by (auto simp: set_queue_def assign_def bindE_Inr_iff deref_Inr_iff mailbox_def rg_handle_def payload_def split: if_splits)

lemma mailbox_assign:
  assumes "node_at (rg_mem rg) a = Some n" and "th_msgQueue n' = th_msgQueue n"
  shows "mailbox (rg\<lparr>rg_mem := (rg_mem rg)[a := Some n']\<rparr>) b = mailbox rg b"
  using assms node_at_less [OF assms(1)] by (auto simp: mailbox_def rg_handle_def payload_def)

lemma sendMsg_mail:
  assumes "rg_ok rg" and "sendMsg th msg rg = Inr (ok, rg')"
  shows "\<exists>a. th = Some a \<and> a \<in> set (rg_addrs rg) \<and> mailbox rg' a = mailbox rg a @ (if ok then [msg] else []) \<and>
    (\<forall>b. b \<noteq> a \<longrightarrow> mailbox rg' b = mailbox rg b)"
proof -
  from assms(2) obtain a n where n: "th = Some a" "node_at (rg_mem rg) a = Some n"
    by (auto simp: sendMsg_def queue_of_def bindE_Inr_iff deref_Inr_iff)
  have a: "a \<in> set (rg_addrs rg)" using rg_ok_live(1) [OF assms(1) n(2)] .
  then have box: "has_mailbox a rg" using assms(1) by (simp add: rg_ok_def)
  note sent = sendMsg_cases [OF box assms(2) [unfolded n(1)]]
  from n(1) a sent(2) same_but_frame(3) [OF sent(3) n(2)] show ?thesis by blast
qed

lemma receiveMsg_mail:
  assumes "rg_ok rg" and "receiveMsg blocking hv rg = Some (Inr (ok, msg, hv', rg'))"
  shows "\<exists>a. hv_myThreadHandle hv = Some a \<and> (\<forall>b. b \<noteq> a \<longrightarrow> mailbox rg' b = mailbox rg b) \<and>
    (mailbox rg' a = mailbox rg a \<or> (\<exists>m. hv_currentMsg hv' = Some m \<and> mailbox rg a = m # mailbox rg' a))"
proof -
  from assms(2) obtain b1 hv1 rg1 where "loadMsg hv rg = Inr (b1, hv1, rg1)"
    by (auto simp: receiveMsg_def split: if_splits sum.splits)
  then obtain a n where n: "hv_myThreadHandle hv = Some a" "node_at (rg_mem rg) a = Some n"
    by (auto simp: loadMsg_def queue_of_def bindE_Inr_iff deref_Inr_iff)
  have box: "has_mailbox a rg" using rg_ok_live(1) [OF assms(1) n(2)] assms(1) by (simp add: rg_ok_def)
  show ?thesis
  proof (cases "mailbox rg a")
    case Nil
    from receiveMsg_eq(1,2) [OF box n(1) Nil] assms(2) have "rg' = rg" by (cases blocking) auto
    with n(1) show ?thesis by simp
  next
    case (Cons m ms)
    from receiveMsg_eq(3) [OF box n(1) Cons, of blocking] assms(2)
    have r: "hv' = hv\<lparr>hv_currentMsg := Some m\<rparr>" "mailbox rg' a = ms" "same_but a rg rg'" by auto
    with n(1) Cons same_but_frame(3) [OF r(3) n(2)] show ?thesis by auto
  qed
qed

lemma loadMsg_mail: "loadMsg hv rg = Inr (ok, hv', rg') \<Longrightarrow> hv_myThreadHandle hv \<noteq> Some b \<Longrightarrow>
    mailbox rg' b = mailbox rg b \<and> hv_myThreadHandle hv' = hv_myThreadHandle hv"
  by (auto simp: loadMsg_def bindE_Inr_iff dest: set_queue_mail split: if_splits option.splits)

lemma drain_loop_mail:
  "drain_loop i messages hv rg = Inr (messages', hv', rg') \<Longrightarrow> hv_myThreadHandle hv \<noteq> Some b \<Longrightarrow>
    mailbox rg' b = mailbox rg b"
proof (induction i messages hv rg rule: drain_loop.induct)
  case (1 i messages hv rg)
  from 1(2) obtain ok hv1 rg1 where l: "loadMsg hv rg = Inr (ok, hv1, rg1)"
    by (subst (asm) drain_loop.simps) (auto simp: bindE_Inr_iff)
  note k = loadMsg_mail [OF l 1(3)]
  show ?case
  proof (cases ok)
    case True
    with 1(2) l obtain ms where s: "store messages i (hv_currentMsg hv1) = Inr ms"
      "drain_loop (i + 1) ms hv1 rg1 = Inr (messages', hv', rg')"
      by (subst (asm) drain_loop.simps) (auto simp: bindE_Inr_iff)
    from 1(1) [OF l refl refl True s] k 1(3) show ?thesis by simp
  next
    case False
    with 1(2) l k show ?thesis by (subst (asm) drain_loop.simps) auto
  qed
qed

lemma receiveAll_mail:
  assumes "receiveAll True hv rg = Some (Inr (ok, msgs, n, hv', rg'))" and "hv_myThreadHandle hv \<noteq> Some b"
  shows "mailbox rg' b = mailbox rg b"
proof -
  from assms(1) obtain ms hv1 rg1 where l: "loadMsg hv rg = Inr (True, hv1, rg1)" "drain_loop 1 ms hv1 rg1 = Inr (msgs, hv', rg')"
    by (auto simp: receiveAll_def bindE_Inr_iff Let_def split: sum.splits prod.splits if_splits)
  from loadMsg_mail [OF l(1) assms(2)] drain_loop_mail [OF l(2), of b] assms(2) show ?thesis by simp
qed

lemma spawnThread_mail: "spawnThread hv rg = Inr (ok, hv', rg') \<Longrightarrow> mailbox rg' b = mailbox rg b"
  by (auto simp: spawnThread_def assign_def bindE_Inr_iff deref_Inr_iff intro!: mailbox_assign)

lemma hive_finish_mail: "hive_finish r hv rg = Inr (hv', rg') \<Longrightarrow> mailbox rg' b = mailbox rg b"
  by (auto simp: hive_finish_def assign_def bindE_Inr_iff deref_Inr_iff intro!: mailbox_assign split: if_splits)

section \<open>The calls of the game\<close>

text \<open>The mailboxes in \<open>A\<close> hold what they held, \<open>M\<close>, with new messages after it.\<close>

definition grown :: "addr set \<Rightarrow> (addr \<Rightarrow> 'f amessage list) \<Rightarrow> ('f, 'w, 'con, 'st) server \<Rightarrow> bool" where
  "grown A M sv \<longleftrightarrow> rg_ok (wd_elem sv) \<and> A \<subseteq> set (rg_addrs (wd_elem sv)) \<and>
     (\<forall>a\<in>A. \<exists>new. mailbox (wd_elem sv) a = M a @ new)"

lemma onElem_grown:
  assumes "\<And>rg x rg'. rg_ok rg \<Longrightarrow> m rg = Inr (x, rg') \<Longrightarrow> rg_ok rg' \<and> set (rg_addrs rg) \<subseteq> set (rg_addrs rg') \<and>
    (\<forall>a\<in>set (rg_addrs rg). \<exists>new. mailbox rg' a = mailbox rg a @ new)"
  shows "triple (grown A M) (onElem m) (\<lambda>_. grown A M)"
  unfolding triple_def
proof (intro allI impI)
  fix sv x sv' assume g: "grown A M sv" and "onElem m sv = (Inr x, sv')"
  then obtain rg where r: "m (wd_elem sv) = Inr (x, rg)" "sv' = sv\<lparr>wd_elem := rg\<rparr>" by (auto simp: on_registry_Inr)
  from assms [OF _ r(1)] g have k: "rg_ok rg" "set (rg_addrs (wd_elem sv)) \<subseteq> set (rg_addrs rg)"
    "\<forall>a\<in>set (rg_addrs (wd_elem sv)). \<exists>new. mailbox rg a = mailbox (wd_elem sv) a @ new" by (simp_all add: grown_def)
  have "\<exists>new. mailbox rg a = M a @ new" if a: "a \<in> A" for a
  proof -
    from g a obtain n1 where "mailbox (wd_elem sv) a = M a @ n1" by (auto simp: grown_def)
    moreover from g a k(3) obtain n2 where "mailbox rg a = mailbox (wd_elem sv) a @ n2" unfolding grown_def by blast
    ultimately show ?thesis by simp
  qed
  with g k(1,2) show "grown A M sv'" by (auto simp: grown_def r(2))
qed

interpretation grown_kept: kept_by_calls "grown A M" for A M
proof unfold_locales
  show "triple (grown A M) (onElem (sendMsg th msg)) (\<lambda>_. grown A M)" for th msg
  proof (rule onElem_grown)
    fix rg :: "('a amessage, callback) registry" and ok rg' assume ok: "rg_ok rg" and s: "sendMsg th msg rg = Inr (ok, rg')"
    from sendMsg_mail [OF ok s] have "\<forall>a. \<exists>new. mailbox rg' a = mailbox rg a @ new" by (metis append_Nil2)
    with sendMsg_keeps [OF ok s] show "rg_ok rg' \<and> set (rg_addrs rg) \<subseteq> set (rg_addrs rg') \<and>
      (\<forall>a\<in>set (rg_addrs rg). \<exists>new. mailbox rg' a = mailbox rg a @ new)" by (simp add: rg_keeps_def)
  qed
  show "triple (grown A M) (onElem (\<lambda>rg. bindE (addThread junk name cb ps old rg) (\<lambda>(_, hv, rg). Inr (hv, rg)))) (\<lambda>_. grown A M)"
    for junk name cb ps old
  proof (rule onElem_grown)
    fix rg :: "('a amessage, callback) registry" and hv rg'
    assume ok: "rg_ok rg" and "bindE (addThread junk name cb ps old rg) (\<lambda>(_, hv, rg). Inr (hv, rg)) = Inr (hv, rg')"
    then obtain b where "addThread junk name cb ps old rg = Inr (b, hv, rg')" by (auto simp: bindE_Inr_iff)
    from addThread_ok [OF ok this] ok show "rg_ok rg' \<and> set (rg_addrs rg) \<subseteq> set (rg_addrs rg') \<and>
      (\<forall>a\<in>set (rg_addrs rg). \<exists>new. mailbox rg' a = mailbox rg a @ new)"
      by (auto simp: mailbox_def split: if_splits)
  qed
  show "triple (grown A M) (onElem (\<lambda>rg. bindE (spawnThread hv rg) (\<lambda>(_, hv, rg). Inr ((), rg)))) (\<lambda>_. grown A M)" for hv
  proof (rule onElem_grown)
    fix rg :: "('a amessage, callback) registry" and x rg'
    assume ok: "rg_ok rg" and "bindE (spawnThread hv rg) (\<lambda>(_, hv, rg). Inr ((), rg)) = Inr (x, rg')"
    then obtain b hv' where s: "spawnThread hv rg = Inr (b, hv', rg')" by (auto simp: bindE_Inr_iff)
    from spawnThread_keeps [OF ok s] spawnThread_mail [OF s] show "rg_ok rg' \<and> set (rg_addrs rg) \<subseteq> set (rg_addrs rg') \<and>
      (\<forall>a\<in>set (rg_addrs rg). \<exists>new. mailbox rg' a = mailbox rg a @ new)" by (simp add: rg_keeps_def)
  qed
qed (simp_all add: grown_def)

lemma call_mail:
  assumes "rg_ok (wd_elem sv)" and "RVExtension pf cl n call sv = (Inr out, sv')" and "a \<in> set (rg_addrs (wd_elem sv))"
  shows "\<exists>new. mailbox (wd_elem sv') a = mailbox (wd_elem sv) a @ new"
proof -
  have "grown (set (rg_addrs (wd_elem sv))) (mailbox (wd_elem sv)) sv" using assms(1) by (simp add: grown_def)
  from grown_kept.commands.parts.call_keeps [OF this assms(2)] assms(3) show ?thesis by (simp add: grown_def)
qed

text \<open>The sessions there are stay as they are.\<close>

interpretation roster_kept: kept_by_calls "\<lambda>sv :: ('f, 'w, 'con, 'st) server. \<exists>sss'. sv_spawned sv = sss @ sss'" for sss
  by unfold_locales (auto intro!: onElem_any)

lemma call_sessions:
  assumes "RVExtension pf cl n call sv = (Inr out, sv')"
  shows "\<exists>sss. sv_spawned sv' = sv_spawned sv @ sss"
  using roster_kept.commands.parts.call_keeps [OF _ assms, of "sv_spawned sv"] by simp

section \<open>The steps of the threads\<close>

text \<open>A session receives at three places, and only from its own mailbox.\<close>

lemma session_mail:
  assumes ok: "rg_ok (wd_elem wd)" and step: "session_step d cl ss wd = Some (Inr ss', wd')"
    and my: "hv_myThreadHandle (ss_hive ss) = Some a" and pc: "ss_pc ss \<notin> {PExit, PDone}"
  shows "hv_myThreadHandle (ss_hive ss') = Some a \<and> (\<forall>b. b \<noteq> a \<longrightarrow> mailbox (wd_elem wd') b = mailbox (wd_elem wd) b) \<and>
    (mailbox (wd_elem wd') a = mailbox (wd_elem wd) a \<or>
     ss_pc ss \<in> receiving \<and> inside (ss_pc ss') \<and>
       (\<exists>m. hv_currentMsg (ss_hive ss') = Some m \<and> mailbox (wd_elem wd) a = m # mailbox (wd_elem wd') a))"
proof (cases "ss_pc ss = PReturn")
  case True
  then obtain hv rg where r: "hive_finish True (ss_hive ss) (wd_elem wd) = Inr (hv, rg)" "wd_elem wd' = rg" "ss_hive ss' = hv"
    using step by (auto simp: session_step_def step_return_def goto_def split: sum.splits)
  from hive_finish_mail [OF r(1)] hive_finish_keeps [OF ok r(1)] my r(2,3) show ?thesis by simp
next
  case False
  with pc have pc: "ss_pc ss \<notin> {PReturn, PExit, PDone}" by simp
  show ?thesis
  proof (cases "ss_pc ss \<in> receiving")
    case True
    with session_step_kind [OF pc, of wd d cl] step obtain b ok1 msg where
      r: "receiveMsg b (ss_hive ss) (wd_elem wd) = Some (Inr (ok1, msg, ss_hive ss', wd_elem wd'))" "inside (ss_pc ss')"
      by (auto simp: takes_def)
    from receiveMsg_mail [OF ok r(1)] receiveMsg_keeps [OF ok r(1)] my True r(2) show ?thesis by auto
  next
    case False
    with session_step_kind [OF pc, of wd d cl] step my show ?thesis by (auto simp: still_def)
  qed
qed

lemma exit_mail:
  assumes "rg_ok (wd_elem wd)" and "session_step d cl ss wd = Some (Inr ss', wd')" and "ss_pc ss = PExit"
    and "b \<in> set (rg_addrs (wd_elem wd'))"
  shows "mailbox (wd_elem wd') b = mailbox (wd_elem wd) b"
proof -
  from assms(2,3) obtain hv where "hive_destroy (ss_hive ss) (wd_elem wd) = Some (Inr (hv, wd_elem wd'))"
    by (auto simp: session_step_def step_exit_def goto_def split: option.splits sum.splits)
  from hive_destroy_ok [OF assms(1) this] assms(4) show ?thesis by simp
qed

text \<open>The cleanup thread receives from the mailbox of its own object.\<close>

lemma cleanup_mail:
  assumes ok: "rg_ok (wd_elem sv)" and step: "cleanup_step d c sv = Some (Inr c', sv')"
    and b: "hv_myThreadHandle (cu_hive c) \<noteq> Some b" "b \<in> set (rg_addrs (wd_elem sv'))"
  shows "mailbox (wd_elem sv') b = mailbox (wd_elem sv) b"
proof (cases "cu_pc c")
  case CReceive
  with step obtain b1 ms k hv rg where r: "receiveAll True (cu_hive c) (wd_elem sv) = Some (Inr (b1, ms, k, hv, rg))" "wd_elem sv' = rg"
    by (auto simp: cleanup_step_def cleanup_receive_def cu_goto_def split: option.splits sum.splits if_splits)
  from receiveAll_mail [OF r(1) b(1)] r(2) show ?thesis by simp
next
  case CDelete
  with step have "cleanup_delete c sv = Some (Inr c', sv')" by (simp add: cleanup_step_def)
  from cleanup_delete_cases [OF this] consider "sv' = sv"
    | h hv rg where "hive_destroy h (wd_elem sv) = Some (Inr (hv, rg))" "wd_elem sv' = rg" by force
  then show ?thesis
  proof cases
    case 2
    from hive_destroy_ok [OF ok 2(1)] b(2) 2(2) show ?thesis by simp
  qed simp
qed (use step in \<open>auto simp: cleanup_step_def cleanup_start_def cleanup_ready_def cleanup_message_def cleanup_delete_output_def
    cu_goto_def split: option.splits sum.splits list.splits prod.splits if_splits\<close>)

lemma cleanup_hive: "cleanup_step d c sv = Some (Inr c', sv') \<Longrightarrow> rg_ok (wd_elem sv) \<Longrightarrow>
    hv_myThreadHandle (cu_hive c') = hv_myThreadHandle (cu_hive c) \<and> sv_cleanupThread sv' = sv_cleanupThread sv \<and>
    sv_spawned sv' = sv_spawned sv"
  by (cases "cu_pc c")
    (auto simp: cleanup_step_def cleanup_start_def cleanup_ready_def cleanup_receive_def cleanup_message_def cleanup_delete_def
      cleanup_delete_output_def cu_goto_def dest: receiveAll_keeps
      split: option.splits sum.splits list.splits prod.splits if_splits bool.splits)

section \<open>Every reachable state\<close>

text \<open>The cleanup thread runs on a copy of the static object; calls after the first leave that alone.\<close>

definition at_home :: "('f, 'w, 'con, 'st) config \<Rightarrow> bool" where
  "at_home = (\<lambda>(sv, cu). \<forall>c. cu = Some c \<longrightarrow> hv_myThreadHandle (cu_hive c) = hv_myThreadHandle (sv_cleanupThread sv))"

interpretation home_kept: kept_by_commands "\<lambda>sv. hv_myThreadHandle (sv_cleanupThread sv) = Some a" pf for a pf
proof unfold_locales
  let ?P = "\<lambda>sv. hv_myThreadHandle (sv_cleanupThread sv) = Some a"
  show "triple ?P (ext_start pf) (\<lambda>_. ?P)"
    by (auto simp: triple_def ext_start_def thenE_def getMyThreadHandle_def)
  show "triple ?P (ext_Connect pf msg n) (\<lambda>_. ?P)" for msg n
    by (auto simp: triple_def ext_Connect_def Let_def thenE_Inr_iff on_registry_Inr copy_output_def)
qed (auto intro!: onElem_any)

lemma session_step_rest:
  assumes "on_world (session_step d cl ss) sv = Some (Inr ss', sv')"
  shows "\<exists>wd'. session_step d cl ss (world.truncate sv) = Some (Inr ss', wd') \<and> wd_elem (world.truncate sv) = wd_elem sv \<and>
    wd_elem sv' = wd_elem wd' \<and> sv_cleanupThread sv' = sv_cleanupThread sv \<and> sv_ehives sv' = sv_ehives sv \<and>
    wd_str (world.truncate sv) = wd_str sv \<and> wd_str sv' = wd_str wd'"
  using assms by (cases sv) (auto simp: on_world_def world.defs)

lemma sys_reach_home: "sys_reach pf cl d x \<Longrightarrow> at_home x"
proof (induction rule: sys_reach.induct)
  case (reach_new w)
  show ?case by (simp add: at_home_def)
next
  case (reach_step x y)
  note ok = sys_reach_ok [OF reach_step(1)]
  from reach_step(2,3) ok show ?case
  proof (induction rule: sys_step.induct)
    case (step_call n call sv out sv' cu)
    show ?case
    proof (cases cu)
      case (Some c)
      with step_call(3) obtain a where "hv_myThreadHandle (sv_cleanupThread sv) = Some a" by (auto simp: sys_ok_def sv_started_def)
      with home_kept.parts.call_keeps [OF this step_call(1)] step_call(2) Some show ?thesis by (simp add: at_home_def)
    qed (simp add: at_home_def cleanup_new_def)
  next
    case (step_session i sv ss sv' cu)
    from session_step_rest [OF step_session(2)] step_session(3) show ?case by (auto simp: at_home_def)
  next
    case (step_cleanup_thread c sv c' sv')
    from step_cleanup_thread(3) have "rg_ok (wd_elem sv)" by (simp add: sys_ok_def sv_ok_def)
    from cleanup_hive [OF step_cleanup_thread(1) this] step_cleanup_thread(2) show ?case by (simp add: at_home_def)
  qed (simp add: at_home_def)
qed

text \<open>What one step of the program does to the mailbox of a session whose callback has not ended.\<close>

definition mail_after ::
  "('f, 'w, 'con, 'st) platform \<Rightarrow> 'w clib \<Rightarrow> ('f, 'w, 'con, 'st) server \<Rightarrow> ('f, 'w, 'con, 'st) server \<Rightarrow>
   'f session \<Rightarrow> 'f session \<Rightarrow> addr \<Rightarrow> bool" where
  "mail_after pf cl sv sv' ss ss' a \<longleftrightarrow> hv_myThreadHandle (ss_hive ss') = Some a \<and>
    (ss' = ss \<and> (\<exists>n call out new. RVExtension pf cl n call sv = (Inr out, sv') \<and> mailbox (wd_elem sv') a = mailbox (wd_elem sv) a @ new) \<or>
     mailbox (wd_elem sv') a = mailbox (wd_elem sv) a \<or>
     ss_pc ss \<in> receiving \<and> inside (ss_pc ss') \<and>
       (\<exists>m. hv_currentMsg (ss_hive ss') = Some m \<and> mailbox (wd_elem sv) a = m # mailbox (wd_elem sv') a))"

lemma sys_step_mail:
  assumes step: "sys_step pf cl d x y" and inv: "sv_counted (fst x)" "sv_counted (fst y)" "at_home x"
    and i: "i < length (sv_spawned (fst x))" "ss = sv_spawned (fst x) ! i" and pc: "ss_pc ss \<notin> {PExit, PDone}"
    and my: "hv_myThreadHandle (ss_hive ss) = Some a"
  shows "i < length (sv_spawned (fst y)) \<and> mail_after pf cl (fst x) (fst y) ss (sv_spawned (fst y) ! i) a"
  using step inv i
proof (induction rule: sys_step.cases)
  case (step_call n call sv out sv' cu)
  then have r: "RVExtension pf cl n call sv = (Inr out, sv')" and i: "i < length (sv_spawned sv)" "ss = sv_spawned sv ! i"
    and c: "sv_counted sv" by simp_all
  from call_sessions [OF r] i have same: "i < length (sv_spawned sv')" "sv_spawned sv' ! i = ss" by (auto simp: nth_append)
  from thread_handle [OF c i] pc my have a: "a \<in> set (rg_addrs (wd_elem sv))" by auto
  have "rg_ok (wd_elem sv)" using c countedD(1) unfolding sv_counted_def by blast
  from call_mail [OF this r a] same my r step_call(2) show ?case
    unfolding mail_after_def step_call(1,2) fst_conv by blast
next
  case (step_session j sv ss1 sv' cu)
  then have j: "j < length (sv_spawned sv)" and c: "sv_counted sv" and i: "i < length (sv_spawned sv)" "ss = sv_spawned sv ! i"
    and c': "sv_counted (sv'\<lparr>sv_spawned := (sv_spawned sv)[j := ss1]\<rparr>)"
    and s: "on_world (session_step d cl (sv_spawned sv ! j)) sv = Some (Inr ss1, sv')" by simp_all
  have ct: "counted (wd_elem sv) (obj_of sv) (map thread_of (sv_spawned sv)) (hv_myThreadHandle (sv_cleanupThread sv))"
    using c by (simp add: sv_counted_def)
  from session_step_rest [OF s] obtain wd' where f: "session_step d cl (sv_spawned sv ! j) (world.truncate sv) = Some (Inr ss1, wd')"
    "wd_elem (world.truncate sv) = wd_elem sv" "wd_elem sv' = wd_elem wd'" by blast
  have ok: "rg_ok (wd_elem (world.truncate sv))" using countedD(1) [OF ct] f(2) by simp
  have "mail_after pf cl sv (sv'\<lparr>sv_spawned := (sv_spawned sv)[j := ss1]\<rparr>) ss ((sv_spawned sv)[j := ss1] ! i) a"
  proof (cases "j = i")
    case True
    with session_mail [OF ok f(1)] i my pc show ?thesis by (auto simp: mail_after_def f(2,3))
  next
    case False
    then have same: "(sv_spawned sv)[j := ss1] ! i = ss" using i by simp
    have "ss_pc ss \<noteq> PDone" using pc by simp
    from thread_handle [OF c' _ _ this, of i] i same my have a: "a \<in> set (rg_addrs (wd_elem wd'))" using f(3) by auto
    have "mailbox (wd_elem wd') a = mailbox (wd_elem sv) a"
    proof (cases "ss_pc (sv_spawned sv ! j) = PExit")
      case True
      from exit_mail [OF ok f(1) True a] f(2) show ?thesis by simp
    next
      case other: False
      then have pj: "ss_pc (sv_spawned sv ! j) \<notin> {PExit, PDone}" using f(1) by (auto simp: session_step_def)
      from thread_handle [OF c j refl] pj obtain b where b: "hv_myThreadHandle (ss_hive (sv_spawned sv ! j)) = Some b" by auto
      have "b \<noteq> a" using countedD(3) [OF ct, of i j a] i j my b pc pj False by (auto simp: thread_of_def)
      with session_mail [OF ok f(1) b pj] f(2) show ?thesis by auto
    qed
    with my same f(3) show ?thesis by (simp add: mail_after_def)
  qed
  with i(1) show ?case using step_session(1,2) by simp
next
  case (step_cleanup_thread c sv c' sv')
  then have s: "cleanup_step d c sv = Some (Inr c', sv')" and ct: "sv_counted sv" and ct': "sv_counted sv'"
    and i: "i < length (sv_spawned sv)" "ss = sv_spawned sv ! i" and home: "at_home (sv, Some c)" by simp_all
  have cc: "counted (wd_elem sv) (obj_of sv) (map thread_of (sv_spawned sv)) (hv_myThreadHandle (sv_cleanupThread sv))"
    using ct by (simp add: sv_counted_def)
  note ok = countedD(1) [OF cc]
  note frame = cleanup_hive [OF s ok]
  have "Some a \<in> set (map thread_of (sv_spawned sv))" using i my pc by (force simp: thread_of_def)
  from countedD(5) [OF cc this] home have ne: "hv_myThreadHandle (cu_hive c) \<noteq> Some a" by (simp add: at_home_def)
  have "ss_pc ss \<noteq> PDone" using pc by simp
  from thread_handle [OF ct' _ _ this, of i] i frame my have a: "a \<in> set (rg_addrs (wd_elem sv'))" by auto
  from cleanup_mail [OF ok s ne a] my i frame step_cleanup_thread(1,2) show ?case by (simp add: mail_after_def)
next
  case (step_outside sv cu w)
  with my show ?case by (simp add: mail_after_def)
qed


end
