(* ===== verification/Session_Greeting.thy ===== *)
theory Session_Greeting
  imports System_Mail
begin

text \<open>
  A session that starts has a message: \<open>Connect\<close> sends it before the thread runs, and nobody else receives from
  that mailbox. So the first \<open>receiveMsg\<close> of \<open>mycallback\<close>, which does not wait, never comes back empty.
\<close>

definition greeted :: "('f, 'w, 'con, 'st) server \<Rightarrow> bool" where
  "greeted sv \<longleftrightarrow> (\<forall>ss\<in>set (sv_spawned sv). \<forall>a. ss_pc ss = PStart \<longrightarrow> hv_myThreadHandle (ss_hive ss) = Some a \<longrightarrow>
     mailbox (wd_elem sv) a \<noteq> [])"

definition counted_greeted :: "('f, 'w, 'con, 'st) platform \<Rightarrow> ('f, 'w, 'con, 'st) server \<Rightarrow> bool" where
  "counted_greeted pf sv \<longleftrightarrow> (pf_shares pf = 0 \<longrightarrow> sv_counted sv \<and> greeted sv)"

text \<open>More messages do no harm.\<close>

lemma grown_now: "sv_counted sv \<Longrightarrow> grown (set (rg_addrs (wd_elem sv))) (mailbox (wd_elem sv)) sv"
  using countedD(1) by (auto simp: sv_counted_def grown_def)

lemma greeted_grown:
  assumes c: "sv_counted sv" and g: "greeted sv" and "grown (set (rg_addrs (wd_elem sv))) (mailbox (wd_elem sv)) sv'"
    and ss: "ss \<in> set (sv_spawned sv)" "ss_pc ss = PStart" "hv_myThreadHandle (ss_hive ss) = Some a"
  shows "mailbox (wd_elem sv') a \<noteq> []"
proof -
  from ss(1) obtain i where i: "i < length (sv_spawned sv)" "ss = sv_spawned sv ! i" by (auto simp: in_set_conv_nth)
  from thread_handle [OF c i] ss(2,3) have "a \<in> set (rg_addrs (wd_elem sv))" by auto
  with assms(3) obtain new where "mailbox (wd_elem sv') a = mailbox (wd_elem sv) a @ new" unfolding grown_def by blast
  moreover have "mailbox (wd_elem sv) a \<noteq> []" using g ss by (simp add: greeted_def)
  ultimately show ?thesis by simp
qed

lemma greeted_kept:
  assumes "triple sv_counted m (\<lambda>_. sv_counted)" and "\<And>A M. triple (grown A M) m (\<lambda>_. grown A M)"
    and same: "\<And>sv x sv'. m sv = (Inr x, sv') \<Longrightarrow> sv_spawned sv' = sv_spawned sv"
    and inv: "sv_counted sv" "greeted sv" and m: "m sv = (Inr x, sv')"
  shows "sv_counted sv' \<and> greeted sv'"
proof
  show "sv_counted sv'" using tripleD [OF assms(1) inv(1) m] .
  have "grown (set (rg_addrs (wd_elem sv))) (mailbox (wd_elem sv)) sv'"
    using tripleD [OF assms(2) grown_now [OF inv(1)] m] .
  from greeted_grown [OF inv this] show "greeted sv'" unfolding greeted_def same [OF m] by blast
qed

lemma Connect_greeted:
  assumes inv: "sv_counted sv" "greeted sv" and c: "ext_Connect pf msg n sv = (Inr out, sv')"
  shows "greeted sv'"
proof -
  from c obtain name b1 hv rg1 b2 rg2 b3 hv3 rg3 where
    add: "addThread (pf_shares pf) name (Some Mycallback) None hive_new (wd_elem sv) = Inr (b1, hv, rg1)"
    and send: "sendMsg (getMyThreadHandle hv) msg rg1 = Inr (b2, rg2)" and spawn: "spawnThread hv rg2 = Inr (b3, hv3, rg3)"
    and sv': "wd_elem sv' = rg3" "sv_spawned sv' = sv_spawned sv @ [session_new (pf_act pf) hv]"
    by (auto simp: ext_Connect_def Let_def thenE_Inr_iff on_registry_Inr bindE_Inr_iff copy_output_def)
  have ok: "rg_ok (wd_elem sv)" using inv(1) countedD(1) unfolding sv_counted_def by blast
  from addThread_ok [OF ok add] obtain b where b: "hv_myThreadHandle hv = Some b" "rg_ok rg1" "b \<in> set (rg_addrs rg1)" "mailbox rg1 b = []"
    by (auto simp: hive_new_def)
  have "has_mailbox b rg1" using b(2,3) by (simp add: rg_ok_def)
  from sendMsg_eq [OF this, of msg] b(4) send b(1) have "mailbox rg2 b = [msg]" by (auto simp: hqc_cap_def getMyThreadHandle_def)
  then have new: "mailbox rg3 b \<noteq> []" using spawnThread_mail [OF spawn] by simp
  note old = greeted_grown [OF inv tripleD [OF grown_kept.Connect grown_now [OF inv(1)] c]]
  show ?thesis
    unfolding greeted_def
  proof (intro ballI allI impI)
    fix ss a assume "ss \<in> set (sv_spawned sv')" and ss: "ss_pc ss = PStart" "hv_myThreadHandle (ss_hive ss) = Some a"
    then consider "ss \<in> set (sv_spawned sv)" | "ss = session_new (pf_act pf) hv" by (auto simp: sv')
    then show "mailbox (wd_elem sv') a \<noteq> []"
    proof cases
      case 1
      from old [OF this ss] show ?thesis .
    next
      case 2
      with ss(2) b(1) have "a = b" by (simp add: session_new_def)
      with new show ?thesis by (simp add: sv')
    qed
  qed
qed

interpretation greeted_kept: kept_by_commands "counted_greeted pf" pf for pf
proof unfold_locales
  show "triple (counted_greeted pf) (ext_start pf) (\<lambda>_. counted_greeted pf)"
    unfolding triple_def
  proof (intro allI impI)
    fix sv :: "('a, 'b, 'c, 'd) server" and x sv' assume g: "counted_greeted pf sv" and s: "ext_start pf sv = (Inr x, sv')"
    have "triple sv_counted (ext_start pf) (\<lambda>_. sv_counted)" if "pf_shares pf = 0"
      using start_counted that by (auto simp: triple_def)
    moreover have "sv_spawned t' = sv_spawned t" if "ext_start pf t = (Inr y, t')" for t t' :: "('a, 'b, 'c, 'd) server" and y
      using that by (auto simp: ext_start_def thenE_Inr_iff on_registry_Inr split: if_splits)
    ultimately show "counted_greeted pf sv'"
      using greeted_kept [OF _ grown_kept.start _ _ _ s] g by (simp add: counted_greeted_def)
  qed
  show "triple (counted_greeted pf) (ext_Connect pf msg n) (\<lambda>_. counted_greeted pf)" for msg n
    using Connect_counted [of pf msg n] Connect_greeted unfolding triple_def counted_greeted_def by blast
  show "triple (counted_greeted pf) (onElem (sendMsg th msg)) (\<lambda>_. counted_greeted pf)" for th msg
    unfolding triple_def
  proof (intro allI impI)
    fix sv :: "('a, 'b, 'c, 'd) server" and x sv'
    assume g: "counted_greeted pf sv" and s: "onElem (sendMsg th msg) sv = (Inr x, sv')"
    have "sv_spawned t' = sv_spawned t" if "onElem (sendMsg th msg) t = (Inr y, t')" for t t' :: "('a, 'b, 'c, 'd) server" and y
      using that by (auto simp: on_registry_Inr)
    with greeted_kept [OF send_counted grown_kept.keep_sent _ _ _ s] g show "counted_greeted pf sv'"
      by (simp add: counted_greeted_def)
  qed
qed (simp_all add: counted_greeted_def counted_frame greeted_def)

text \<open>Every step of a session leaves the start behind, and the start of the others alone.\<close>

lemma session_step_inside:
  assumes "session_step d cl ss wd = Some (Inr ss', wd')"
  shows "ss_pc ss' \<noteq> PStart"
proof (cases "ss_pc ss \<in> {PReturn, PExit, PDone}")
  case True
  with assms show ?thesis
    by (auto simp: session_step_def step_return_def step_exit_def goto_def split: sum.splits option.splits)
next
  case False
  with session_step_kind [OF False, of wd d cl] assms show ?thesis
    by (auto simp: takes_def still_def inside_def split: if_splits)
qed

lemma sys_reach_greeted:
  assumes "pf_shares pf = 0"
  shows "sys_reach pf cl d x \<Longrightarrow> greeted (fst x)"
proof (induction rule: sys_reach.induct)
  case (reach_new w)
  show ?case by (simp add: greeted_def server_new_def)
next
  case (reach_step x y)
  have c: "sv_counted (fst x)" "sv_counted (fst y)"
    using sys_reach_counted [OF assms] reach_step(1,2) sys_reach.reach_step by metis+
  have old: "mailbox (wd_elem (fst y)) a \<noteq> []"
    if i: "i < length (sv_spawned (fst x))" "ss = sv_spawned (fst x) ! i" "sv_spawned (fst y) ! i = ss"
      and ss: "ss_pc ss = PStart" "hv_myThreadHandle (ss_hive ss) = Some a" for i ss a
  proof -
    have "mailbox (wd_elem (fst x)) a \<noteq> []" using reach_step(3) nth_mem [OF i(1)] i(2) ss by (simp add: greeted_def)
    moreover have "mail_after pf cl (fst x) (fst y) ss ss a"
      using sys_step_mail [OF reach_step(2) c sys_reach_home [OF reach_step(1)] i(1,2)] i(3) ss by simp
    ultimately show ?thesis using ss(1) by (auto simp: mail_after_def inside_def)
  qed
  show ?case
  proof (cases rule: sys_step.cases [OF reach_step(2)])
    case (1 n call sv out sv' cu)
    with reach_step(3) c(1) have "counted_greeted pf sv" by (simp add: counted_greeted_def)
    from greeted_kept.parts.call_keeps [OF this 1(3)] assms 1(2) show ?thesis by (simp add: counted_greeted_def)
  next
    case (2 j sv ss1 sv' cu)
    have moved: "ss_pc ss1 \<noteq> PStart" using session_step_inside session_step_rest [OF 2(4)] by blast
    show ?thesis
      unfolding greeted_def
    proof (intro ballI allI impI)
      fix ss a assume ss: "ss \<in> set (sv_spawned (fst y))" "ss_pc ss = PStart" "hv_myThreadHandle (ss_hive ss) = Some a"
      then obtain i where i: "i < length (sv_spawned sv)" "(sv_spawned sv)[j := ss1] ! i = ss"
        by (auto simp: 2(2) in_set_conv_nth)
      with moved ss(2) have "j \<noteq> i" by auto
      with i ss(2,3) old [of i ss a] show "mailbox (wd_elem (fst y)) a \<noteq> []" by (simp add: 2(1,2))
    qed
  next
    case (3 c1 sv c' sv')
    have "rg_ok (wd_elem sv)" using c(1) countedD(1) unfolding 3(1) sv_counted_def fst_conv by blast
    from cleanup_hive [OF 3(3) this] have "sv_spawned sv' = sv_spawned sv" by blast
    with old show ?thesis by (simp add: greeted_def 3(1,2) all_set_conv_all_nth)
  next
    case (4 sv cu w)
    with reach_step(3) show ?thesis by (simp add: greeted_def)
  qed
qed

end
