(* ===== verification/Session_Safety.thy ===== *)
theory Session_Safety
  imports Session_Greeting
begin

text \<open>
  What a session can crash on. Its mailbox stays registered because its handle counts its owners and is never
  empty at the start, its connections stay alive because the pool keeps what is in use, the handle it tells
  of its end stays under its name: of all the accesses to memory a session makes, three remain that can
  fail, each with its cause.
\<close>

section \<open>The calls on a connection\<close>

definition reported :: "failure set" where
  "reported = range Thrown \<union> range Ended"

lemma reported_simps [simp]: "Thrown e \<in> reported" "Ended msg \<in> reported" "Crashed x \<notin> reported"
  by (auto simp: reported_def)

lemma sql_reported: "sql_failures \<subseteq> reported" "{Thrown (StdException e) | e. True} \<subseteq> reported"
  by auto

text \<open>Calls that leave the connections alone and fail with an exception or the end of the process.\<close>

definition sure :: "('con, 'st) conns \<Rightarrow> (('con, 'st) conns \<times> 'w, 'a) eff \<Rightarrow> bool" where
  "sure mem m \<longleftrightarrow> (\<forall>w r mem' w'. m (mem, w) = (r, mem', w') \<longrightarrow> mem' = mem \<and> (\<forall>e. r = Inl e \<longrightarrow> e \<in> reported))"

named_theorems sure_intros \<open>calls of a session that do not crash\<close>

lemma sure_basic [sure_intros]: "sure mem (retE x)" "sure mem getE"
  by (simp_all add: sure_def getE_def)

lemma sure_pureE [sure_intros]: "(\<And>e. r = Inl e \<Longrightarrow> e \<in> reported) \<Longrightarrow> sure mem (pureE r)"
  by (simp add: sure_def pureE_def)

lemma sure_thenE [sure_intros]: "sure mem m \<Longrightarrow> (\<And>x. sure mem (f x)) \<Longrightarrow> sure mem (thenE m f)"
  unfolding sure_def thenE_def by (fastforce split: prod.splits sum.splits)

lemma sure_branch [sure_intros]: "sure mem m \<Longrightarrow> sure mem m' \<Longrightarrow> sure mem (if b then m else m')"
  by simp

lemma sure_split [sure_intros]: "(\<And>a b. sure mem (f a b)) \<Longrightarrow> sure mem (case x of (a, b) \<Rightarrow> f a b)"
  by (cases x) simp

definition live :: "('con, 'st) conns \<Rightarrow> addr option \<Rightarrow> bool" where
  "live mem c \<longleftrightarrow> (\<exists>a con. c = Some a \<and> node_at mem a = Some con \<and> sound_con con)"

lemma sure_withConn:
  assumes "live mem c" and "\<And>oc con. oc_con oc = Some con \<Longrightarrow> raises reported (f (Some oc))"
  shows "sure mem (withConn f c)"
proof -
  obtain a oc con where c: "c = Some a" "node_at mem a = Some (Some oc)" "oc_con oc = Some con"
    using assms(1) by (auto simp: live_def sound_con_def split: option.splits)
  from assms(2) [OF c(3)] have "f (Some oc) s = (Inl e, t) \<Longrightarrow> e \<in> reported" for s e t unfolding raises_def by blast
  then show ?thesis unfolding sure_def
    by (auto simp: c(1,2) withConn_def thenE_def getE_def pureE_def onSnd_def Let_def split: prod.splits)
qed

lemma raises_withAccount: "raises E m \<Longrightarrow> raises E (withAccount m act)"
  unfolding raises_def withAccount_def by (fastforce split: prod.splits sum.splits)

lemma raises_none: "raises {} m \<Longrightarrow> raises E m"
  by (erule raises_mono) simp

lemma thread_calls_raise: "raises reported (ThreadInit d (Some oc))" "raises reported (ThreadEnd d (Some oc))"
  unfolding ThreadInit_def ThreadEnd_def derefE_Some by (rule raises_callE [OF sql_reported(1)])+

lemma sure_calls [sure_intros]:
  assumes "live mem c"
  shows "sure mem (conn_ThreadInit d c)" "sure mem (conn_ThreadEnd d c)" "sure mem (conn_CommitData d c)"
    "sure mem (conn_CreateAccount d c name)" "sure mem (conn_GetAccount d c name act)" "sure mem (conn_CreateBanData d c name)"
    "sure mem (conn_GetBanData d c name act)" "sure mem (conn_WriteKills d c name n)" "sure mem (conn_WriteChickens d c name n)"
    "sure mem (conn_WriteAccount d c acc)" "sure mem (conn_WriteBanData d c acc)"
  unfolding conn_calls
  by (rule sure_withConn [OF assms];
      intro raises_withAccount thread_calls_raise raises_none [OF updates_raise_nothing(1)] raises_none [OF updates_raise_nothing(3)]
        raises_none [OF updates_raise_nothing(4)] raises_none [OF updates_raise_nothing(5)] raises_none [OF updates_raise_nothing(6)]
        raises_none [OF updates_raise_nothing(7)] raises_none [OF updates_raise_nothing(8)] raises_none [OF updates_raise_nothing(9)]
        raises_mono [OF GetBanData_raises sql_reported(2)]; assumption)+

lemma of_ad_reported: "of_ad r = Inl e \<Longrightarrow> r \<noteq> Inl EndDeref \<Longrightarrow> e \<in> reported"
  by (cases r rule: of_ad.cases) auto

lemma args_reported:
  "arg i x = Inl e \<Longrightarrow> e \<in> reported" "arg_string i x = Inl e \<Longrightarrow> e \<in> reported"
  "arg_signed i x = Inl e \<Longrightarrow> e \<in> reported" "arg_unsigned i x = Inl e \<Longrightarrow> e \<in> reported"
proof -
  have ends: "as_array y \<noteq> Inl EndDeref" "as_string y \<noteq> Inl EndDeref" "as_signed y \<noteq> Inl EndDeref" "as_unsigned y \<noteq> Inl EndDeref" for y :: "'f adata"
    by (simp_all add: as_array_def as_string_def as_signed_def as_unsigned_def AsType_error_def split: avalue.split)
  have arg: "arg i y = Inl e \<Longrightarrow> e \<in> reported" for i e and y :: "'f adata"
    using of_ad_reported [OF _ ends(1)] by (auto simp: arg_def bindE_Inl_iff split: if_splits)
  then show "arg i x = Inl e \<Longrightarrow> e \<in> reported" .
  show "arg_string i x = Inl e \<Longrightarrow> e \<in> reported" "arg_signed i x = Inl e \<Longrightarrow> e \<in> reported"
    "arg_unsigned i x = Inl e \<Longrightarrow> e \<in> reported"
    using arg of_ad_reported [OF _ ends(2)] of_ad_reported [OF _ ends(3)] of_ad_reported [OF _ ends(4)]
    by (auto simp: arg_string_def arg_signed_def arg_unsigned_def bindE_Inl_iff)
qed

lemma published_reported: "published x act = Inl e \<Longrightarrow> e \<in> reported"
  unfolding published_def using args_reported by (auto simp only: bindE_Inl_iff sum.distinct)

lemma load_account_sure:
  assumes "ss_stable ss \<Longrightarrow> live mem (ss_opflcon ss) \<and> live mem (ss_opflcon2 ss)"
  shows "sure mem (load_account d cl ss)"
proof (cases "ss_stable ss")
  case True
  with assms have "live mem (ss_opflcon ss)" "live mem (ss_opflcon2 ss)" by simp_all
  then show ?thesis unfolding load_account_def Let_def whenStable_def whenStableAct_def by (intro sure_intros)
next
  case False
  with load_account_unstable [OF False, of d cl] show ?thesis unfolding sure_def by (metis Pair_inject sum.distinct(1))
qed

lemma serve_sure:
  assumes "live mem (ss_opflcon ss)"
  shows "sure mem (serve d m ss)"
  unfolding serve_def Let_def using assms args_reported published_reported by (intro sure_intros)

lemma punish_account_sure:
  assumes "live mem (ss_opflcon2 ss)"
  shows "sure mem (punish_account d cl ss)"
  unfolding punish_account_def Let_def using assms by (intro sure_intros)

lemma w_conn_sure: "sure (wd_conns wd) m \<Longrightarrow> w_conn m wd = (r, wd') \<Longrightarrow> r \<noteq> Inl (Crashed e) \<and> wd_conns wd' = wd_conns wd"
  unfolding sure_def w_conn_def by (fastforce split: prod.splits)

section \<open>The steps\<close>

text \<open>What a session has of the rest of the program.\<close>

definition settled :: "'f session \<Rightarrow> ('f, 'w, 'con, 'st) world \<Rightarrow> bool" where
  "settled ss wd \<longleftrightarrow> rg_ok (wd_elem wd) \<and> rg_ok (wd_str wd) \<and> fit ss \<and>
     (\<forall>a. ss_pc ss = PStart \<longrightarrow> hv_myThreadHandle (ss_hive ss) = Some a \<longrightarrow> mailbox (wd_elem wd) a \<noteq> []) \<and>
     ''CLEANUP_O'' \<in> rg_name (wd_str wd) ` set (rg_addrs (wd_str wd)) \<and>
     (ss_pc ss \<noteq> PDone \<longrightarrow> (\<exists>a. hv_myThreadHandle (ss_hive ss) = Some a \<and> a \<in> set (rg_addrs (wd_elem wd)) \<and>
        (ss_pc ss \<noteq> PExit \<longrightarrow> th_hiveThread (rg_handle (wd_elem wd) a)))) \<and>
     (\<forall>c\<in>set (ss_uses ss). live (wd_conns wd) (Some c)) \<and> (ss_holds ss \<noteq> [] \<longrightarrow> wd_pool wd \<noteq> None) \<and>
     (\<forall>p. wd_pool wd = Some p \<longrightarrow> pool_ok conn_alive p (wd_conns wd, wd_out wd))"

text \<open>The crashes that are left.\<close>

definition crash_cause :: "'f session \<Rightarrow> ('f, 'w, 'con, 'st, 'z) world_scheme \<Rightarrow> mem_error \<Rightarrow> bool" where
  "crash_cause ss wd e \<longleftrightarrow>
     (case ss_pc ss of
        PBorrow \<Rightarrow> e = NullDeref \<and> wd_pool wd = None
      | PReport \<Rightarrow> e = NullDeref \<and> ss_outputName ss \<notin> rg_name (wd_str wd) ` set (rg_addrs (wd_str wd))
      | PEnd \<Rightarrow> e = NullDeref \<and> ss_opflcon ss = None
      | _ \<Rightarrow> False)"

definition crashes :: "('f, 'w, 'con, 'st) outcome \<Rightarrow> mem_error set" where
  "crashes r = {e. \<exists>wd'. r = Some (Inl (Crashed e), wd')}"

lemma crashes_simps [simp]:
  "crashes None = {}" "crashes (Some (Inr x, wd)) = {}" "crashes (goto p ss wd) = {}"
  "crashes (Some (Inl (Crashed e), wd)) = {e}" "crashes (Some (Inl (Thrown ex), wd)) = {}"
  "crashes (Some (Inl (Ended m), wd)) = {}"
  by (auto simp: crashes_def goto_def)

lemma crashes_conn: "sure (wd_conns wd) m \<Longrightarrow> crashes (Some (w_conn m wd)) = {}"
  using w_conn_sure [of wd m] by (fastforce simp: crashes_def)

text \<open>A handle that is registered can be read, and the rest of the program is as it was.\<close>

lemma crashes_receive:
  assumes "rg_ok (wd_elem wd)" and "hv_myThreadHandle (ss_hive ss) = Some a" and "a \<in> set (rg_addrs (wd_elem wd))"
    and "\<And>msg hv rg. (msg = None \<Longrightarrow> \<not> b \<and> mailbox (wd_elem wd) a = []) \<Longrightarrow>
      crashes (k msg (ss\<lparr>ss_hive := hv\<rparr>) (wd\<lparr>wd_elem := rg\<rparr>)) \<subseteq> E"
  shows "crashes (ss_receive b ss wd k) \<subseteq> E"
proof -
  have box: "has_mailbox a (wd_elem wd)" using assms(1,3) by (simp add: rg_ok_def)
  show ?thesis
  proof (cases "mailbox (wd_elem wd) a")
    case Nil
    then show ?thesis
      using receiveMsg_eq(1,2) [OF box assms(2)] assms(4) [of None "ss_hive ss" "wd_elem wd"]
      by (cases b) (simp_all add: ss_receive_def)
  next
    case (Cons m ms)
    obtain rg where "receiveMsg b (ss_hive ss) (wd_elem wd) = Some (Inr (True, Some m, (ss_hive ss)\<lparr>hv_currentMsg := Some m\<rparr>, rg))"
      using receiveMsg_eq(3) [OF box assms(2) Cons, of b] by blast
    with assms(4) [of "Some m"] show ?thesis by (simp add: ss_receive_def)
  qed
qed

lemma crashes_sent:
  assumes "rg_ok (wd_str wd)"
  shows "crashes (sent p ss (w_send name msg wd)) \<subseteq>
    {e. e = NullDeref \<and> name \<notin> rg_name (wd_str wd) ` set (rg_addrs (wd_str wd))}"
proof -
  have rep: "rg_rep (rg_addrs (wd_str wd)) (wd_str wd)" using assms rg_wf_rep [of "wd_str wd"] by (simp add: rg_ok_def)
  show ?thesis
  proof (cases "find (\<lambda>a. rg_name (wd_str wd) a = name) (rg_addrs (wd_str wd))")
    case None
    then show ?thesis using getThreadHandle_eq [OF rep, of name, unfolded rg_name_handle] None
      by (auto simp: w_send_def sent_def sendMsg_def queue_of_def deref_def find_None_iff)
  next
    case (Some a)
    then have "a \<in> set (rg_addrs (wd_str wd))" by (auto simp: find_Some_iff)
    then have "has_mailbox a (wd_str wd)" using assms by (simp add: rg_ok_def)
    from sendMsg_returns [OF this, of msg] obtain ok rg where "sendMsg (Some a) msg (wd_str wd) = Inr (ok, rg)" by blast
    then show ?thesis using getThreadHandle_eq [OF rep, of name, unfolded rg_name_handle] Some by (simp add: w_send_def sent_def)
  qed
qed

lemma settled_live:
  assumes "settled ss wd"
  shows "ss_opflcon ss = Some c \<Longrightarrow> ss_pc ss \<notin> {PReturn, PExit, PDone} \<Longrightarrow> live (wd_conns wd) (ss_opflcon ss)"
    and "ss_opflcon2 ss = Some c2 \<Longrightarrow> ss_pc ss \<notin> {PStop1, PCommit, PReturn, PExit, PDone} \<Longrightarrow> live (wd_conns wd) (ss_opflcon2 ss)"
    and "connected ss \<Longrightarrow> wd_pool wd \<noteq> None"
  using assms by (auto simp: settled_def ss_uses_def ss_holds_def connected_def)

lemma receive_steps_crash:
  assumes s: "settled ss wd"
  shows "ss_pc ss = PStart \<Longrightarrow> crashes (step_start ss wd) = {}"
    and "ss_pc ss = PPoll \<Longrightarrow> crashes (step_poll ss wd) = {}"
    and "ss_pc ss = PServe \<Longrightarrow> crashes (step_serve d ss wd) = {}"
proof -
  have rg: "rg_ok (wd_elem wd)" using s by (simp add: settled_def)
  {
    assume pc: "ss_pc ss = PStart"
    then obtain a where a: "hv_myThreadHandle (ss_hive ss) = Some a" "a \<in> set (rg_addrs (wd_elem wd))"
      and first: "mailbox (wd_elem wd) a \<noteq> []" using s by (auto simp: settled_def)
    have "crashes (step_start ss wd) \<subseteq> {}"
      unfolding step_start_def using first
      by (intro crashes_receive [OF rg a]) (auto simp: crashes_def bindE_Inl_iff dest!: args_reported split: option.splits)
    then show "crashes (step_start ss wd) = {}" by simp
  }
  {
    assume pc: "ss_pc ss = PPoll"
    then obtain a where a: "hv_myThreadHandle (ss_hive ss) = Some a" "a \<in> set (rg_addrs (wd_elem wd))"
      using s by (auto simp: settled_def)
    have "crashes (step_poll ss wd) \<subseteq> {}"
      unfolding step_poll_def by (intro crashes_receive [OF rg a]) simp
    then show "crashes (step_poll ss wd) = {}" by simp
  }
  {
    assume pc: "ss_pc ss = PServe"
    then obtain a where a: "hv_myThreadHandle (ss_hive ss) = Some a" "a \<in> set (rg_addrs (wd_elem wd))"
      and "connected ss" using s by (auto simp: settled_def fit_def ready_def)
    then have "live (wd_conns wd) (ss_opflcon ss)" using settled_live(1) [OF s] pc by (auto simp: connected_def)
    then have "crashes (Some (w_conn (serve d m (ss\<lparr>ss_hive := hv\<rparr>)) (wd\<lparr>wd_elem := rg\<rparr>))) = {}" for m hv rg
      by (intro crashes_conn serve_sure) simp
    then have "crashes (step_serve d ss wd) \<subseteq> {}"
      unfolding step_serve_def by (intro crashes_receive [OF rg a]) (auto split: option.split)
    then show "crashes (step_serve d ss wd) = {}" by simp
  }
qed

lemma borrow_steps_crash:
  assumes s: "settled ss wd"
  shows "ss_pc ss = PBorrow \<Longrightarrow> crashes (step_borrow d ss wd) \<subseteq> {e. crash_cause ss wd e}"
    and "ss_pc ss = PBorrow2 \<Longrightarrow> crashes (step_borrow2 d ss wd) = {}"
proof -
  have b: "\<exists>e. w_borrow d wd = (Inl (Thrown e), wd')" if r: "w_borrow d wd = (Inl f, wd')" and po: "wd_pool wd \<noteq> None" for f wd'
  proof -
    obtain p where p: "wd_pool wd = Some p" "pool_ok conn_alive p (wd_conns wd, wd_out wd)"
      using po s by (auto simp: settled_def)
    with r obtain p' s' where "borrow (factory_create d mysql_connection_factory) (conn_destroy d) (wd_refs wd)
        (p, (wd_conns wd, wd_out wd)) = (Inl f, (p', s'))"
      by (auto simp: w_borrow_def split: prod.splits)
    from opfl.borrow_cases [OF p(2) this] r show ?thesis by auto
  qed
  {
    assume pc: "ss_pc ss = PBorrow"
    show "crashes (step_borrow d ss wd) \<subseteq> {e. crash_cause ss wd e}"
    proof (cases "wd_pool wd")
      case None
      with pc show ?thesis by (simp add: step_borrow_def w_borrow_def crash_cause_def)
    next
      case (Some p)
      with b show ?thesis
        by (cases "w_borrow d wd"; cases "fst (w_borrow d wd)") (fastforce simp: step_borrow_def)+
    qed
  }
  {
    assume pc: "ss_pc ss = PBorrow2"
    then have "wd_pool wd \<noteq> None" using s by (auto simp: settled_def fit_def ready_def ss_holds_def)
    with b show "crashes (step_borrow2 d ss wd) = {}"
      by (cases "w_borrow d wd"; cases "fst (w_borrow d wd)") (fastforce simp: step_borrow2_def)+
  }
qed

lemma account_steps_crash:
  assumes s: "settled ss wd"
  shows "ss_pc ss = PSetup \<Longrightarrow> crashes (step_setup d cl ss wd) = {}"
    and "ss_pc ss = PPunish \<Longrightarrow> crashes (step_punish d cl ss wd) = {}"
proof -
  assume pc: "ss_pc ss = PSetup"
  have "live (wd_conns wd) (ss_opflcon ss) \<and> live (wd_conns wd) (ss_opflcon2 ss)" if "ss_stable ss"
  proof -
    have "connected ss" using that s pc by (simp add: settled_def fit_def ready_def)
    then show ?thesis using settled_live(1,2) [OF s] pc by (auto simp: connected_def)
  qed
  from w_conn_sure [OF load_account_sure [OF this], of d cl] show "crashes (step_setup d cl ss wd) = {}"
    by (cases "w_conn (load_account d cl ss) wd"; cases "fst (w_conn (load_account d cl ss) wd)")
      (auto simp: step_setup_def crashes_def goto_def)
next
  assume pc: "ss_pc ss = PPunish"
  then have "connected ss" using s by (simp add: settled_def fit_def ready_def)
  then have "live (wd_conns wd) (ss_opflcon2 ss)" using settled_live(2) [OF s] pc by (auto simp: connected_def)
  from w_conn_sure [OF punish_account_sure [OF this], of d cl] show "crashes (step_punish d cl ss wd) = {}"
    by (cases "w_conn (punish_account d cl ss) wd"; cases "fst (w_conn (punish_account d cl ss) wd)")
      (auto simp: step_punish_def crashes_def goto_def split: prod.split)
qed

lemma w_conn_then_sure:
  assumes "sure (wd_conns wd) m" and "\<And>wd' x. wd_conns wd' = wd_conns wd \<Longrightarrow> wd_pool wd' = wd_pool wd \<Longrightarrow> fst (f x wd') \<noteq> Inl (Crashed e)"
  shows "fst (thenE (w_conn m) f wd) \<noteq> Inl (Crashed e)"
proof (cases "w_conn m wd")
  case (Pair r wd')
  have "wd_pool wd' = wd_pool wd" using Pair by (auto simp: w_conn_def split: prod.splits)
  with w_conn_sure [OF assms(1) Pair, of e] assms(2) [of wd'] Pair show ?thesis by (cases r) (auto simp: thenE_def)
qed

lemma leaving_steps_crash:
  fixes wd :: "('f, 'w, 'con, 'st) world"
  assumes s: "settled ss wd"
  shows "ss_pc ss = PInit \<Longrightarrow> crashes (step_init d ss wd) = {}"
    and "ss_pc ss = PStop2 \<Longrightarrow> crashes (step_stop2 d ss wd) = {}"
    and "ss_pc ss = PStop1 \<Longrightarrow> crashes (step_stop1 ss wd) = {}"
    and "ss_pc ss = PGive2 \<Longrightarrow> crashes (step_give2 ss wd) = {}"
    and "ss_pc ss = PCommit \<Longrightarrow> crashes (step_commit d ss wd) = {}"
    and "ss_pc ss = PEnd \<Longrightarrow> crashes (step_end d ss wd) \<subseteq> {e. crash_cause ss wd e}"
proof -
  have conn: "\<exists>c c2. ss_opflcon ss = Some c \<and> ss_opflcon2 ss = Some c2" "wd_pool wd \<noteq> None" "live (wd_conns wd) (ss_opflcon ss)"
    if "ss_pc ss \<in> {PInit, PStop2, PStop1, PGive2, PCommit}"
  proof -
    have "connected ss" using that s by (auto simp: settled_def fit_def ready_def)
    then show "\<exists>c c2. ss_opflcon ss = Some c \<and> ss_opflcon2 ss = Some c2" "wd_pool wd \<noteq> None"
      using settled_live(3) [OF s] by (auto simp: connected_def)
    then show "live (wd_conns wd) (ss_opflcon ss)" using settled_live(1) [OF s] that by auto
  qed
  have given: "fst (w_unborrow c wd') \<noteq> Inl (Crashed e)" if "c \<noteq> None" "wd_pool wd' \<noteq> None" for c e and wd' :: "('f, 'w, 'con, 'st) world"
    using that by (auto simp: w_unborrow_def)
  note c = conn(3) [THEN sure_calls(1)] conn(3) [THEN sure_calls(2)] conn(3) [THEN sure_calls(3)]
  {
    assume pc: "ss_pc ss = PInit"
    with c(1) have "sure (wd_conns wd) (conn_ThreadInit d (ss_opflcon ss))" by simp
    from w_conn_sure [OF this] show "crashes (step_init d ss wd) = {}"
      by (cases "w_conn (conn_ThreadInit d (ss_opflcon ss)) wd")
        (auto simp: step_init_def crashes_def goto_def split: sum.split failure.split)
  }
  {
    assume pc: "ss_pc ss = PStop2"
    have "fst (thenE (w_conn (conn_ThreadEnd d (ss_opflcon ss))) (\<lambda>_. w_unborrow (ss_opflcon2 ss)) wd) \<noteq> Inl (Crashed e)" for e
      using pc conn(1,2) by (intro w_conn_then_sure c given) auto
    then have "\<forall>e. fst (thenE (w_conn (conn_ThreadEnd d (ss_opflcon ss))) (\<lambda>_. w_unborrow (ss_opflcon2 ss)) wd) \<noteq> Inl (Crashed e)"
      by blast
    then show "crashes (step_stop2 d ss wd) = {}" by (auto simp: step_stop2_def crashes_def goto_def split: prod.splits sum.splits)
  }
  {
    assume pc: "ss_pc ss = PCommit"
    have "fst (thenE (w_conn (conn_ThreadEnd d (ss_opflcon ss))) (\<lambda>_. w_conn (conn_CommitData d (ss_opflcon ss))) wd) \<noteq> Inl (Crashed e)" for e
    proof (intro w_conn_then_sure c)
      fix wd' :: "('f, 'w, 'con, 'st) world" assume "wd_conns wd' = wd_conns wd"
      with c(3) [of d] pc have "sure (wd_conns wd') (conn_CommitData d (ss_opflcon ss))" by simp
      from w_conn_sure [OF this] show "fst (w_conn (conn_CommitData d (ss_opflcon ss)) wd') \<noteq> Inl (Crashed e)"
        by (cases "w_conn (conn_CommitData d (ss_opflcon ss)) wd'") auto
    qed (use pc in simp)
    then have "\<forall>e. fst (thenE (w_conn (conn_ThreadEnd d (ss_opflcon ss))) (\<lambda>_. w_conn (conn_CommitData d (ss_opflcon ss))) wd) \<noteq> Inl (Crashed e)"
      by blast
    then show "crashes (step_commit d ss wd) = {}" by (auto simp: step_commit_def crashes_def goto_def split: prod.splits sum.splits)
  }
  {
    assume "ss_pc ss = PStop1"
    with conn(1,2) show "crashes (step_stop1 ss wd) = {}" by (auto simp: step_stop1_def w_unborrow_def)
  }
  {
    assume "ss_pc ss = PGive2"
    with conn(1,2) show "crashes (step_give2 ss wd) = {}" by (auto simp: step_give2_def w_unborrow_def)
  }
  {
    assume pc: "ss_pc ss = PEnd"
    show "crashes (step_end d ss wd) \<subseteq> {e. crash_cause ss wd e}"
    proof (cases "ss_opflcon ss")
      case None
      with pc show ?thesis
        by (auto simp: step_end_def w_conn_def conn_ThreadEnd_def withConn_def thenE_def getE_def pureE_def crashes_def crash_cause_def
            deref_def goto_def)
    next
      case (Some c)
      with settled_live(1) [OF s Some] pc have "live (wd_conns wd) (ss_opflcon ss)" by simp
      from w_conn_sure [OF sure_calls(2) [OF this], of d] show ?thesis
        by (cases "w_conn (conn_ThreadEnd d (ss_opflcon ss)) wd") (auto simp: step_end_def crashes_def goto_def split: sum.splits)
    qed
  }
qed

lemma end_steps_crash:
  assumes s: "settled ss wd"
  shows "ss_pc ss = PReturn \<Longrightarrow> crashes (step_return ss wd) = {}"
    and "ss_pc ss = PExit \<Longrightarrow> crashes (step_exit ss wd) = {}"
proof -
  have rg: "rg_ok (wd_elem wd)" using s by (simp add: settled_def)
  {
    assume "ss_pc ss = PReturn"
    then obtain a where a: "hv_myThreadHandle (ss_hive ss) = Some a" "a \<in> set (rg_addrs (wd_elem wd))"
      "th_hiveThread (rg_handle (wd_elem wd) a)" using s by (auto simp: settled_def)
    obtain n where "node_at (rg_mem (wd_elem wd)) a = Some n" using rg a(2) by (auto simp: rg_ok_def has_mailbox_def)
    with a show "crashes (step_return ss wd) = {}"
      by (simp add: step_return_def hive_finish_def rg_handle_def payload_def)
  }
  {
    assume "ss_pc ss = PExit"
    then obtain a where a: "hv_myThreadHandle (ss_hive ss) = Some a" "a \<in> set (rg_addrs (wd_elem wd))"
      using s by (auto simp: settled_def)
    from hive_destroy_cases [OF rg a] show "crashes (step_exit ss wd) = {}" by (auto simp: step_exit_def)
  }
qed

lemma session_step_crash:
  assumes s: "settled ss wd" and e: "e \<in> crashes (session_step d cl ss wd)"
  shows "crash_cause ss wd e"
proof -
  have "rg_ok (wd_str wd)" and named: "''CLEANUP_O'' \<in> rg_name (wd_str wd) ` set (rg_addrs (wd_str wd))"
    using s by (simp_all add: settled_def)
  note sent = crashes_sent [OF this(1), THEN subsetD]
  show ?thesis
    using e receive_steps_crash(1,2) [OF s] receive_steps_crash(3) [OF s, of d] borrow_steps_crash [OF s, of d]
      account_steps_crash [OF s, of d cl] leaving_steps_crash [OF s] end_steps_crash [OF s]
    by (cases "ss_pc ss") (use named in \<open>auto dest!: sent simp: session_step_def step_report_def step_cleanup_def Let_def crash_cause_def\<close>)
qed

section \<open>Every reachable state\<close>

lemma sys_reach_settled:
  assumes reach: "sys_reach pf cl d (sv, cu)" and "pf_shares pf = 0" and i: "i < length (sv_spawned sv)"
  shows "settled (sv_spawned sv ! i) (world.truncate sv)"
proof -
  let ?ss = "sv_spawned sv ! i" and ?wd = "world.truncate sv"
  have same: "wd_elem ?wd = wd_elem sv" "wd_str ?wd = wd_str sv" "wd_pool ?wd = wd_pool sv" "wd_conns ?wd = wd_conns sv"
    "wd_out ?wd = wd_out sv"
    by (simp_all add: world.defs)
  have ss: "?ss \<in> set (sv_spawned sv)" using i by simp
  have ok: "rg_ok (wd_elem sv)" "rg_ok (wd_str sv)" using sys_reach_ok [OF reach] by (simp_all add: sys_ok_def sv_ok_def)
  have "fit ?ss" using sys_reach_fit [OF reach] ss by (simp add: all_fit_def)
  have counted: "sv_counted sv" using sys_reach_counted [OF assms(2) reach] by simp
  have lends: "wd_lends sv (sv_spawned sv)" using sys_reach_lends [OF reach] by (simp add: sys_lends_def)
  have held: "wd_pool sv \<noteq> None" if "ss_holds ?ss \<noteq> []"
  proof -
    have "concat (map ss_holds (sv_spawned sv)) \<noteq> []" using that ss by auto
    then show ?thesis using lends by (cases "wd_pool sv") (simp_all add: lends_ok_def)
  qed
  have pool: "pool_ok conn_alive p (wd_conns sv, wd_out sv)" "set (concat (map ss_uses (sv_spawned sv))) \<subseteq> set (cp_borrowed p)"
    if "wd_pool sv = Some p" for p
    using that lends pool_ok_outside [of p "wd_conns sv" "wd_out sv"] by (simp_all add: lends_ok_def)
  have "live (wd_conns sv) (Some c)" if c: "c \<in> set (ss_uses ?ss)" for c
  proof -
    have "ss_holds ?ss \<noteq> []" using c uses_holds [of ?ss] by auto
    with held obtain p where p: "wd_pool sv = Some p" by auto
    have "c \<in> set (cp_borrowed p)" using pool(2) [OF p] c ss by auto
    then have "c \<in> conn_alive (wd_conns sv, wd_out sv)" using pool(1) [OF p] by (auto simp: pool_ok_def)
    then show ?thesis by (auto simp: conn_alive_def live_def)
  qed
  moreover have "mailbox (wd_elem sv) a \<noteq> []" if "ss_pc ?ss = PStart" "hv_myThreadHandle (ss_hive ?ss) = Some a" for a
    using sys_reach_greeted [OF assms(2) reach] ss that by (simp add: greeted_def)
  moreover have "''CLEANUP_O'' \<in> rg_name (wd_str sv) ` set (rg_addrs (wd_str sv))"
  proof -
    have "sv_started sv" using sys_reach_ok [OF reach] ss by (auto simp: sys_ok_def sv_fresh_def split: if_splits)
    then obtain a where a: "hv_myThreadHandle (sv_threadState sv) = Some a" by (auto simp: sv_started_def)
    then have "a \<in> set (rg_addrs (wd_str sv))" "rg_name (wd_str sv) a = ''CLEANUP_O''"
      using sys_reach_ok [OF reach] by (auto simp: sys_ok_def sv_ok_def readers_def)
    then show ?thesis by force
  qed
  ultimately show ?thesis
    using ok \<open>fit ?ss\<close> held pool(1) thread_handle [OF counted i refl] unfolding settled_def same by blast
qed



end
