(* ===== verification/Text_Handles.thy ===== *)
theory Text_Handles
  imports Handle_Count System_Lending
begin

text \<open>
  The handles of the texts: every object the game reads from has a handle of its own in the registry of texts
  and is its only owner, and every object of either kind has a handle. Sessions and the cleanup thread only send
  to these handles; the cleanup thread deletes an object together with its handle.
\<close>

definition out_of :: "('f, 'w, 'con, 'st) server \<Rightarrow> u64 \<Rightarrow> addr option" where
  "out_of sv x = Option.bind (sv_shives sv x) hv_myThreadHandle"

definition texts_ok :: "('f, 'w, 'con, 'st) server \<Rightarrow> bool" where
  "texts_ok sv \<longleftrightarrow> counted (wd_str sv) (out_of sv) [] None \<and>
     (\<forall>x h. sv_shives sv x = Some h \<longrightarrow> hv_myThreadHandle h \<noteq> None) \<and>
     (\<forall>x h. sv_ehives sv x = Some h \<longrightarrow> hv_myThreadHandle h \<noteq> None)"

lemma texts_frame:
  "texts_ok (sv\<lparr>wd_elem := e\<rparr>) = texts_ok sv" "texts_ok (sv\<lparr>sv_threadState := s\<rparr>) = texts_ok sv"
  "texts_ok (sv\<lparr>sv_dllState := s\<rparr>) = texts_ok sv" "texts_ok (sv\<lparr>sv_spawned := ss\<rparr>) = texts_ok sv"
  "texts_ok (sv\<lparr>sv_cleanupThread := s', sv_thrdname := name\<rparr>) = texts_ok sv" "texts_ok (sv\<lparr>wd_out := w\<rparr>) = texts_ok sv"
  by (simp_all add: texts_ok_def out_of_def [abs_def])

section \<open>The calls of the game\<close>

text \<open>Messages change no handle and no owner.\<close>

lemma texts_str:
  assumes "texts_ok sv" and "rg_ok (wd_str sv) \<Longrightarrow> rg_keeps (wd_str sv) rg" and "owns_of rg = owns_of (wd_str sv)"
  shows "texts_ok (sv\<lparr>wd_str := rg\<rparr>)"
proof -
  have c: "counted (wd_str sv) (out_of sv) [] None" using assms(1) by (simp add: texts_ok_def)
  have "counted rg (out_of sv) [] None" using counted_same [OF c assms(2) [OF countedD(1) [OF c]]] assms(3) by simp
  then show ?thesis using assms(1) by (simp add: texts_ok_def out_of_def [abs_def])
qed

lemma onStr_texts:
  fixes m :: "(string, callback) registry \<Rightarrow> mem_error + 'x \<times> (string, callback) registry"
  assumes "\<And>rg x rg'. m rg = Inr (x, rg') \<Longrightarrow> (rg_ok rg \<longrightarrow> rg_keeps rg rg') \<and> owns_of rg' = owns_of rg"
  shows "triple (texts_ok :: ('f, 'w, 'con, 'st) server \<Rightarrow> bool) (onStr m) (\<lambda>_. texts_ok)"
  unfolding triple_def
proof (intro allI impI)
  fix sv :: "('f, 'w, 'con, 'st) server" and x sv'
  assume inv: "texts_ok sv" and "onStr m sv = (Inr x, sv')"
  then obtain rg where r: "m (wd_str sv) = Inr (x, rg)" "sv' = sv\<lparr>wd_str := rg\<rparr>" by (auto simp: on_registry_Inr)
  from texts_str [OF inv, of rg] assms [OF r(1)] show "texts_ok sv'" by (simp add: r(2))
qed

lemma onElem_texts: "triple texts_ok (onElem m) (\<lambda>_. texts_ok)"
  by (rule onElem_any) (simp add: texts_frame)

lemma state_updates_texts:
  "triple texts_ok (updE (\<lambda>sv. sv\<lparr>sv_threadState := hv\<rparr>)) (\<lambda>_. texts_ok)"
  "triple texts_ok (updE (\<lambda>sv. sv\<lparr>sv_dllState := hv'\<rparr>)) (\<lambda>_. texts_ok)"
  "triple texts_ok (updE (\<lambda>sv. sv\<lparr>sv_cleanupThread := hv'', sv_thrdname := name\<rparr>)) (\<lambda>_. texts_ok)"
  by (simp_all add: triple_def texts_frame)

lemma reads_texts:
  "triple texts_ok (onStr (\<lambda>rg. bindE (promptE (receiveAll False hv rg)) (\<lambda>(ok, allOut, n, hv, rg). Inr ((ok, allOut, hv), rg))))
     (\<lambda>_. texts_ok)"
  "triple texts_ok (onStr (\<lambda>rg. bindE (promptE (receiveMsg False hv rg)) (\<lambda>(ok, msg, hv, rg). Inr ((msg, hv), rg))))
     (\<lambda>_. texts_ok)"
proof -
  show "triple texts_ok (onStr (\<lambda>rg. bindE (promptE (receiveAll False hv rg)) (\<lambda>(ok, allOut, n, hv, rg). Inr ((ok, allOut, hv), rg))))
     (\<lambda>_. texts_ok)"
    by (rule onStr_texts) (auto simp: bindE_Inr_iff promptE_def dest: receiveAll_keeps receiveAll_owns split: option.splits)
  show "triple texts_ok (onStr (\<lambda>rg. bindE (promptE (receiveMsg False hv rg)) (\<lambda>(ok, msg, hv, rg). Inr ((msg, hv), rg))))
     (\<lambda>_. texts_ok)"
    by (rule onStr_texts) (auto simp: bindE_Inr_iff promptE_def dest: receiveMsg_keeps(1) receiveMsg_owns split: option.splits)
qed

lemma GetState_texts: "triple texts_ok (ext_GetState n) (\<lambda>_. texts_ok)"
  and GetDllState_texts: "triple texts_ok (ext_GetDllState n) (\<lambda>_. texts_ok)"
  unfolding ext_GetState_def ext_GetDllState_def by (intro triple_frame reads_texts state_updates_texts)+

lemma GetOutput_texts: "triple texts_ok (ext_GetOutput msg n) (\<lambda>_. texts_ok)"
  unfolding triple_def
proof (intro allI impI)
  fix sv :: "('a, 'b, 'c, 'd) server" and out sv'
  assume inv: "texts_ok sv" and "ext_GetOutput msg n sv = (Inr out, sv')"
  then obtain a h sv1 where ah: "sv_shives sv a = Some h" and
    sv': "thenE (onStr (\<lambda>rg. bindE (promptE (receiveMsg False h rg)) (\<lambda>(ok, msg, hv, rg). Inr ((msg, hv), rg)))) (\<lambda>(out, hv).
       thenE (updE (\<lambda>sv. sv\<lparr>sv_shives := (sv_shives sv)(a := Some hv)\<rparr>)) (\<lambda>_.
         copy_output n (case out of None \<Rightarrow> [] | Some s \<Rightarrow> s))) sv = (Inr out, sv')"
    by (auto simp: ext_GetOutput_def thenE_Inr_iff [of "pureE _"] thenE_Inr_iff [of "fetchE _"] fetchE_def split: option.splits)
  then obtain ok m hv rg where r: "receiveMsg False h (wd_str sv) = Some (Inr (ok, m, hv, rg))"
    "sv' = sv\<lparr>wd_str := rg, sv_shives := (sv_shives sv)(a := Some hv)\<rparr>"
    by (auto simp: thenE_Inr_iff onStr_def promptE_def copy_output_def bindE_Inr_iff split: sum.splits option.splits)
  have ok: "rg_ok (wd_str sv)" using inv countedD(1) unfolding texts_ok_def by blast
  note keeps = receiveMsg_keeps [OF ok r(1)]
  from texts_str [OF inv keeps(1) receiveMsg_owns [OF r(1)]] have t: "texts_ok (sv\<lparr>wd_str := rg\<rparr>)" .
  have "out_of sv' = out_of (sv\<lparr>wd_str := rg\<rparr>)" by (rule ext) (simp add: out_of_def r(2) keeps(2) ah)
  with t keeps(2) inv ah show "texts_ok sv'" by (auto simp: texts_ok_def r(2))
qed

text \<open>New handles leave the others alone.\<close>

lemma counted_added:
  assumes c: "counted rg obj [] None" and add: "addThread junk name cb ps hv rg = Inr (b1, hv', rg')"
  shows "counted rg' obj [] None"
proof (cases "hv_myThreadHandle hv = None")
  case True
  from addThread_owns [OF countedD(1) [OF c] add True] countedD(2,4) [OF c] show ?thesis
    by (intro countedI) auto
next
  case False
  with add c show ?thesis by (simp add: addThread_def)
qed

lemma counted_object_added:
  assumes c: "counted rg obj [] None" and add: "addThread 0 name cb ps hive_new rg = Inr (b1, hv, rg')"
  shows "hv_myThreadHandle hv \<noteq> None \<and> counted rg' (obj(x := hv_myThreadHandle hv)) [] None"
proof -
  obtain b where b: "b \<notin> set (rg_addrs rg)" "hv_myThreadHandle hv = Some b" "rg_ok rg'" "rg_addrs rg' = rg_addrs rg @ [b]"
    "owns_of rg' b = (1, False)" "\<forall>a\<in>set (rg_addrs rg). owns_of rg' a = owns_of rg a"
    using addThread_owns [OF countedD(1) [OF c] add] by (auto simp: hive_new_def)
  have old: "obj y \<noteq> Some b" for y using countedD(4) [OF c, of y b] b(1) by auto
  have "counted rg' (obj(x := Some b)) [] None"
    using b old countedD(2,4) [OF c] by (intro countedI) (auto split: if_splits)
  with b(2) show ?thesis by simp
qed

lemma start_texts: "triple texts_ok (ext_start pf) (\<lambda>_. texts_ok)"
proof -
  have "triple texts_ok (onStr (\<lambda>rg. bindE (addThread junk name cb ps hv rg) (\<lambda>(_, hv, rg). Inr (hv, rg)))) (\<lambda>_. texts_ok)"
    for junk name cb ps hv
    by (auto simp: triple_def on_registry_Inr bindE_Inr_iff texts_ok_def out_of_def [abs_def] dest: counted_added)
  then show ?thesis unfolding ext_start_def by (intro triple_frame onElem_texts state_updates_texts)
qed

lemma Connect_texts:
  assumes "pf_shares pf = 0"
  shows "triple texts_ok (ext_Connect pf msg n) (\<lambda>_. texts_ok)"
  unfolding triple_def
proof (intro allI impI)
  fix sv :: "('a, 'b, 'c, 'd) server" and out sv'
  assume inv: "texts_ok sv" and "ext_Connect pf msg n sv = (Inr out, sv')"
  then obtain x y name b1 h rg1 oname b2 hv rg2 where
    input: "addThread 0 name (Some Mycallback) None hive_new (wd_elem sv) = Inr (b1, h, rg1)"
    and add: "addThread 0 oname None None hive_new (wd_str sv) = Inr (b2, hv, rg2)"
    and sv': "wd_str sv' = rg2" "sv_shives sv' = (sv_shives sv)(y := Some hv)" "sv_ehives sv' = (sv_ehives sv)(x := Some h)"
    using assms by (auto simp: ext_Connect_def Let_def thenE_Inr_iff on_registry_Inr bindE_Inr_iff copy_output_def)
  have c: "counted (wd_str sv) (out_of sv) [] None" using inv by (simp add: texts_ok_def)
  have "hv_myThreadHandle h \<noteq> None" using input by (auto simp: addThread_def hive_new_def bindE_Inr_iff assign_def deref_Inr_iff)
  moreover have "out_of sv' = (out_of sv)(y := hv_myThreadHandle hv)" by (rule ext) (simp add: out_of_def sv')
  ultimately show "texts_ok sv'" using counted_object_added [OF c add, of y] inv by (auto simp: texts_ok_def sv')
qed

lemma triple_under: "(b \<Longrightarrow> triple P m (\<lambda>_. P)) \<Longrightarrow> triple (\<lambda>sv. b \<longrightarrow> P sv) m (\<lambda>_ sv. b \<longrightarrow> P sv)"
  unfolding triple_def by blast

interpretation texts_kept: kept_by_parts "\<lambda>sv. pf_shares pf = 0 \<longrightarrow> texts_ok sv" pf for pf
  by unfold_locales
    (rule triple_under, (rule start_texts GetState_texts GetDllState_texts GetOutput_texts onElem_texts | erule Connect_texts))+

section \<open>The threads\<close>

text \<open>A session sends to the registry of texts and does nothing else there.\<close>

lemma sent_texts_ok:
  assumes "texts_ok sv" and "sent_text (wd_str sv) (wd_str sv')" and "sv_shives sv' = sv_shives sv" and "sv_ehives sv' = sv_ehives sv"
  shows "texts_ok sv'"
proof -
  have "owns_of (wd_str sv') = owns_of (wd_str sv)" using assms(2) sendMsg_owns by (auto simp: sent_text_def)
  from texts_str [OF assms(1) sent_text_keeps [OF assms(2)] this] assms(3,4) show ?thesis
    by (simp add: texts_ok_def out_of_def [abs_def])
qed

lemma cleanup_step_texts:
  assumes inv: "texts_ok sv" and step: "cleanup_step d c sv = Some (Inr c', sv')"
  shows "texts_ok sv'"
proof (cases "cu_pc c")
  case CReady
  with step obtain th ok rg where r: "sendMsg th ''+1'' (wd_str sv) = Inr (ok, rg)" "sv' = sv\<lparr>wd_str := rg\<rparr>"
    by (auto simp: cleanup_step_def cleanup_ready_def cu_goto_def split: option.splits sum.splits prod.splits)
  with sent_texts_ok [OF inv, of sv'] show ?thesis by (auto simp: sent_text_def)
next
  case CDelete
  with step have "cleanup_delete c sv = Some (Inr c', sv')" by (simp add: cleanup_step_def)
  from cleanup_delete_cases [OF this] inv show ?thesis
    by (auto simp: texts_ok_def out_of_def [abs_def] split: if_splits)
next
  case CDeleteOutput
  with step obtain x h hv rg where r: "sv_shives sv x = Some h" "hive_destroy h (wd_str sv) = Some (Inr (hv, rg))"
    "sv' = sv\<lparr>wd_str := rg, sv_shives := (sv_shives sv)(x := None)\<rparr>"
    by (auto simp: cleanup_step_def cleanup_delete_output_def cu_goto_def split: list.splits option.splits sum.splits prod.splits)
  have "counted (wd_str sv) (out_of sv) [] None" using inv by (simp add: texts_ok_def)
  from counted_object_gone [OF this r(2), of x] have "counted rg ((out_of sv)(x := None)) [] None" by (simp add: out_of_def r(1))
  moreover have "out_of sv' = (out_of sv)(x := None)" by (rule ext) (simp add: out_of_def r(3))
  ultimately show ?thesis using inv by (simp add: texts_ok_def r(3))
qed (use inv step in \<open>auto simp: cleanup_step_def cleanup_start_def cleanup_receive_def cleanup_message_def cu_goto_def
    texts_ok_def out_of_def [abs_def] split: option.splits sum.splits list.splits prod.splits if_splits\<close>)

lemma sys_step_texts:
  assumes "pf_shares pf = 0"
  shows "sys_step pf cl d x y \<Longrightarrow> texts_ok (fst x) \<Longrightarrow> texts_ok (fst y)"
proof (induction rule: sys_step.induct)
  case (step_call n call sv out sv' cu)
  with assms texts_kept.call_keeps [of pf sv] show ?case by auto
next
  case (step_session i sv ss sv' cu)
  from step_session(2) obtain wd' where f: "session_step d cl (sv_spawned sv ! i) (world.truncate sv) = Some (Inr ss, wd')"
    "sv' = world.extend wd' (world.more sv)"
    by (auto simp: on_world_def)
  have "sent_text (wd_str sv) (wd_str sv') \<and> sv_shives sv' = sv_shives sv \<and> sv_ehives sv' = sv_ehives sv"
    using session_step_keeps [OF f(1)] by (cases sv) (simp add: f(2) world.defs wd_keeps_def)
  with sent_texts_ok step_session(3) have "texts_ok sv'" by auto
  then show ?case by (simp add: texts_frame)
next
  case (step_cleanup_thread c sv c' sv')
  then show ?case using cleanup_step_texts by auto
next
  case (step_outside sv cu w)
  then show ?case by (simp add: texts_frame)
qed

lemma sys_reach_texts:
  assumes "pf_shares pf = 0"
  shows "sys_reach pf cl d x \<Longrightarrow> texts_ok (fst x)"
proof (induction rule: sys_reach.induct)
  case (reach_new w)
  show ?case by (simp add: server_new_def texts_ok_def counted_def out_of_def rg_ok_new)
next
  case (reach_step c c')
  then show ?case by (rule_tac sys_step_texts [OF assms])
qed

end
