(* ===== verification/Program_Safety.thy ===== *)
theory Program_Safety
  imports Session_Safety Text_Handles Cleanup_Props
begin

text \<open>
  The rest of the program beside the sessions: a call of the game whose text is complete and which names only
  objects that exist does not crash, and neither does the cleanup thread while the commits it is sent name
  such objects. Together with \<^verbatim>\<open>Session_Safety\<close> these are all the threads there are.
\<close>

section \<open>Calls that do not crash\<close>

definition uncrashed :: "('s \<Rightarrow> bool) \<Rightarrow> ('s, 'a) eff \<Rightarrow> bool" where
  "uncrashed P m \<longleftrightarrow> (\<forall>s e t. P s \<longrightarrow> m s = (Inl e, t) \<longrightarrow> e \<in> reported)"

lemma uncrashedD: "uncrashed P m \<Longrightarrow> P s \<Longrightarrow> fst (m s) \<noteq> Inl (Crashed e)"
  by (cases "m s") (auto simp: uncrashed_def)

lemma uncrashed_then:
  "uncrashed P m \<Longrightarrow> triple P m Q \<Longrightarrow> (\<And>x. uncrashed (Q x) (f x)) \<Longrightarrow> uncrashed P (thenE m f)"
  unfolding uncrashed_def triple_def by (auto simp: thenE_def split: prod.splits sum.splits)

lemma uncrashed_seq:
  "uncrashed P m \<Longrightarrow> triple P m (\<lambda>_. P) \<Longrightarrow> (\<And>x. uncrashed P (f x)) \<Longrightarrow> uncrashed P (thenE m f)"
  by (rule uncrashed_then)

lemma uncrashed_plain: "uncrashed P (retE x)" "uncrashed P getE" "uncrashed P (updE g)" "uncrashed P (copy_output n out)"
  by (auto simp: uncrashed_def getE_def copy_output_def pureE_def split: if_splits)

lemma uncrashed_pure: "(\<And>e. r = Inl e \<Longrightarrow> e \<in> reported) \<Longrightarrow> uncrashed P (pureE r)"
  by (simp add: uncrashed_def pureE_def)

lemma uncrashed_pureE_then:
  "(\<And>e. r = Inl e \<Longrightarrow> e \<in> reported) \<Longrightarrow> (\<And>x. r = Inr x \<Longrightarrow> uncrashed P (f x)) \<Longrightarrow> uncrashed P (thenE (pureE r) f)"
  by (cases r) (auto simp: uncrashed_def thenE_def pureE_def)

lemma uncrashed_getE_then: "(\<And>sv. P sv \<Longrightarrow> uncrashed (\<lambda>s. s = sv) (f sv)) \<Longrightarrow> uncrashed P (thenE getE f)"
  by (auto simp: uncrashed_def thenE_def getE_def)

lemma uncrashed_state: "(\<And>sv. P sv \<Longrightarrow> uncrashed (\<lambda>s. s = sv) m) \<Longrightarrow> uncrashed P m"
  by (auto simp: uncrashed_def)

lemma arg_address_reported:
  fixes x :: "'f adata"
  shows "arg_address i x = Inl e \<Longrightarrow> e \<in> reported"
proof -
  have "as_address y \<noteq> Inl EndDeref" for y :: "'f adata" by (simp add: as_address_def AsType_error_def split: avalue.split)
  note addr = of_ad_reported [OF _ this]
  assume "arg_address i x = Inl e"
  then consider "arg i x = Inl e" | y where "of_ad (as_address (y :: 'f adata)) = Inl e" by (auto simp: arg_address_def bindE_Inl_iff)
  then show "e \<in> reported" using args_reported(1) addr by cases blast+
qed

lemma as_array_reported: "of_ad (as_array x) = Inl e \<Longrightarrow> e \<in> reported"
  using of_ad_reported [of "as_array x" e] by (auto simp: as_array_def AsType_error_def split: avalue.splits)

text \<open>What a call finds: the invariants, and the objects of the sessions.\<close>

definition regular :: "(u64 \<Rightarrow> 'f amessage hive option) \<Rightarrow> ('f, 'w, 'con, 'st) server \<Rightarrow> bool" where
  "regular E sv \<longleftrightarrow> sv_run sv \<and> sv_counted sv \<and> texts_ok sv \<and> sv_ehives sv = E"

lemma regular_send: "triple (regular E) (onElem (sendMsg th msg)) (\<lambda>_. regular E)"
proof -
  have "triple (\<lambda>sv. sv_ehives sv = E) (onElem (sendMsg th msg)) (\<lambda>_ sv. sv_ehives sv = E)"
    by (auto simp: triple_def on_registry_Inr)
  then show ?thesis
    using send_run [of th msg] send_counted [of th msg] onElem_texts [of "sendMsg th msg"] unfolding triple_def regular_def by blast
qed

lemma regular_handles:
  assumes "regular E sv"
  shows "rg_ok (wd_elem sv)" and "rg_ok (wd_str sv)"
    and "E x = Some h \<Longrightarrow> \<exists>a. hv_myThreadHandle h = Some a \<and> a \<in> set (rg_addrs (wd_elem sv))"
    and "sv_shives sv y = Some h' \<Longrightarrow> \<exists>a. hv_myThreadHandle h' = Some a \<and> a \<in> set (rg_addrs (wd_str sv))"
    and "\<exists>a. hv_myThreadHandle (sv_cleanupThread sv) = Some a \<and> a \<in> set (rg_addrs (wd_elem sv))"
proof -
  have c: "counted (wd_elem sv) (obj_of sv) (map thread_of (sv_spawned sv)) (hv_myThreadHandle (sv_cleanupThread sv))"
    and t: "counted (wd_str sv) (out_of sv) [] None" using assms by (simp_all add: regular_def sv_counted_def texts_ok_def)
  show "rg_ok (wd_elem sv)" "rg_ok (wd_str sv)" using countedD(1) [OF c] countedD(1) [OF t] .
  show "E x = Some h \<Longrightarrow> \<exists>a. hv_myThreadHandle h = Some a \<and> a \<in> set (rg_addrs (wd_elem sv))"
    using countedD(4) [OF c, of x] assms by (fastforce simp: regular_def texts_ok_def obj_of_def)
  show "sv_shives sv y = Some h' \<Longrightarrow> \<exists>a. hv_myThreadHandle h' = Some a \<and> a \<in> set (rg_addrs (wd_str sv))"
    using countedD(4) [OF t, of y] assms by (fastforce simp: regular_def texts_ok_def out_of_def)
  show "\<exists>a. hv_myThreadHandle (sv_cleanupThread sv) = Some a \<and> a \<in> set (rg_addrs (wd_elem sv))"
    using countedD(6) [OF c] assms by (auto simp: regular_def sv_started_def)
qed

section \<open>The commands\<close>

lemma uncrashed_send:
  assumes "\<And>sv. P sv \<Longrightarrow> rg_ok (wd_elem sv) \<and> (\<exists>a. th = Some a \<and> a \<in> set (rg_addrs (wd_elem sv)))"
  shows "uncrashed P (onElem (sendMsg th msg))"
  unfolding uncrashed_def
proof (intro allI impI)
  fix sv e t assume P: "P sv" and r: "onElem (sendMsg th msg) sv = (Inl e, t)"
  from assms [OF P] obtain a where a: "th = Some a" "has_mailbox a (wd_elem sv)" by (auto simp: rg_ok_def)
  from sendMsg_returns [OF a(2), of msg] r show "e \<in> reported" by (auto simp: a(1) onElem_def)
qed

lemma PublishData_uncrashed:
  assumes "\<And>a. arg_address 0 (am_data msg) = Inr a \<Longrightarrow> E a \<noteq> None"
  shows "uncrashed (regular E) (PublishData msg)"
  unfolding PublishData_def
proof (intro uncrashed_pureE_then arg_address_reported)
  fix a assume "arg_address 0 (am_data msg) = Inr a"
  with assms obtain h where h: "E a = Some h" by blast
  let ?k = "\<lambda>inputThread. thenE (onElem (sendMsg (getMyThreadHandle inputThread) msg)) (\<lambda>_. retE True)"
  have "uncrashed (regular E) (?k h)"
    using regular_handles(1,3) h
    by (intro uncrashed_seq uncrashed_send regular_send uncrashed_plain) (auto simp: getMyThreadHandle_def)
  moreover have "thenE (fetchE (\<lambda>sv. sv_ehives sv a)) ?k sv = ?k h sv" if "regular E sv" for sv
    using that h by (simp add: regular_def fetchE_def thenE_def)
  ultimately show "uncrashed (regular E) (thenE (fetchE (\<lambda>sv. sv_ehives sv a)) ?k)" unfolding uncrashed_def by metis
qed

lemma regular_PublishData: "triple (regular E) (PublishData msg) (\<lambda>_. regular E)"
  unfolding PublishData_def by (intro triple_frame regular_send)

text \<open>The message for a session has the array of the element, so the same address.\<close>

lemma wrapped_address:
  assumes "of_ad (as_array it) = Inr data"
  shows "arg_address i (ad_SetDataProtection True (snd (ad_SetData (VArray data) ad_new))) = arg_address i it"
proof -
  have "of_ad (as_array (ad_SetDataProtection True (snd (ad_SetData (VArray data) ad_new)))) = Inr data"
    by (simp add: as_array_def ad_SetDataProtection_def ad_SetData_def Let_def)
  with assms show ?thesis by (simp add: arg_address_def arg_def)
qed

lemma commit_loop_uncrashed:
  fixes E :: "u64 \<Rightarrow> 'f amessage hive option"
  defines "R \<equiv> regular E :: ('f, 'w, 'con, 'st) server \<Rightarrow> bool"
  shows "(\<And>j a. j \<in> set es \<Longrightarrow> arg_address 0 j = Inr a \<Longrightarrow> E a \<noteq> None) \<Longrightarrow>
    uncrashed R (commit_loop es) \<and> triple R (commit_loop es) (\<lambda>_. R)"
proof (induction es)
  case Nil
  show ?case unfolding commit_loop.simps by (intro conjI uncrashed_plain triple_plain)
next
  case (Cons it es)
  have "uncrashed R (commit_loop es) \<and> triple R (commit_loop es) (\<lambda>_. R)"
    by (rule Cons.IH) (rule Cons.prems [OF list.set_intros(2)])
  then have rest: "uncrashed R (commit_loop es)" "triple R (commit_loop es) (\<lambda>_. R)" by simp_all
  let ?msg = "\<lambda>data. am_new\<lparr>am_name := ''Commit'', am_data := ad_SetDataProtection True (snd (ad_SetData (VArray data) ad_new))\<rparr>"
  have published: "triple R (PublishData msg) (\<lambda>_. R)" for msg unfolding R_def by (rule regular_PublishData)
  have "uncrashed R (PublishData (?msg data))" if "of_ad (as_array it) = Inr data" for data
    unfolding R_def using Cons.prems [OF list.set_intros(1)] wrapped_address [OF that] by (intro PublishData_uncrashed) simp
  then have "uncrashed R (thenE (PublishData (?msg data)) (\<lambda>_. commit_loop es))" if "of_ad (as_array it) = Inr data" for data
    using that by (intro uncrashed_seq published rest) auto
  then show ?case unfolding commit_loop.simps
    by (intro conjI uncrashed_pureE_then as_array_reported triple_seq triple_plain published rest)
qed

lemma Commit_uncrashed:
  assumes "\<And>es j a. as_array (am_data msg) = Inr es \<Longrightarrow> j \<in> set es \<Longrightarrow> arg_address 0 j = Inr a \<Longrightarrow> E a \<noteq> None"
  shows "uncrashed (regular E) (ext_Commit msg)"
  unfolding ext_Commit_def
proof (intro uncrashed_pureE_then as_array_reported)
  fix es assume "of_ad (as_array (am_data msg)) = Inr es"
  then have "as_array (am_data msg) = Inr es" by (cases "as_array (am_data msg)" rule: of_ad.cases) simp_all
  from assms [OF this] have loop: "uncrashed (regular E) (commit_loop es)" "triple (regular E) (commit_loop es) (\<lambda>_. regular E)"
    using commit_loop_uncrashed [of es E] by blast+
  have "uncrashed (\<lambda>s. s = sv) (thenE (onElem (sendMsg (getMyThreadHandle (sv_cleanupThread sv)) msg)) (\<lambda>_. retE []))"
    if "regular E sv" for sv
  proof (rule uncrashed_then)
    show "uncrashed (\<lambda>s. s = sv) (onElem (sendMsg (getMyThreadHandle (sv_cleanupThread sv)) msg))"
      using regular_handles(1,5) [OF that] by (intro uncrashed_send) (simp add: getMyThreadHandle_def)
    show "triple (\<lambda>s. s = sv) (onElem (sendMsg (getMyThreadHandle (sv_cleanupThread sv)) msg)) (\<lambda>_ _. True)"
      by (simp add: triple_def)
  qed (rule uncrashed_plain)
  then show "uncrashed (regular E) (thenE (commit_loop es) (\<lambda>_. thenE getE (\<lambda>sv.
      thenE (onElem (sendMsg (getMyThreadHandle (sv_cleanupThread sv)) msg)) (\<lambda>_. retE []))))"
    using loop by (intro uncrashed_seq [of _ "commit_loop es"] uncrashed_getE_then) auto
qed

text \<open>The handles the game reads texts from can be read.\<close>

lemma GetState_uncrashed: "uncrashed (regular E) (ext_GetState n)"
  unfolding ext_GetState_def
proof (rule uncrashed_getE_then)
  fix sv :: "('a, 'b, 'c, 'd) server" assume reg: "regular E sv"
  obtain a where a: "hv_myThreadHandle (sv_threadState sv) = Some a" using reg by (auto simp: regular_def sv_started_def)
  then have "has_mailbox a (wd_str sv)" using reg by (auto simp: regular_def sv_ok_def rg_ok_def readers_def)
  from receiveAll_eq [OF this a] show "uncrashed (\<lambda>s. s = sv)
    (thenE (onStr (\<lambda>rg. bindE (promptE (receiveAll False (sv_threadState sv) rg)) (\<lambda>(ok, allOut, n, hv, rg). Inr ((ok, allOut, hv), rg))))
      (\<lambda>(ok, allOut, hv). thenE (updE (\<lambda>sv. sv\<lparr>sv_threadState := hv\<rparr>)) (\<lambda>_. thenE (pureE (state_text ok allOut)) (copy_output n))))"
    by (auto simp: uncrashed_def thenE_def onStr_def promptE_def copy_output_def pureE_def state_text_eq split: if_splits)
qed

lemma receiveMsg_answers:
  assumes "rg_ok rg" and "hv_myThreadHandle hv = Some a" and "a \<in> set (rg_addrs rg)"
  shows "\<exists>ok msg hv' rg'. receiveMsg False hv rg = Some (Inr (ok, msg, hv', rg'))"
proof -
  have box: "has_mailbox a rg" using assms(1,3) by (simp add: rg_ok_def)
  show ?thesis using receiveMsg_eq(2) [OF box assms(2)] receiveMsg_eq(3) [OF box assms(2), of _ _ False]
    by (cases "mailbox rg a") blast+
qed

lemma GetDllState_uncrashed: "uncrashed (regular E) (ext_GetDllState n)"
  unfolding ext_GetDllState_def
proof (rule uncrashed_getE_then)
  fix sv :: "('a, 'b, 'c, 'd) server" assume reg: "regular E sv"
  obtain a where a: "hv_myThreadHandle (sv_dllState sv) = Some a" using reg by (auto simp: regular_def sv_started_def)
  then have "rg_ok (wd_str sv)" "a \<in> set (rg_addrs (wd_str sv))" using reg by (auto simp: regular_def sv_ok_def readers_def)
  from receiveMsg_answers [OF this(1) a this(2)] show "uncrashed (\<lambda>s. s = sv)
    (thenE (onStr (\<lambda>rg. bindE (promptE (receiveMsg False (sv_dllState sv) rg)) (\<lambda>(ok, msg, hv, rg). Inr ((msg, hv), rg))))
      (\<lambda>(msg, hv). thenE (updE (\<lambda>sv. sv\<lparr>sv_dllState := hv\<rparr>)) (\<lambda>_.
        copy_output n (case msg of None \<Rightarrow> ''+0'' | Some out \<Rightarrow> out))))"
    by (auto simp: uncrashed_def thenE_def onStr_def promptE_def copy_output_def pureE_def split: if_splits)
qed

lemma GetOutput_uncrashed:
  assumes "regular E sv" and "\<And>a. arg_address 0 (am_data msg) = Inr a \<Longrightarrow> sv_shives sv a \<noteq> None"
  shows "uncrashed (\<lambda>s. s = sv) (ext_GetOutput msg n)"
  unfolding ext_GetOutput_def
proof (intro uncrashed_pureE_then arg_address_reported)
  fix x assume "arg_address 0 (am_data msg) = Inr x"
  with assms(2) obtain h where h: "sv_shives sv x = Some h" by blast
  with regular_handles(4) [OF assms(1)] obtain a where "hv_myThreadHandle h = Some a" "a \<in> set (rg_addrs (wd_str sv))" by blast
  from receiveMsg_answers [OF regular_handles(2) [OF assms(1)] this] h show "uncrashed (\<lambda>s. s = sv)
    (thenE (fetchE (\<lambda>sv. sv_shives sv x)) (\<lambda>outputThread.
      thenE (onStr (\<lambda>rg. bindE (promptE (receiveMsg False outputThread rg)) (\<lambda>(ok, msg, hv, rg). Inr ((msg, hv), rg)))) (\<lambda>(out, hv).
      thenE (updE (\<lambda>sv. sv\<lparr>sv_shives := (sv_shives sv)(x := Some hv)\<rparr>)) (\<lambda>_.
        copy_output n (case out of None \<Rightarrow> [] | Some s \<Rightarrow> s)))))"
    by (auto simp: uncrashed_def thenE_def fetchE_def onStr_def promptE_def copy_output_def pureE_def split: if_splits)
qed

lemma Connect_uncrashed:
  assumes "regular E sv"
  shows "uncrashed (\<lambda>s. s = sv) (ext_Connect pf msg n)"
proof -
  note reps = regular_handles(1,2) [OF assms]
  have elem: "rg_rep (rg_addrs (wd_elem sv)) (wd_elem sv)" and str: "rg_rep (rg_addrs (wd_str sv)) (wd_str sv)"
    using reps rg_wf_rep by (auto simp: rg_ok_def)
  have none: "hv_myThreadHandle hive_new = None" by (simp add: hive_new_def)
  consider e where "arg_string 0 (am_data msg) = Inl e" | name e where "arg_string 0 (am_data msg) = Inr name" "arg_string 1 (am_data msg) = Inl e"
    | name oname where "arg_string 0 (am_data msg) = Inr name" "arg_string 1 (am_data msg) = Inr oname"
    by (cases "arg_string 0 (am_data msg)"; cases "arg_string 1 (am_data msg)") auto
  then show ?thesis
  proof cases
    case 1
    then show ?thesis using args_reported(2) [OF 1]
      by (auto simp: uncrashed_def ext_Connect_def Let_def thenE_def getE_def pureE_def)
  next
    case (2 name e)
    from new_thread [OF elem, of "pf_shares pf" name "Some Mycallback" None msg] 2 args_reported(2) [OF 2(2)] show ?thesis
      by (auto simp: uncrashed_def ext_Connect_def Let_def thenE_def getE_def pureE_def onElem_def)
  next
    case (3 name oname)
    from new_thread [OF elem, of "pf_shares pf" name "Some Mycallback" None msg]
      addThread_rep [OF str none, of "pf_shares pf" oname None None] 3 show ?thesis
      by (auto simp: uncrashed_def ext_Connect_def Let_def thenE_def getE_def pureE_def onElem_def onStr_def copy_output_def
          getMyThreadHandle_def split: if_splits)
  qed
qed

lemma uncrashed_copy: "uncrashed P (thenE getE (\<lambda>sv. copy_output n (f sv)))"
  by (intro uncrashed_getE_then uncrashed_plain)

lemma questions_uncrashed: "uncrashed P (ext_IsBanned cl msg n)" "uncrashed P' (ext_GMTime cl' n)"
  unfolding ext_IsBanned_def ext_GMTime_def Let_def
  by (intro uncrashed_copy uncrashed_pureE_then args_reported(3); assumption?)+

section \<open>Every call\<close>

text \<open>The first call finds no objects; it makes none.\<close>

lemma start_ehives: "ext_start pf sv = (Inr u, sv') \<Longrightarrow> sv_ehives sv' = sv_ehives sv \<and> sv_shives sv' = sv_shives sv"
  by (auto simp: ext_start_def thenE_Inr_iff on_registry_Inr split: if_splits)

lemma start_regular:
  assumes "sys_reach pf cl d (sv, cu)" and "pf_shares pf = 0"
  shows "\<exists>sv'. ext_start pf sv = (Inr (), sv') \<and> regular (sv_ehives sv) sv' \<and> sv_shives sv' = sv_shives sv"
proof -
  have ok: "sv_ok sv" "sv_fresh sv \<or> sv_started sv" using sys_reach_ok [OF assms(1)] by (auto simp: sys_ok_def split: if_splits)
  obtain sv' where r: "ext_start pf sv = (Inr (), sv')"
  proof (cases "sv_started sv")
    case True
    then show ?thesis using that by (auto simp: ext_start_def thenE_def getE_def getMyThreadHandle_def sv_started_def)
  next
    case False
    with ok ext_start_returns [of sv pf] that show ?thesis by blast
  qed
  have "sv_counted sv'" using start_counted [OF _ r] sys_reach_counted [OF assms(2,1)] by simp
  moreover have "texts_ok sv'" using tripleD [OF start_texts _ r] sys_reach_texts [OF assms(2,1)] by simp
  ultimately show ?thesis using ext_start_run [OF ok r] r start_ehives [OF r] by (simp add: regular_def)
qed


section \<open>The cleanup thread\<close>

lemma fill_loop_raises: "raises E create \<Longrightarrow> raises E (fill_loop n create)"
proof (induction n)
  case (Suc n)
  have "raises E (onSnd create)" using Suc.prems unfolding raises_def onSnd_def by (fastforce split: prod.splits)
  then show ?case using Suc by (auto intro!: raises_intros simp: updFst_def)
qed (auto intro: raises_intros)

lemma pool_new_reported:
  assumes "pool_new n (factory_create d f) s = (Inl e, t)"
  shows "e \<in> reported"
proof -
  have "raises reported (factory_create d f)"
    unfolding raises_def
  proof (intro allI impI)
    fix s e t assume r: "factory_create d f s = (Inl e, t)"
    obtain mem w where s: "s = (mem, w)" by (cases s)
    show "e \<in> reported"
      using r Connect_cases [of d "c_str (fac_server f)" "c_str (fac_username f)" "c_str (fac_password f)" DATABASE False w]
      by (auto simp: s factory_create_def conn_new_eq split: prod.splits sum.splits)
  qed
  note raises = fill_loop_raises [OF this, of n, unfolded raises_def, rule_format]
  obtain p where "fill_loop n (factory_create d f) (\<lparr>cp_pool_size = n, cp_pool = [], cp_borrowed = []\<rparr>, s) = (Inl e, (p, t))"
    using assms by (auto simp: pool_new_def split: prod.splits sum.splits)
  from raises [OF this] show ?thesis .
qed

lemma pool_new_no_crash: "pool_new n (factory_create d f) s \<noteq> (Inl (Crashed e), t)"
  using pool_new_reported [of n d f s "Crashed e" t] by auto

text \<open>A blocking \<open>receiveAll\<close> waits, or hands over every message.\<close>

lemma receiveAll_blocking:
  assumes "has_mailbox a rg" and "hv_myThreadHandle hv = Some a"
  shows "receiveAll True hv rg = None \<or>
    (\<exists>n hv' rg'. receiveAll True hv rg = Some (Inr (True, map Some (mailbox rg a), n, hv', rg')))"
proof (cases "mailbox rg a")
  case Nil
  with loadMsg_Nil [OF assms] show ?thesis by (simp add: receiveAll_def)
next
  case (Cons m ms)
  obtain rg1 where 1: "loadMsg hv rg = Inr (True, hv\<lparr>hv_currentMsg := Some m\<rparr>, rg1)" "has_mailbox a rg1" "mailbox rg1 a = ms"
    using loadMsg_Cons [OF assms Cons] by blast
  obtain q where q: "hqc_wf q" "mailbox rg1 a = hqc_contents q" "queue_of (Some a) rg1 = Inr q" using 1(2) by (rule has_mailboxE)
  let ?n = "of_nat (length ms) + 1 :: u32"
  have "length ms \<le> hqc_cap" using hqc.contents_le [OF q(1)] q(2) 1(3) by simp
  then have n: "unat ?n = Suc (length ms)" "hqc_size q = of_nat (length ms)"
    using hqc.sz_eq [OF q(1)] q(2) 1(3) by (simp_all add: unat_u32_plus unsigned_of_nat take_bit_nat_eq_self hqc_cap_def)
  let ?cells = "(new_array ?n)[0 := Some m]"
  have s: "store (new_array ?n) 0 (Some m) = Inr ?cells" using n(1) by (simp add: store_def new_array_def)
  have len: "unat (1 :: u32) + length (mailbox rg1 a) = length ?cells" "length ?cells < 4294967296"
    using n(1) 1(3) \<open>length ms \<le> hqc_cap\<close> by (simp_all add: new_array_def hqc_cap_def)
  obtain hv' rg' where "drain_loop 1 ?cells (hv\<lparr>hv_currentMsg := Some m\<rparr>) rg1 = Inr (take 1 ?cells @ map Some ms, hv', rg')"
    using drain_loop_eq [OF 1(2) _ len, of "hv\<lparr>hv_currentMsg := Some m\<rparr>"] assms(2) 1(3) by auto
  moreover have "take 1 ?cells = [Some m]" using n(1) by (simp add: new_array_def)
  ultimately show ?thesis using 1(1) q(3) n(2) s assms(2) Cons by (simp add: receiveAll_def Let_def)
qed

text \<open>
  The steps of the cleanup thread: it finds the handle it reports to, its own mailbox and the handles of
  the objects it deletes.
\<close>

lemma ready_no_crash:
  assumes "sv_run sv" and "cu_pc c = CReady"
  shows "cleanup_step d c sv \<noteq> Some (Inl (Crashed e), sv')"
proof -
  have ok: "rg_ok (wd_str sv)" using assms(1) by (simp add: sv_ok_def)
  obtain a where a: "hv_myThreadHandle (sv_dllState sv) = Some a" using assms(1) by (auto simp: sv_started_def)
  then have a': "a \<in> set (rg_addrs (wd_str sv))" "th_threadName (rg_handle (wd_str sv) a) = ''DLL_O''"
    using assms(1) by (auto simp: sv_ok_def readers_def rg_name_handle)
  have "rg_rep (rg_addrs (wd_str sv)) (wd_str sv)" using ok rg_wf_rep by (auto simp: rg_ok_def)
  from getThreadHandle_eq [OF this, of "''DLL_O''"] a' obtain b where
    b: "getThreadHandle ''DLL_O'' (wd_str sv) = Some (Inr (Some b))" "b \<in> set (rg_addrs (wd_str sv))"
    by (cases "find (\<lambda>a. th_threadName (rg_handle (wd_str sv) a) = ''DLL_O'') (rg_addrs (wd_str sv))")
      (auto simp: find_None_iff find_Some_iff)
  have "has_mailbox b (wd_str sv)" using b(2) ok by (simp add: rg_ok_def)
  from sendMsg_returns [OF this, of "''+1''"] b(1) assms(2) show ?thesis
    by (auto simp: cleanup_step_def cleanup_ready_def cu_goto_def)
qed

lemma receive_no_crash:
  assumes "rg_ok (wd_elem sv)" and "hv_myThreadHandle (cu_hive c) = Some a" "a \<in> set (rg_addrs (wd_elem sv))"
    and "cu_pc c = CReceive"
  shows "cleanup_step d c sv \<noteq> Some (Inl (Crashed e), sv')"
proof -
  have "has_mailbox a (wd_elem sv)" using assms(1,3) by (simp add: rg_ok_def)
  from receiveAll_blocking [OF this assms(2)] assms(4) show ?thesis
    by (auto simp: cleanup_step_def cleanup_receive_def cu_goto_def)
qed

lemma delete_crash:
  assumes reg: "regular (sv_ehives sv) sv" and pc: "cu_pc c = CDelete"
    and crash: "cleanup_step d c sv = Some (Inl (Crashed e), sv')"
  shows "e = DanglingDeref \<and> (\<exists>j js a. cu_items c = j # js \<and> arg_address 0 j = Inr a \<and> sv_ehives sv a = None)"
proof -
  obtain j js where j: "cu_items c = j # js"
    using crash pc by (cases "cu_items c") (auto simp: cleanup_step_def cleanup_delete_def cu_goto_def)
  obtain x where x: "arg_address 0 j = Inr x"
    using crash pc j arg_address_reported [of 0 j] by (cases "arg_address 0 j") (auto simp: cleanup_step_def cleanup_delete_def)
  show ?thesis
  proof (cases "sv_ehives sv x")
    case None
    with crash j pc x show ?thesis by (auto simp: cleanup_step_def cleanup_delete_def)
  next
    case (Some h)
    note ok = regular_handles(1) [OF reg]
    from regular_handles(3) [OF reg Some] obtain a where a: "hv_myThreadHandle h = Some a" "a \<in> set (rg_addrs (wd_elem sv))"
      by blast
    obtain n where "node_at (rg_mem (wd_elem sv)) a = Some n" using a(2) ok by (auto simp: rg_ok_def has_mailbox_def)
    from isRunning_eq [OF this] hive_destroy_cases [OF ok a] crash j pc x Some a(1) show ?thesis
      by (auto simp: cleanup_step_def cleanup_delete_def cu_goto_def getMyThreadHandle_def split: bool.splits)
  qed
qed

lemma delete_output_crash:
  assumes reg: "regular (sv_ehives sv) sv" and pc: "cu_pc c = CDeleteOutput"
    and crash: "cleanup_step d c sv = Some (Inl (Crashed e), sv')"
  shows "e = DanglingDeref \<and> (\<exists>j js a. cu_items c = j # js \<and> arg_address 1 j = Inr a \<and> sv_shives sv a = None)"
proof -
  obtain j js where j: "cu_items c = j # js"
    using crash pc by (cases "cu_items c") (auto simp: cleanup_step_def cleanup_delete_output_def cu_goto_def)
  obtain x where x: "arg_address 1 j = Inr x"
    using crash pc j arg_address_reported [of 1 j]
    by (cases "arg_address 1 j") (auto simp: cleanup_step_def cleanup_delete_output_def)
  show ?thesis
  proof (cases "sv_shives sv x")
    case None
    with crash j pc x show ?thesis by (auto simp: cleanup_step_def cleanup_delete_output_def)
  next
    case (Some h)
    note ok = regular_handles(2) [OF reg]
    from regular_handles(4) [OF reg Some] obtain a where a: "hv_myThreadHandle h = Some a" "a \<in> set (rg_addrs (wd_str sv))"
      by blast
    from hive_destroy_cases [OF ok a] crash j pc x Some show ?thesis
      by (auto simp: cleanup_step_def cleanup_delete_output_def cu_goto_def)
  qed
qed

lemma other_steps_no_crash:
  assumes "cu_pc c = CStart \<or> cu_pc c = CMessage"
  shows "cleanup_step d c sv \<noteq> Some (Inl (Crashed e), sv')"
proof -
  have "Crashed e \<notin> reported" by simp
  with assms show ?thesis
    by (auto simp: cleanup_step_def cleanup_start_def cleanup_message_def cu_goto_def pool_new_no_crash
        dest!: as_array_reported split: prod.splits sum.splits list.splits)
qed


end
