(* ===== verification/System_Run.thy ===== *)
theory System_Run
  imports Session_Open Program_Safety Hive_Messages
begin

text \<open>
  One run of the whole program, from the loading of the library: the first call, the pool, a player who
  connects, the session that reports the account, the commit. It shows that the states the properties
  of the sessions speak of are reached.
\<close>

section \<open>A session alone\<close>

lemma session_run_reach:
  assumes "sys_reach pf cl d (sv, cu)" and "i < length (sv_spawned sv)"
    and "session_run n d cl (sv_spawned sv ! i) (world.truncate sv) = Some (Inr ss, wd)"
  shows "sys_reach pf cl d ((world.extend wd (world.more sv))\<lparr>sv_spawned := (sv_spawned sv)[i := ss]\<rparr>, cu)"
  using assms
proof (induction n arbitrary: sv)
  case 0
  then show ?case by (cases sv) (auto simp: world.defs)
next
  case (Suc n)
  then obtain ss1 wd1 where s: "session_step d cl (sv_spawned sv ! i) (world.truncate sv) = Some (Inr ss1, wd1)"
    "session_run n d cl ss1 wd1 = Some (Inr ss, wd)"
    by (auto split: option.splits prod.splits sum.splits)
  let ?sv1 = "(world.extend wd1 (world.more sv))\<lparr>sv_spawned := (sv_spawned sv)[i := ss1]\<rparr>"
  have "on_world (session_step d cl (sv_spawned sv ! i)) sv = Some (Inr ss1, world.extend wd1 (world.more sv))"
    using s(1) by (simp add: on_world_def)
  from reach_step [OF Suc.prems(1) step_session [OF Suc.prems(2) this]] have r: "sys_reach pf cl d (?sv1, cu)" .
  have "world.truncate ?sv1 = wd1" "sv_spawned ?sv1 = (sv_spawned sv)[i := ss1]" by (simp_all add: world.defs)
  then have "sys_reach pf cl d ((world.extend wd (world.more ?sv1))\<lparr>sv_spawned := ((sv_spawned sv)[i := ss1])[i := ss]\<rparr>, cu)"
    using Suc.IH [OF r] Suc.prems(2) s(2) by simp
  moreover have "(world.extend wd (world.more ?sv1))\<lparr>sv_spawned := ((sv_spawned sv)[i := ss1])[i := ss]\<rparr>
      = (world.extend wd (world.more sv))\<lparr>sv_spawned := (sv_spawned sv)[i := ss]\<rparr>"
    by (cases sv; cases wd) (simp add: world.defs)
  ultimately show ?case by simp
qed

section \<open>The library starts\<close>

definition demo_db :: mem_db where
  "demo_db = (0, (\<lambda>_. []), (\<lambda>_. (0, ban_text mem_account)))"

definition demo_conns :: "(unit, unit) conns" where
  "demo_conns = replicate 50 (Some (Some mem_connection))"

lemma mem_fill:
  "fill_loop n (factory_create mem_sql f) (p, (mem, w)) =
     (Inr (), (p\<lparr>cp_pool := cp_pool p @ [length mem..<length mem + n]\<rparr>,
       (mem @ replicate n (Some (Some mem_connection)), w)))"
proof (induction n arbitrary: p mem)
  case (Suc n)
  have "[length mem..<length mem + Suc n] = length mem # [Suc (length mem)..<Suc (length mem) + n]"
    by (simp add: upt_rec)
  with Suc show ?case by (simp add: thenE_def mem_factory_create)
qed simp

lemma mem_pool_new:
  "pool_new n (factory_create mem_sql f) ([], w) =
     (Inr \<lparr>cp_pool_size = n, cp_pool = [0..<n], cp_borrowed = []\<rparr>, (replicate n (Some (Some mem_connection)), w))"
  by (simp add: pool_new_def mem_fill)

abbreviation demo_reach :: "(unit, mem_db, unit, unit) config \<Rightarrow> bool" where
  "demo_reach \<equiv> sys_reach demo_platform (calendar_clib dt_epoch) mem_sql"

lemma demo_fresh: "pf_shares demo_platform = 0"
  by (simp add: demo_platform_def)

lemma demo_started:
  "\<exists>sv c. demo_reach (sv, Some c) \<and> cu_pc c = CReady \<and> sv_spawned sv = [] \<and> sv_shives sv = (\<lambda>_. None) \<and> wd_conns sv = demo_conns \<and>
     wd_out sv = demo_db \<and> wd_pool sv = Some \<lparr>cp_pool_size = 50, cp_pool = [0..<50], cp_borrowed = []\<rparr> \<and>
     set_option (hv_myThreadHandle (sv_cleanupThread sv)) \<subseteq> set (rg_addrs (wd_elem sv)) \<and>
     (\<forall>a\<in>set (rg_addrs (wd_str sv)). th_threadName (rg_handle (wd_str sv) a) \<noteq> ''out'')"
proof -
  let ?new = "server_new mem_db0 :: (unit, mem_db, unit, unit) server"
  have new: "demo_reach (?new, None)" by (rule reach_new)
  from sys_reach_ok [OF new] have "sv_ok ?new" "sv_fresh ?new" by (simp_all add: sys_ok_def)
  from ext_start_effect [OF this, of demo_platform] obtain e s ct ts ds where
    start: "ext_start demo_platform ?new = (Inr (), ?new\<lparr>wd_elem := e, wd_str := s, sv_thrdname := ''CLEANUP_O'',
      sv_cleanupThread := ct, sv_threadState := ts, sv_dllState := ds\<rparr>)"
    and ct: "set_option (hv_myThreadHandle ct) \<subseteq> set (rg_addrs e)"
    and names: "\<forall>a\<in>set (rg_addrs s) - set (rg_addrs (wd_str ?new)). th_threadName (rg_handle s a) \<in> {''CLEANUP_O'', ''DLL_O''}"
    by blast
  have "rg_addrs (wd_str ?new) = []" by (simp add: server_new_def rg_rep_wf [OF registry_new_rep, THEN conjunct2])
  with names have names: "\<forall>a\<in>set (rg_addrs s). th_threadName (rg_handle s a) \<noteq> ''out''" by auto
  let ?sv = "?new\<lparr>wd_elem := e, wd_str := s, sv_thrdname := ''CLEANUP_O'', sv_cleanupThread := ct, sv_threadState := ts,
    sv_dllState := ds\<rparr>"
  have "am_of (pf_stof demo_platform) ''x'' = Inr (am_new\<lparr>am_hasFunc := True, am_name := ''x'', am_data := ad_new\<rparr>)"
    by (rule am_of_name) (simp_all add: ad_chars)
  then have call: "RVExtension demo_platform (calendar_clib dt_epoch) 10240 ''x'' ?new = (Inr ''x'', ?sv)"
    using start by (simp add: RVExtension_def c_str_def copy_output_def Let_def)
  have 1: "demo_reach (?sv, Some (cleanup_new ct))" using reach_step [OF new step_call [OF call]] by simp
  from reach_step [OF 1 step_outside] have 2: "demo_reach (?sv\<lparr>wd_out := demo_db\<rparr>, Some (cleanup_new ct))" .
  let ?sv2 = "?sv\<lparr>wd_out := demo_db, wd_conns := demo_conns,
    wd_pool := Some \<lparr>cp_pool_size = 50, cp_pool = [0..<50], cp_borrowed = []\<rparr>\<rparr>"
  have "cleanup_step mem_sql (cleanup_new ct) (?sv\<lparr>wd_out := demo_db\<rparr>) = Some (Inr ((cleanup_new ct)\<lparr>cu_pc := CReady\<rparr>), ?sv2)"
    by (simp add: cleanup_step_def cleanup_start_def cleanup_new_def server_new_def mem_pool_new cu_goto_def demo_conns_def
        del: upt_rec_numeral)
  from reach_step [OF 2 step_cleanup_thread [OF this]] have "demo_reach (?sv2, Some ((cleanup_new ct)\<lparr>cu_pc := CReady\<rparr>))" .
  with ct names show ?thesis by (intro exI [of _ ?sv2] exI) (auto simp: server_new_def)
qed

section \<open>A player connects\<close>

definition connect_elements :: "unit adata list" where
  "connect_elements = [whole (VString ''in''), whole (VString ''out''), whole (VString ''joe''), whole (VUnsigned 0)]"

definition connect_msg :: "unit amessage" where
  "connect_msg = \<lparr>am_name = ''Connect'', am_hasFunc = True, am_data = AData (VArray connect_elements) True None False\<rparr>"

definition connect_call :: string where
  "connect_call = ''Connect'' @ AD_SEPERATOR # AD_ARRAY # AD_AS_LEFT # join (\<lambda>_ _. []) connect_elements @ [AD_AS_RIGHT]"

lemma connect_parsed: "am_of (pf_stof demo_platform) (c_str connect_call) = Inr connect_msg"
proof -
  have rt: "rt_elems (pf_stof demo_platform) (\<lambda>_ _. []) connect_elements"
    by (simp add: connect_elements_def whole_def rt_string_def ad_chars)
  have "am_ParseArmaData (pf_stof demo_platform) connect_call am_new = Inr (True, connect_msg)"
    unfolding connect_call_def connect_msg_def
    by (rule am_ParseArmaData_call [OF _ rt]) (simp_all add: connect_elements_def ad_chars)
  moreover have "c_str connect_call = connect_call"
    by (rule c_str_plain) (simp add: connect_call_def connect_elements_def whole_def ad_chars show_u64_def show_nat.simps)
  ultimately show ?thesis by (simp add: am_of_def)
qed

lemma connect_args:
  "arg_string 0 (am_data connect_msg) = Inr ''in''" "arg_string 1 (am_data connect_msg) = Inr ''out''"
  "arg_string 2 (am_data connect_msg) = Inr ''joe''" "arg_unsigned 3 (am_data connect_msg) = Inr 0"
  by (simp_all add: connect_msg_def connect_elements_def whole_def arg_string_def arg_unsigned_def arg_def as_array_def
      as_string_def as_unsigned_def)

text \<open>The database is no business of the calls of the game.\<close>

interpretation database_kept: kept_by_calls
  "\<lambda>sv :: (unit, mem_db, unit, unit) server. wd_pool sv = po \<and> wd_conns sv = mem \<and> wd_out sv = w" for po mem w
  by unfold_locales (auto intro!: onElem_any)

lemma find_append: "find P (xs @ ys) = (case find P xs of None \<Rightarrow> find P ys | Some x \<Rightarrow> Some x)"
  by (induction xs) auto

lemma demo_connected:
  "\<exists>sv c b. demo_reach (sv, Some c) \<and> sv_spawned sv = [session_new mem_account (hive_new\<lparr>hv_myThreadHandle := Some b\<rparr>)] \<and>
     wd_conns sv = demo_conns \<and> wd_out sv = demo_db \<and>
     wd_pool sv = Some \<lparr>cp_pool_size = 50, cp_pool = [0..<50], cp_borrowed = []\<rparr> \<and>
     b \<in> set (rg_addrs (wd_elem sv)) \<and> mailbox (wd_elem sv) b = [connect_msg] \<and> th_hiveThread (rg_handle (wd_elem sv) b) \<and>
     map_option hv_myThreadHandle (sv_ehives sv 8192) = Some (Some b) \<and>
     (\<exists>o'. find (\<lambda>a. th_threadName (rg_handle (wd_str sv) a) = ''out'') (rg_addrs (wd_str sv)) = Some o' \<and>
        length (mailbox (wd_str sv) o') < hqc_cap) \<and>
     (\<exists>a. hv_myThreadHandle (sv_cleanupThread sv) = Some a \<and> a \<in> set (rg_addrs (wd_elem sv)) \<and> a \<noteq> b)"
proof -
  obtain sv c where s: "demo_reach (sv, Some c)" "sv_spawned sv = []" "sv_shives sv = (\<lambda>_. None)"
    "wd_conns sv = demo_conns" "wd_out sv = demo_db"
    "wd_pool sv = Some \<lparr>cp_pool_size = 50, cp_pool = [0..<50], cp_borrowed = []\<rparr>"
    "set_option (hv_myThreadHandle (sv_cleanupThread sv)) \<subseteq> set (rg_addrs (wd_elem sv))"
    "\<forall>a\<in>set (rg_addrs (wd_str sv)). th_threadName (rg_handle (wd_str sv) a) \<noteq> ''out''"
    using demo_started by blast
  from sys_reach_ok [OF s(1)] have run: "sv_run sv" by (simp add: sys_ok_def)
  then obtain a where a: "hv_myThreadHandle (sv_cleanupThread sv) = Some a" by (auto simp: sv_started_def)
  have rep: "rg_rep (rg_addrs (wd_elem sv)) (wd_elem sv)" "rg_rep (rg_addrs (wd_str sv)) (wd_str sv)"
    using run rg_wf_rep [of "wd_elem sv"] rg_wf_rep [of "wd_str sv"] by (simp_all add: sv_ok_def rg_ok_def)
  have "hv_myThreadHandle (sv_cleanupThread sv) \<noteq> None" using a by simp
  from Connect_effect [OF this rep connect_parsed _ connect_args(1,2), of 10240 "calendar_clib dt_epoch" Inr]
  obtain x y b o' sv' where c: "RVExtension demo_platform (calendar_clib dt_epoch) 10240 connect_call sv = (Inr (handles_text x y), sv')"
    "map_option hv_myThreadHandle (sv_ehives sv' x) = Some (Some b)" "b \<notin> set (rg_addrs (wd_elem sv))"
    "rg_rep (rg_addrs (wd_elem sv) @ [b]) (wd_elem sv')" "mailbox (wd_elem sv') b = [connect_msg]"
    "rg_rep (rg_addrs (wd_str sv) @ [o']) (wd_str sv')" "mailbox (wd_str sv') o' = []"
    "th_threadName (rg_handle (wd_str sv') o') = ''out''"
    "\<forall>a\<in>set (rg_addrs (wd_str sv)). rg_handle (wd_str sv') a = rg_handle (wd_str sv) a"
    "th_hiveThread (rg_handle (wd_elem sv') b)"
    "x = pf_new demo_platform (sv\<lparr>sv_shives := (sv_shives sv)(pf_new demo_platform sv := Some hive_new)\<rparr>)"
    "sv_cleanupThread sv' = sv_cleanupThread sv"
    "sv_spawned sv' = sv_spawned sv @ [session_new (pf_act demo_platform) (hive_new\<lparr>hv_myThreadHandle := Some b\<rparr>)]"
    by (auto simp: connect_msg_def)
  have x: "x = 8192" using c(11) s(3) by (simp add: demo_platform_def)
  have r: "demo_reach (sv', Some c)" using reach_step [OF s(1) step_call [OF c(1)]] by simp
  have db: "wd_pool sv' = wd_pool sv \<and> wd_conns sv' = wd_conns sv \<and> wd_out sv' = wd_out sv"
    using database_kept.commands.parts.call_keeps [OF _ c(1)] by blast
  have addrs: "rg_addrs (wd_elem sv') = rg_addrs (wd_elem sv) @ [b]" "rg_addrs (wd_str sv') = rg_addrs (wd_str sv) @ [o']"
    using rg_rep_wf [OF c(4)] rg_rep_wf [OF c(6)] by simp_all
  have "find (\<lambda>a. th_threadName (rg_handle (wd_str sv') a) = ''out'') (rg_addrs (wd_str sv)) = None"
    using s(8) c(9) by (simp add: find_None_iff)
  then have out: "find (\<lambda>a. th_threadName (rg_handle (wd_str sv') a) = ''out'') (rg_addrs (wd_str sv')) = Some o'"
    using c(8) unfolding addrs by (simp add: find_append)
  show ?thesis
    using r db addrs(1) out c x s a
    by (intro exI [of _ sv'] exI [of _ c] exI [of _ b]) (auto simp: demo_platform_def hqc_cap_def)
qed

section \<open>The session loads the account\<close>

lemma demo_node: "node_at demo_conns 0 = Some (Some mem_connection)" "node_at demo_conns 1 = Some (Some mem_connection)"
  by (simp_all add: node_at_def demo_conns_def)

lemma demo_withConn:
  "withConn f (Some 0) (demo_conns, w) = (fst (f (Some mem_connection) w), (demo_conns, snd (f (Some mem_connection) w)))"
  "withConn f (Some (Suc 0)) (demo_conns, w) = (fst (f (Some mem_connection) w), (demo_conns, snd (f (Some mem_connection) w)))"
  using demo_node by (simp_all add: withConn_def thenE_def)

lemma demo_database:
  assumes "t ''joe'' = (v, ban_text mem_account)" and "ps 3 = []"
  shows "\<exists>t'. CreateAccount mem_sql (Some mem_connection) ''joe'' (0, ps, t) = (Inr True, (0, ps(1 := ''joe''), t')) \<and> t' ''joe'' = t ''joe''"
    and "\<exists>t'. CreateBanData mem_sql (Some mem_connection) ''joe'' (0, ps, t) = (Inr True, (0, ps(1 := ''joe''), t')) \<and> t' ''joe'' = t ''joe''"
    and "\<exists>act'. withAccount (GetAccount mem_sql (Some mem_connection) ''joe'') act (0, ps, t) = (Inr (True, act'), (0, ps(1 := ''joe''), t))"
    and "\<exists>act'. withAccount (GetBanData mem_sql (Some mem_connection) ''joe'') act (0, ps, t) = (Inr (True, act'), (0, ps(1 := ''joe''), t))"
    and "CommitData mem_sql (Some mem_connection) (0, ps, t) = (Inr True, (0, ps, t))"
proof -
  show "\<exists>t'. CreateAccount mem_sql (Some mem_connection) ''joe'' (0, ps, t) = (Inr True, (0, ps(1 := ''joe''), t')) \<and> t' ''joe'' = t ''joe''"
    "\<exists>t'. CreateBanData mem_sql (Some mem_connection) ''joe'' (0, ps, t) = (Inr True, (0, ps(1 := ''joe''), t')) \<and> t' ''joe'' = t ''joe''"
    using assms(2) by (simp_all add: CreateAccount_def CreateBanData_def mem_sql_def mem_connection_def)
  show "\<exists>act'. withAccount (GetAccount mem_sql (Some mem_connection) ''joe'') act (0, ps, t) = (Inr (True, act'), (0, ps(1 := ''joe''), t))"
    by (simp add: withAccount_def GetAccount_def mem_sql_def mem_connection_def setE_def callE_def catch_sql_def thenE_def)
  have "ban_row mem_sql mem_connection ''joe'' (0, ps, t) ''joe'' v (ban_text mem_account) (0, ps(1 := ''joe''), t)"
    using assms(1) by (auto simp: ban_row_def mem_sql_def)
  from GetBanData_row [OF this mem_account_ok, of act]
  show "\<exists>act'. withAccount (GetBanData mem_sql (Some mem_connection) ''joe'') act (0, ps, t) = (Inr (True, act'), (0, ps(1 := ''joe''), t))"
    by (simp add: withAccount_def) (simp add: mem_sql_def)
  show "CommitData mem_sql (Some mem_connection) (0, ps, t) = (Inr True, (0, ps, t))"
    by (simp add: CommitData_def mem_sql_def mem_connection_def)
qed

lemma demo_load:
  assumes "ss_opflcon ss = Some 0" "ss_opflcon2 ss = Some 1" "ss_actName ss = ''joe''" "ss_stable ss" "\<not> ss_rejoin ss"
  shows "\<exists>banned act w. load_account mem_sql cl ss (demo_conns, demo_db) =
    (Inr (ss\<lparr>ss_stable := True, ss_isBanned := banned, ss_act := act\<rparr>), (demo_conns, w))"
proof -
  have name: "c_str (ss_actName ss) = ''joe''" using assms(3) by (simp add: c_str_def)
  let ?ps = "(\<lambda>_. []) :: nat \<Rightarrow> string" and ?t = "(\<lambda>_. (0, ban_text mem_account)) :: string \<Rightarrow> u64 \<times> string"
  let ?ps1 = "?ps(1 := ''joe'')"
  have ps: "?ps 3 = []" "?ps1 3 = []" "?ps1(1 := ''joe'') = ?ps1" by simp_all
  obtain t1 where 1: "CreateAccount mem_sql (Some mem_connection) ''joe'' (0, ?ps, ?t) = (Inr True, (0, ?ps1, t1))" "t1 ''joe'' = ?t ''joe''"
    using demo_database(1) [where ps = ?ps and t = ?t, OF refl ps(1)] by blast
  have joe1: "t1 ''joe'' = (0, ban_text mem_account)" using 1(2) by simp
  obtain act2 where 2: "withAccount (GetAccount mem_sql (Some mem_connection) ''joe'') (ss_act ss) (0, ?ps1, t1) =
      (Inr (True, act2), (0, ?ps1, t1))"
    using demo_database(3) [where ps = ?ps1 and t = t1, OF joe1 ps(2), of "ss_act ss"] unfolding ps(3) by blast
  obtain t3 where 3: "CreateBanData mem_sql (Some mem_connection) ''joe'' (0, ?ps1, t1) = (Inr True, (0, ?ps1, t3))" "t3 ''joe'' = t1 ''joe''"
    using demo_database(2) [where ps = ?ps1 and t = t1, OF joe1 ps(2)] unfolding ps(3) by blast
  have joe3: "t3 ''joe'' = (0, ban_text mem_account)" using 3(2) joe1 by simp
  obtain act4 where 4: "withAccount (GetBanData mem_sql (Some mem_connection) ''joe'') act2 (0, ?ps1, t3) = (Inr (True, act4), (0, ?ps1, t3))"
    using demo_database(4) [where ps = ?ps1 and t = t3, OF joe3 ps(2), of act2] unfolding ps(3) by blast
  note 5 = demo_database(5) [where ps = ?ps1 and t = t3, OF joe3 ps(2)]
  show ?thesis
    using assms name 1(1) 2 3(1) 4 5
    by (simp add: load_account_def whenStable_def whenStableAct_def conn_calls demo_withConn demo_db_def thenE_def Let_def) blast
qed

definition demo_named :: "unit session \<Rightarrow> unit session" where
  "demo_named ss = (named ''in'' ''out'' ''joe'' 0 ss)\<lparr>ss_hive := (ss_hive ss)\<lparr>hv_currentMsg := Some connect_msg\<rparr>,
     ss_opflcon := Some 0, ss_opflcon2 := Some 1, ss_retry := True, ss_pc := PSetup\<rparr>"

lemma demo_loaded:
  assumes "ss = session_new mem_account hv"
  obtains banned act w where "load_account mem_sql cl (demo_named ss) (demo_conns, demo_db) =
    (Inr ((demo_named ss)\<lparr>ss_stable := True, ss_isBanned := banned, ss_act := act\<rparr>), (demo_conns, w))"
  using demo_load [of "demo_named ss" cl] assms that by (auto simp: demo_named_def named_def session_new_def)

lemma fifty: "[0..<50] = 0 # 1 # [2..<(50::nat)]"
  by (simp add: upt_rec)

lemma demo_serving:
  "\<exists>sv c b ss. demo_reach (sv, Some c) \<and> sv_spawned sv = [ss] \<and> ss_pc ss = PServe \<and> hv_myThreadHandle (ss_hive ss) = Some b \<and>
     ss_holds ss = [0, 1] \<and>
     b \<in> set (rg_addrs (wd_elem sv)) \<and> mailbox (wd_elem sv) b = [] \<and> th_hiveThread (rg_handle (wd_elem sv) b) \<and>
     map_option hv_myThreadHandle (sv_ehives sv 8192) = Some (Some b) \<and>
     (\<exists>a. hv_myThreadHandle (sv_cleanupThread sv) = Some a \<and> a \<in> set (rg_addrs (wd_elem sv)) \<and> a \<noteq> b)"
proof -
  let ?p = "\<lparr>cp_pool_size = 50, cp_pool = [0..<50], cp_borrowed = []\<rparr> :: addr pool"
  obtain sv c b o' a where s: "demo_reach (sv, Some c)"
    "sv_spawned sv = [session_new mem_account (hive_new\<lparr>hv_myThreadHandle := Some b\<rparr>)]"
    "wd_conns sv = demo_conns" "wd_out sv = demo_db" "wd_pool sv = Some ?p"
    "b \<in> set (rg_addrs (wd_elem sv))" "mailbox (wd_elem sv) b = [connect_msg]" "th_hiveThread (rg_handle (wd_elem sv) b)"
    "map_option hv_myThreadHandle (sv_ehives sv 8192) = Some (Some b)"
    "find (\<lambda>a. th_threadName (rg_handle (wd_str sv) a) = ''out'') (rg_addrs (wd_str sv)) = Some o'"
    "length (mailbox (wd_str sv) o') < hqc_cap"
    "hv_myThreadHandle (sv_cleanupThread sv) = Some a" "a \<in> set (rg_addrs (wd_elem sv))" "a \<noteq> b"
    using demo_connected by metis
  let ?hv = "hive_new\<lparr>hv_myThreadHandle := Some b\<rparr> :: unit amessage hive"
  let ?ss = "session_new mem_account ?hv" and ?cl = "calendar_clib dt_epoch" and ?wd = "world.truncate sv"
  obtain banned act w where load: "load_account mem_sql ?cl (demo_named ?ss) (demo_conns, demo_db) =
      (Inr ((demo_named ?ss)\<lparr>ss_stable := True, ss_isBanned := banned, ss_act := act\<rparr>), (demo_conns, w))"
    using demo_loaded [OF refl] .
  let ?ss2 = "(demo_named ?ss)\<lparr>ss_stable := True, ss_isBanned := banned, ss_act := act\<rparr>"
  have ok: "rg_ok (wd_elem sv)" "rg_ok (wd_str sv)" using sys_reach_ok [OF s(1)] by (simp_all add: sys_ok_def sv_ok_def)
  have box: "has_mailbox b (wd_elem sv)" "has_mailbox o' (wd_str sv)"
    using ok s(6,10) by (auto simp: rg_ok_def find_Some_iff)
  have rep: "rg_rep (rg_addrs (wd_str sv)) (wd_str sv)" using ok(2) rg_wf_rep [of "wd_str sv"] by (simp add: rg_ok_def)
  have pool: "cp_pool ?p = 0 # 1 # [2..<50]" using fifty by simp
  have start: "ss_pc ?ss = PStart" "ss_opflcon ?ss = None" "ss_opflcon2 ?ss = None" "ss_out ?ss = []" "hv_myThreadHandle (ss_hive ?ss) = Some b"
    by (simp_all add: session_new_def)
  have same: "wd_elem ?wd = wd_elem sv" "wd_str ?wd = wd_str sv" "wd_pool ?wd = wd_pool sv" "wd_conns ?wd = wd_conns sv"
    "wd_out ?wd = wd_out sv" by (simp_all add: world.defs)
  have facts: "0 \<in> conn_alive (wd_conns ?wd, wd_out ?wd)" "sql_threadInit mem_sql (wd_out ?wd) = (Inr (), demo_db)"
    "load_account mem_sql ?cl ((named ''in'' ''out'' ''joe'' 0 ?ss)\<lparr>ss_hive := (ss_hive ?ss)\<lparr>hv_currentMsg := Some connect_msg\<rparr>,
        ss_opflcon := Some 0, ss_opflcon2 := Some 1, ss_retry := True, ss_pc := PSetup\<rparr>) (wd_conns ?wd, demo_db) = (Inr ?ss2, (demo_conns, w))"
    "ss_stable ?ss2" "wd_pool ?wd = Some ?p" "mailbox (wd_elem ?wd) b = [connect_msg]" "has_mailbox b (wd_elem ?wd)"
    using demo_node load s(3-5,7) box(1)
    by (simp_all add: same demo_named_def conn_alive_def sound_con_def mem_connection_def) (simp add: mem_sql_def)
  have outs: "rg_rep (rg_addrs (wd_str sv)) (wd_str ?wd)" "has_mailbox o' (wd_str ?wd)" "length (mailbox (wd_str ?wd) o') < hqc_cap"
    "find (\<lambda>b. th_threadName (rg_handle (wd_str ?wd) b) = ss_outputName ?ss2) (rg_addrs (wd_str sv)) = Some o'"
    using s(10,11) rep box(2) by (simp_all add: same demo_named_def named_def)
  obtain q wd' where r: "session_run 7 mem_sql ?cl ?ss ?wd = Some (Inr (after_report ?ss2), wd')"
    "ss_holds ?ss2 = [0, 1]" "mailbox (wd_elem wd') b = []" "same_but b (wd_elem sv) (wd_elem wd')"
    using opening_run [OF start facts(7,6) connect_args facts(5) pool facts(1-4) outs(1,4,2,3)] unfolding same by blast
  let ?sv = "(world.extend wd' (world.more sv))\<lparr>sv_spawned := [after_report ?ss2]\<rparr>"
  have reach: "demo_reach (?sv, Some c)"
    using session_run_reach [OF s(1), of 0 7] r(1) s(2) by simp
  have eq: "wd_elem ?sv = wd_elem wd'" "sv_ehives ?sv = sv_ehives sv" "sv_cleanupThread ?sv = sv_cleanupThread sv"
    by (cases sv, simp add: world.defs)+
  obtain n where n: "node_at (rg_mem (wd_elem sv)) b = Some n" using box(1) by (rule has_mailboxE)
  note frame = same_but_frame [OF r(4) n]
  have "rg_rep (rg_addrs (wd_elem sv)) (wd_elem wd')" using ok(1) rg_wf_rep [of "wd_elem sv"] frame(1) by (simp add: rg_ok_def)
  then have addrs: "rg_addrs (wd_elem wd') = rg_addrs (wd_elem sv)" using rg_rep_wf by blast
  have "th_hiveThread (rg_handle (wd_elem wd') b)" using arg_cong [OF frame(4), of th_hiveThread] s(8) by simp
  with reach eq addrs r s(6,9,12-14) show ?thesis
    by (intro exI [of _ ?sv] exI [of _ c] exI [of _ b] exI [of _ "after_report ?ss2"])
      (simp add: after_report_def demo_named_def named_def session_new_def ss_holds_def)
qed

section \<open>The commit\<close>

definition commit_item :: "unit adata list" where
  "commit_item = [whole (VAddress 8192), whole (VAddress 4096), whole (VUnsigned 0)]"

definition commit_elements :: "unit adata list" where
  "commit_elements = [whole (VArray commit_item)]"

definition commit_msg :: "unit amessage" where
  "commit_msg = \<lparr>am_name = ''Commit'', am_hasFunc = True, am_data = AData (VArray commit_elements) True None False\<rparr>"

definition commit_call :: string where
  "commit_call = ''Commit'' @ AD_SEPERATOR # AD_ARRAY # AD_AS_LEFT # join (\<lambda>_ _. []) commit_elements @ [AD_AS_RIGHT]"

lemma commit_parsed: "am_of (pf_stof demo_platform) (c_str commit_call) = Inr commit_msg"
proof -
  have rt: "rt_elems (pf_stof demo_platform) (\<lambda>_ _. []) commit_elements"
    by (simp add: commit_elements_def commit_item_def whole_def)
  have "am_ParseArmaData (pf_stof demo_platform) commit_call am_new = Inr (True, commit_msg)"
    unfolding commit_call_def commit_msg_def
    by (rule am_ParseArmaData_call [OF _ rt]) (simp_all add: commit_elements_def ad_chars)
  moreover have "c_str commit_call = commit_call"
    by (rule c_str_plain) (simp add: commit_call_def commit_elements_def commit_item_def whole_def ad_chars show_u64_def
      show_nat.simps show_hex.simps hex_digit_def, code_simp)
  ultimately show ?thesis by (simp add: am_of_def)
qed

text \<open>The message the session gets.\<close>

definition commit_part :: "unit amessage" where
  "commit_part = am_new\<lparr>am_name := ''Commit'',
     am_data := ad_SetDataProtection True (snd (ad_SetData (VArray commit_item) ad_new))\<rparr>"

lemma commit_args:
  "am_name commit_part \<notin> {''PublishKills'', ''PublishChickens'', ''PublishAccount''}"
  "arg_unsigned 2 (am_data commit_part) = Inr 0" "arg_address 0 (am_data commit_part) = Inr 8192"
  by (simp_all add: commit_part_def commit_item_def whole_def arg_unsigned_def arg_address_def arg_def as_array_def
      as_unsigned_def as_address_def ad_SetDataProtection_def ad_SetData_def ad_new_def)

lemma demo_committed:
  "\<exists>sv c b ss. demo_reach (sv, Some c) \<and> sv_spawned sv = [ss] \<and> ss_pc ss = PServe \<and> hv_myThreadHandle (ss_hive ss) = Some b \<and>
     b \<in> set (rg_addrs (wd_elem sv)) \<and> mailbox (wd_elem sv) b = [commit_part] \<and> th_hiveThread (rg_handle (wd_elem sv) b)"
proof -
  obtain sv c b ss a where s: "demo_reach (sv, Some c)" "sv_spawned sv = [ss]" "ss_pc ss = PServe"
    "hv_myThreadHandle (ss_hive ss) = Some b" "b \<in> set (rg_addrs (wd_elem sv))" "mailbox (wd_elem sv) b = []"
    "th_hiveThread (rg_handle (wd_elem sv) b)" "map_option hv_myThreadHandle (sv_ehives sv 8192) = Some (Some b)"
    "hv_myThreadHandle (sv_cleanupThread sv) = Some a" "a \<in> set (rg_addrs (wd_elem sv))" "a \<noteq> b"
    using demo_serving by metis
  obtain h where h: "sv_ehives sv 8192 = Some h" "hv_myThreadHandle h = Some b" using s(8) by auto
  have ok: "rg_ok (wd_elem sv)" using sys_reach_ok [OF s(1)] by (simp add: sys_ok_def sv_ok_def)
  have box: "has_mailbox b (wd_elem sv)" "has_mailbox a (wd_elem sv)" using ok s(5,10) by (simp_all add: rg_ok_def)
  obtain rg1 where 1: "sendMsg (Some b) commit_part (wd_elem sv) = Inr (True, rg1)" "mailbox rg1 b = [commit_part]"
    "same_but b (wd_elem sv) rg1"
    using sendMsg_eq [OF box(1), of commit_part] s(6) by (auto simp: hqc_cap_def)
  have box1: "has_mailbox a rg1" using same_but_has_mailbox [OF 1(3)] s(11) box(2) by metis
  from sendMsg_returns [OF this] obtain ok2 rg2 where 2: "sendMsg (Some a) commit_msg rg1 = Inr (ok2, rg2)" by blast
  note same2 = sendMsg_cases(3) [OF box1 2]
  let ?sv = "sv\<lparr>wd_elem := rg2\<rparr>"
  have started: "hv_myThreadHandle (sv_cleanupThread sv) \<noteq> None" using s(9) by simp
  have "PublishData commit_part sv = (Inr True, sv\<lparr>wd_elem := rg1\<rparr>)"
    using h 1(1) commit_args(3) by (simp add: PublishData_def fetchE_def onElem_def getMyThreadHandle_def thenE_def)
  then have "ext_Commit commit_msg sv = (Inr [], ?sv)"
    using 2 s(9)
    by (simp add: ext_Commit_def commit_msg_def commit_elements_def as_array_def whole_def commit_part_def thenE_def onElem_def
        getMyThreadHandle_def)
  then have call: "RVExtension demo_platform (calendar_clib dt_epoch) 10240 commit_call sv = (Inr [], ?sv)"
    using commit_parsed started by (simp add: RVExtension_def commit_msg_def thenE_def [of "pureE _"] Let_def)
  have reach: "demo_reach (?sv, Some c)" using reach_step [OF s(1) step_call [OF call]] by simp
  obtain n where n: "node_at (rg_mem (wd_elem sv)) b = Some n" using box(1) by (rule has_mailboxE)
  obtain n1 where n1: "node_at (rg_mem rg1) a = Some n1" using box1 by (rule has_mailboxE)
  note f1 = same_but_frame [OF 1(3) n] and f2 = same_but_frame [OF same2 n1]
  have "rg_rep (rg_addrs (wd_elem sv)) rg2" using ok rg_wf_rep [of "wd_elem sv"] f1(1) f2(1) by (simp add: rg_ok_def)
  then have addrs: "rg_addrs rg2 = rg_addrs (wd_elem sv)" using rg_rep_wf by blast
  have b: "mailbox rg2 b = [commit_part]" "rg_handle rg2 b = rg_handle rg1 b" using f2(2,3) s(11) 1(2) by metis+
  have "th_hiveThread (rg_handle rg2 b)" using arg_cong [OF f1(4), of th_hiveThread] s(7) b(2) by simp
  with reach addrs b(1) s(2-5) show ?thesis by (intro exI [of _ ?sv] exI [of _ c] exI [of _ b] exI [of _ ss]) simp
qed

section \<open>Witnesses\<close>


lemma sessions_never_share_a_connection_witness:
  "\<exists>sv c x y p. demo_reach (sv, Some c) \<and> x \<noteq> y \<and> ss_uses (sv_spawned sv ! 0) = [x, y] \<and> wd_pool sv = Some p \<and>
     {x, y} \<subseteq> set (cp_borrowed p) \<and> fst (get_stats p) + snd (get_stats p) = 50"
proof -
  obtain sv c ss where s: "demo_reach (sv, Some c)" "sv_spawned sv = [ss]" "ss_pc ss = PServe" "ss_holds ss = [0, 1]"
    using demo_serving by metis
  then have uses: "ss_uses (sv_spawned sv ! 0) = [0, 1]" by (simp add: ss_uses_def)
  have "0 < length (sv_spawned sv)" using s(2) by simp
  with sessions_never_share_a_connection [OF s(1)] uses obtain p where "wd_pool sv = Some p" "{0, 1} \<subseteq> set (cp_borrowed p)"
    "fst (get_stats p) + snd (get_stats p) = 50"
    by (metis insert_subset list.set_intros empty_subsetI option.inject)
  with s(1) uses show ?thesis by (intro exI [of _ sv] exI [of _ c] exI [of _ 0] exI [of _ 1] exI [of _ p]) simp
qed







end
