(* ===== verification/Spec2Isabelle.thy ===== *)
theory Spec2Isabelle
  imports Hive_Queue DT_Between Cleanup_Props Arma_Parse Arma_Typing Error_File DB_Account System_Run
begin

text \<open>
  A model of the native part of Operation Front Line: the library \<^verbatim>\<open>OPFL\<close> that the game server loads, and
  the library \<^verbatim>\<open>DatabaseConnector\<close> through which it reaches its MySQL database.

  \<^bold>\<open>The program.\<close> The game calls one function, \<^verbatim>\<open>RVExtension\<close> (\<^verbatim>\<open>OPFL/OPFL.cpp\<close>), with a text and
  a buffer for the answer. The text is parsed into an \<^verbatim>\<open>ArmaMessage\<close>, and its name selects the command.
  \<^verbatim>\<open>Connect\<close> registers two named mailboxes (\<^verbatim>\<open>ThreadHandle\<close>) with the registries of \<^verbatim>\<open>ThreadHive\<close> and starts
  the thread of a player, \<^verbatim>\<open>mycallback\<close>; the other commands put the message into the mailbox of such a
  thread or take answers out of the mailbox it writes to. A player's thread borrows two connections from
  the \<^verbatim>\<open>ConnectionPool\<close>, loads the account through \<^verbatim>\<open>DatabaseConnector.cpp\<close>, counts a desertion and decides
  with \<^verbatim>\<open>IsBanned\<close> whether a ban holds, and then serves messages until a \<^verbatim>\<open>Commit\<close> tells it to end. One more
  thread, \<^verbatim>\<open>CleanupThreads\<close>, makes the pool and deletes the two \<^verbatim>\<open>ThreadHive\<close> objects of each session that
  committed, once its thread has stopped. Threads share the two registries (one for messages, one for
  texts), the pool and the use counts of its connections; every operation on them holds a mutex.

  \<^bold>\<open>How it is modelled.\<close> An operation is a function from the state it works on to the changed state and
  a result; a failure is a value: \<open>mem_error\<close> for an access C++ leaves undefined, \<open>failure\<close> for what an
  operation with effects can end in (a C++ exception, the end of the process, such an access), \<open>dt_error\<close>
  and \<open>ad_error\<close> for the components that have their own. Machine integers are words of the width the code
  has. A thread is a machine of steps, each from one access of shared state to the next; \<open>sys_step\<close> of
  \<^verbatim>\<open>System\<close> lets the game, every session and the cleanup thread take steps in any order, and \<open>sys_reach\<close>
  are the states the program can be in.

  \<^bold>\<open>Theories and sources.\<close>

  \<^item> \<^verbatim>\<open>Prelude\<close>, \<^verbatim>\<open>Linked_Heap\<close>, \<^verbatim>\<open>Effect\<close>: the integer types, results that can fail, arrays accessed with a
    check, the heap of nodes with the locale \<open>linked\<close> of list segments, operations with effects.
  \<^item> \<^verbatim>\<open>Fifo_Interface\<close>: the locales \<open>fifo\<close> and \<open>bounded_fifo\<close>, what a user of a message queue relies on.
    \<^verbatim>\<open>Hive_QueueC\<close> models \<^verbatim>\<open>HiveQueueC\<close> (the circular array that grows, \<open>hqc_push\<close>, \<open>hqc_pop\<close>, \<open>grow_above\<close>,
    \<open>grow_below\<close>) and \<^verbatim>\<open>Hive_Queue\<close> the linked \<^verbatim>\<open>HiveQueue\<close>, both of \<^verbatim>\<open>OPFL/ThreadHive.h\<close>; each interprets the
    interface, and both refine a list.
  \<^item> \<^verbatim>\<open>Thread_Hive\<close>: \<^verbatim>\<open>ThreadHandle\<close> and \<^verbatim>\<open>ThreadHive\<close> of \<^verbatim>\<open>OPFL/ThreadHive.h\<close>. The record \<open>registry\<close> holds the
    static members and the heap of handles, \<open>hive\<close> one object; \<open>addThread\<close>, \<open>getThreadHandle\<close>, \<open>sendMsg\<close>,
    \<open>sendAll\<close>, \<open>receiveMsg\<close>, \<open>receiveAll\<close>, \<open>spawnThread\<close>, \<open>hive_finish\<close> (the end of \<^verbatim>\<open>operator()\<close>), \<open>jdThread\<close> and
    the destructor \<open>hive_destroy\<close> are its operations. \<^verbatim>\<open>Hive_Registry\<close> shows that the registry is a list of
    named handles, \<^verbatim>\<open>Hive_Invariant\<close> that every call that returns keeps it one, \<^verbatim>\<open>Hive_Messages\<close> that a handle
    is a mailbox that delivers in order.
  \<^item> \<^verbatim>\<open>Arma_Text\<close>, \<^verbatim>\<open>Arma_Data\<close>: \<^verbatim>\<open>ArmaData\<close>, \<^verbatim>\<open>ArmaMessage\<close>, the parser \<^verbatim>\<open>BuildData\<close> with its loops (\<open>arr_loop\<close>,
    \<open>nest_loop\<close>, \<open>flat_loop\<close>) and the printer \<open>Deparse\<close>. \<^verbatim>\<open>Arma_Roundtrip\<close> shows which texts come back,
    \<^verbatim>\<open>Arma_Typing\<close> that what is parsed is typed throughout. \<^verbatim>\<open>Arma_Heap\<close> models the destructors and the
    vectors \<^verbatim>\<open>Commit\<close> shares between two messages, \<^verbatim>\<open>Arma_Parse\<close> the same parser as it allocates (\<open>h_BuildData\<close>
    and its loops): it refines the parser on values, and every object is freed once.
  \<^item> \<^verbatim>\<open>Error_File\<close>: \<^verbatim>\<open>ErrorFile\<close> of \<^verbatim>\<open>OPFL/ThreadHive.h\<close>, over a model of the output stream.
  \<^item> \<^verbatim>\<open>DT_Duration\<close>, \<^verbatim>\<open>DT_Calendar\<close>, \<^verbatim>\<open>DT_DateTime\<close>, \<^verbatim>\<open>DT_Arith\<close>, \<^verbatim>\<open>DT_Between\<close>: the classes of
    \<^verbatim>\<open>DatabaseConnector/DateTime.cpp\<close>, which the rest of the program does not call. The reference is the number of milliseconds \<open>dt_total\<close>; the locale
    \<open>time_shift\<close> states once what adding and subtracting a unit of time promise and has an interpretation
    for each of the five units.
  \<^item> \<^verbatim>\<open>DB_Connector\<close>: \<^verbatim>\<open>DatabaseConnector/DatabaseConnector.cpp\<close>, every exported function over the record \<open>sql\<close>
    of the driver's calls; \<^verbatim>\<open>DB_Rules\<close>: which failures reach the caller, and that a ban is read back as written;
    \<^verbatim>\<open>DB_Account\<close>: the memory a loaded account takes, and its deletion.
  \<^item> \<^verbatim>\<open>Conn_Pool\<close>: \<^verbatim>\<open>OPFL/ConnectionPool.h\<close>, with the locale \<open>connection_source\<close> for what the pool relies on in
    its factory; \<^verbatim>\<open>OPFL_Conn\<close> models \<^verbatim>\<open>OPFL/OPFLConnection.h\<close> and interprets it; \<^verbatim>\<open>Pool_Props\<close> holds the results.
  \<^item> \<^verbatim>\<open>Session\<close>: \<^verbatim>\<open>mycallback\<close> and \<^verbatim>\<open>IsBanned\<close> of \<^verbatim>\<open>OPFL/OPFL.cpp\<close>; \<open>session_step\<close> is one step of the thread, its
    position is \<open>ss_pc\<close>. \<^verbatim>\<open>Extension\<close>: \<^verbatim>\<open>RVExtension\<close> (one definition \<open>ext_...\<close> per command) and \<^verbatim>\<open>PublishData\<close>;
    \<^verbatim>\<open>Cleanup\<close>: \<^verbatim>\<open>CleanupThreads\<close>. \<^verbatim>\<open>Session_Props\<close>, \<^verbatim>\<open>Session_Runs\<close>, \<^verbatim>\<open>Extension_Props\<close> and \<^verbatim>\<open>Cleanup_Props\<close>
    hold what each promises by itself.
  \<^item> \<^verbatim>\<open>System\<close>: the whole program and the invariant of its registries. \<^verbatim>\<open>System_Conns\<close> and \<^verbatim>\<open>System_Lending\<close>: no
    two sessions use one connection. The locales there reduce what a call of the game keeps to what its parts
    keep: \<open>kept_by_parts\<close> to six commands, its sublocale \<open>kept_by_commands\<close> to three for predicates that say nothing
    of the texts, and the sublocale of that, \<open>kept_by_calls\<close>, to the single changes of state; each theory below
    interprets one of them on the predicate it carries through the calls.
    \<^verbatim>\<open>Handle_Count\<close> and \<^verbatim>\<open>Handle_System\<close>: the handles of messages count the objects and threads that share them;
    \<^verbatim>\<open>Text_Handles\<close>: every object for texts owns its handle alone.
    \<^verbatim>\<open>Session_Life\<close>: how a session ends, and what it sends when it crashes; \<^verbatim>\<open>Session_Open\<close>: how it begins. \<^verbatim>\<open>System_Mail\<close>: a session's mailbox is a
    queue that only the game adds to and only the session takes from; \<^verbatim>\<open>Session_Greeting\<close>: it is not empty at the start.
  \<^item> \<^verbatim>\<open>Session_Safety\<close> and \<^verbatim>\<open>Program_Safety\<close>: on what the sessions, the calls of the game and the cleanup thread can
    crash, which are all the threads there are: a session on a pool that is not made yet, on a name that is gone
    or on a connection it never got, the others on addresses from the game that belong to no object. \<^verbatim>\<open>System_Run\<close>: one
    run of the whole program, at which the properties of the sessions are applied.

  \<^bold>\<open>Bounds and fuel.\<close> \<open>hqc_cap\<close> is the largest number of messages a circular queue takes before its 32-bit
  size would wrap; a push beyond it is refused. The searches through the registry are
  partial functions without fuel, proved to end on every registry in order. \<open>delete_elem\<close> takes a bound on
  the depth of arrays, and \<open>owns\<close> requires that the depth stays below it; \<open>h_parse_new\<close> takes the length of the text,
  as arrays nest less deep than that, and \<open>parsed_message_freed\<close> shows that it ends on every text. The runs of a session in
  \<^verbatim>\<open>Session_Life\<close> and \<^verbatim>\<open>Session_Open\<close> count steps of that session: six suffice to end, seven to begin. The
  pool has the fifty connections the code asks for.

  \<^bold>\<open>Parameters.\<close> \<open>sql\<close>: the driver of MySQL, any function for each of its calls. \<open>clib\<close>: the clock and the
  conversions of time of the C library. \<open>platform\<close>: the address of a new object, what uninitialised memory
  holds, and the conversion of text to \<open>float\<close>; \<open>fixed\<close> is the conversion back. For the stream of the
  error log: how much of its buffer it has passed on. Properties that need documented behaviour of these
  state it as a hypothesis. One such hypothesis is on uninitialised memory, \<open>pf_shares pf = 0\<close>: the code never
  sets the member \<^verbatim>\<open>shares\<close> of a new handle before it counts in it, so the life of a handle is right only
  where that memory happens to hold zero; \<open>shares_start_uninitialised\<close> shows what it is otherwise.

  \<^bold>\<open>Not modelled.\<close> The headers of MySQL under \<^verbatim>\<open>Dependencies\<close>, which are third-party code; the mission under
  \<^verbatim>\<open>OPFLBetaAltis-54.Altis\<close>, which is script and dialog layout for the game's engine; the compiler's
  boilerplate around \<^verbatim>\<open>DllMain\<close>. The writes to the error log are not threaded through the components that make them: an error
  that ends the process is the value \<open>Terminate\<close> or \<open>Ended\<close> with its text. Two threads inside \<^verbatim>\<open>ErrorFile\<close> at
  once, further copies \<^verbatim>\<open>std::thread\<close> may make of the object it runs, and the length of a sleep are left out.
\<close>

end
